(* ===== verification/Dht_Prelude.thy ===== *)
theory Dht_Prelude
  imports Main "HOL-Library.Word"
begin

text \<open>
  Shared vocabulary of the development: the machine types, the outcome of a Rust call
  (a value, a panic, or a call that never returns), the slice and byte-order operations
  of the Rust standard library that the program uses, and the generic lemmas about them.
  Nothing here is specific to the hash table.
\<close>

unbundle bit_operations_syntax

section \<open>Machine types\<close>

text \<open>
  \<open>u8\<close>, \<open>u16\<close> and \<open>u32\<close> are words of their width.  A \<open>usize\<close> only ever holds a
  length or an index below the 25600 bytes of a buffer, so it is a \<open>nat\<close>.  A Rust
  \<open>char\<close> is the code point it carries (\<open>c as u32\<close> is the identity), and a \<open>String\<close> is
  the list of its chars, the sequence \<open>String::chars\<close> iterates over.
\<close>

type_synonym u8 = "8 word"
type_synonym u16 = "16 word"
type_synonym u32 = "32 word"
type_synonym rchar = "32 word"
type_synonym rstring = "rchar list"

text \<open>
  Overflow checks of \<open>+\<close> and \<open>-\<close> are on in a debug build of Cargo and off in a release
  build (the README builds with \<open>--release\<close>); both are modelled.
\<close>

datatype build = Debug | Release

section \<open>Outcomes of a call\<close>

text \<open>
  Each place where the source can panic has its own reason.
\<close>

datatype panic =
    SplitAtMid              \<comment> \<open>\<open>split_at\<close>: mid beyond the end\<close>
  | SliceIndex              \<comment> \<open>a slice range out of bounds\<close>
  | ArithOverflow           \<comment> \<open>\<open>+\<close> or \<open>-\<close> overflows in a debug build\<close>
  | UnwrapNone              \<comment> \<open>\<open>unwrap\<close> of \<open>None\<close>\<close>
  | UnwrapErr               \<comment> \<open>\<open>unwrap\<close> or \<open>expect\<close> of an \<open>Err\<close> of the operating system\<close>
  | InvalidPdu "u8 list"    \<comment> \<open>\<open>parse_pdu\<close>: unknown type byte\<close>
  | InvalidId u8            \<comment> \<open>the inner parsers: unknown type byte\<close>
  | SocketError             \<comment> \<open>a read or write failed with something but \<open>WouldBlock\<close>\<close>
  | ShortDatagram nat nat   \<comment> \<open>\<open>send_to\<close> took only a part of the datagram\<close>
  | UnexpectedPdu           \<comment> \<open>a PDU the state does not expect\<close>
  | InvalidStateChange      \<comment> \<open>\<open>last_pdu\<close> does not hold what the state needs\<close>
  | MissingSocket           \<comment> \<open>the successor or predecessor socket is not set\<close>
  | MissingAddress          \<comment> \<open>the listen address of the successor is not set\<close>
  | NotIpv4                 \<comment> \<open>an address that is not IPv4\<close>
  | UnknownToken            \<comment> \<open>an event with an unknown token\<close>
  | AssertFailed            \<comment> \<open>\<open>assert_eq!\<close> of different values\<close>
  | IllegalClose            \<comment> \<open>\<open>NET_CLOSE_CONNECTION\<close> not from the predecessor\<close>

text \<open>
  \<open>Blocked\<close>: the call waits for something that never happens, so it does not return.
\<close>

datatype 'a outcome = Ret 'a | Panic panic | Blocked

primrec obind :: "'a outcome \<Rightarrow> ('a \<Rightarrow> 'b outcome) \<Rightarrow> 'b outcome" where
  "obind (Ret x) f = f x"
| "obind (Panic e) f = Panic e"
| "obind Blocked f = Blocked"

definition unwrap :: "'a option \<Rightarrow> 'a outcome" where
  "unwrap x = (case x of None \<Rightarrow> Panic UnwrapNone | Some y \<Rightarrow> Ret y)"

definition assert_eq :: "'a \<Rightarrow> 'a \<Rightarrow> unit outcome" where
  "assert_eq a b = (if a = b then Ret () else Panic AssertFailed)"

named_theorems outcome_split \<open>equivalences that take a finished call apart\<close>

lemma obind_eq_Ret [outcome_split]: "obind m f = Ret y \<longleftrightarrow> (\<exists>x. m = Ret x \<and> f x = Ret y)"
  by (cases m) auto

lemma obind_eq_Panic:
  "obind m f = Panic e \<longleftrightarrow> m = Panic e \<or> (\<exists>x. m = Ret x \<and> f x = Panic e)"
  by (cases m) auto

lemma obind_eq_Blocked:
  "obind m f = Blocked \<longleftrightarrow> m = Blocked \<or> (\<exists>x. m = Ret x \<and> f x = Blocked)"
  by (cases m) auto

lemma obind_Ret_right [simp]: "obind m Ret = m"
  by (cases m) auto

lemma obind_assoc: "obind (obind m f) g = obind m (\<lambda>x. obind (f x) g)"
  by (cases m) auto

lemma obind_cong [fundef_cong]:
  "m = m' \<Longrightarrow> (\<And>x. m' = Ret x \<Longrightarrow> f x = g x) \<Longrightarrow> obind m f = obind m' g"
  by (cases m') auto

lemma unwrap_eq_Ret [outcome_split]: "unwrap x = Ret y \<longleftrightarrow> x = Some y"
  by (auto simp: unwrap_def split: option.splits)

lemma unwrap_simps [simp]: "unwrap (Some y) = Ret y" "unwrap None = Panic UnwrapNone"
  by (simp_all add: unwrap_def)

text \<open>
  \<open>safe B Q m\<close>: the call \<open>m\<close> does not panic for a reason in \<open>B\<close>, and if it returns, the
  value satisfies \<open>Q\<close>.  The rules take a composed call apart from the back to the front.
\<close>

definition safe :: "panic set \<Rightarrow> ('a \<Rightarrow> bool) \<Rightarrow> 'a outcome \<Rightarrow> bool" where
  "safe B Q m \<longleftrightarrow> (\<forall>x. m = Ret x \<longrightarrow> Q x) \<and> (\<forall>e. m = Panic e \<longrightarrow> e \<notin> B)"

named_theorems safe_intro \<open>rules for the calls of the program\<close>

lemma safe_Ret [simp]: "safe B Q (Ret x) \<longleftrightarrow> Q x"
  by (simp add: safe_def)

lemma safe_Panic [simp]: "safe B Q (Panic e) \<longleftrightarrow> e \<notin> B"
  by (simp add: safe_def)

lemma safe_Blocked [simp]: "safe B Q Blocked"
  by (simp add: safe_def)

lemma safe_obind: "safe B (\<lambda>x. safe B Q (f x)) m \<Longrightarrow> safe B Q (obind m f)"
  by (cases m) auto

lemma safe_mono: "safe B R m \<Longrightarrow> (\<And>x. R x \<Longrightarrow> Q x) \<Longrightarrow> safe B Q m"
  by (auto simp: safe_def)

lemma safeI:
  "(\<And>x. m = Ret x \<Longrightarrow> Q x) \<Longrightarrow> (\<And>e. m = Panic e \<Longrightarrow> e \<notin> B) \<Longrightarrow> safe B Q m"
  by (simp add: safe_def)

lemma safe_RetD: "safe B Q m \<Longrightarrow> m = Ret x \<Longrightarrow> Q x"
  by (simp add: safe_def)

lemma safe_PanicD: "safe B Q m \<Longrightarrow> m = Panic e \<Longrightarrow> e \<notin> B"
  by (simp add: safe_def)

section \<open>Arithmetic on bytes\<close>

text \<open>\<open>a - b\<close> and \<open>a + b\<close> on \<open>u8\<close>: checked in a debug build, wrapping in a release build.\<close>

definition sub_u8 :: "build \<Rightarrow> u8 \<Rightarrow> u8 \<Rightarrow> u8 outcome" where
  "sub_u8 bld a b = (if bld = Debug \<and> a < b then Panic ArithOverflow else Ret (a - b))"

definition add_u8 :: "build \<Rightarrow> u8 \<Rightarrow> u8 \<Rightarrow> u8 outcome" where
  "add_u8 bld a b =
     (if bld = Debug \<and> 256 \<le> unat a + unat b then Panic ArithOverflow else Ret (a + b))"

lemma sub_u8_Ret: "b \<le> a \<Longrightarrow> sub_u8 bld a b = Ret (a - b)"
  by (auto simp: sub_u8_def)

lemma add_u8_Ret: "unat a + unat b < 256 \<Longrightarrow> add_u8 bld a b = Ret (a + b)"
  by (auto simp: add_u8_def)

section \<open>Addresses\<close>

text \<open>
  An \<open>Ipv4Addr\<close> is the \<open>u32\<close> it converts to and from; a \<open>SocketAddrV4\<close> is an address
  and a port, a \<open>SocketAddrV6\<close> has a flow label and a scope id beside them.
\<close>

type_synonym ipv4_addr = u32
type_synonym socket_addr_v4 = "ipv4_addr \<times> u16"

datatype socket_addr = V4 socket_addr_v4 | V6 "128 word" u16 u32 u32

section \<open>Slices and byte order\<close>

text \<open>\<open>slice::split_at\<close> panics when the split point lies beyond the end.\<close>

definition split_at :: "nat \<Rightarrow> 'a list \<Rightarrow> ('a list \<times> 'a list) outcome" where
  "split_at mid xs = (if mid \<le> length xs then Ret (take mid xs, drop mid xs) else Panic SplitAtMid)"

text \<open>\<open>&xs[..n]\<close> panics when \<open>n\<close> lies beyond the end.\<close>

definition slice_to :: "nat \<Rightarrow> 'a list \<Rightarrow> 'a list outcome" where
  "slice_to n xs = (if n \<le> length xs then Ret (take n xs) else Panic SliceIndex)"

text \<open>\<open>to_be_bytes\<close> and \<open>from_be_bytes\<close> of the three integer types.\<close>

definition u16_to_be :: "u16 \<Rightarrow> u8 list" where
  "u16_to_be x = [ucast (drop_bit 8 x), ucast x]"

definition u32_to_be :: "u32 \<Rightarrow> u8 list" where
  "u32_to_be x = [ucast (drop_bit 24 x), ucast (drop_bit 16 x), ucast (drop_bit 8 x), ucast x]"

definition from_be :: "u8 list \<Rightarrow> 'a::len word" where
  "from_be bs = foldl (\<lambda>acc b. push_bit 8 acc OR ucast b) 0 bs"

lemma unat_u8_less: "unat (b :: u8) < 256"
  using unsigned_less [where ?'a = nat and w = b] by simp

lemma unat_of_nat_u8: "k < 256 \<Longrightarrow> unat (of_nat k :: u8) = k"
  by (simp add: unsigned_of_nat take_bit_nat_eq_self)

lemma not_bit_u8 [simp]: "8 \<le> n \<Longrightarrow> \<not> bit (b :: u8) n"
  using bit_imp_le_length [of b n] by auto

lemma length_u16_to_be [simp]: "length (u16_to_be x) = 2"
  by (simp add: u16_to_be_def)

lemma length_u32_to_be [simp]: "length (u32_to_be x) = 4"
  by (simp add: u32_to_be_def)

lemma from_be_u8 [simp]: "from_be [b] = (b :: u8)"
  by (simp add: from_be_def)

lemma from_be_u16 [simp]: "from_be (u16_to_be x) = x"
proof (rule bit_word_eqI)
  fix n assume "n < LENGTH(16)"
  then have "n < 8 \<or> n - 8 < 8 \<and> 8 + (n - 8) = n" by auto
  then show "bit (from_be (u16_to_be x) :: u16) n = bit x n"
    by (auto simp: u16_to_be_def from_be_def bit_simps)
qed

lemma from_be_u32 [simp]: "from_be (u32_to_be x) = x"
proof (rule bit_word_eqI)
  fix n assume "n < LENGTH(32)"
  then have "n < 8 \<or> 8 \<le> n \<and> n < 16 \<or> 16 \<le> n \<and> n < 24 \<or> 24 \<le> n \<and> n < 32" by auto
  then show "bit (from_be (u32_to_be x) :: u32) n = bit x n"
    by (auto simp: u32_to_be_def from_be_def bit_simps)
qed

lemma u16_to_be_from_be [simp]: "length bs = 2 \<Longrightarrow> u16_to_be (from_be bs) = bs"
proof -
  assume "length bs = 2"
  then obtain a b where bs: "bs = [a, b]"
    by (auto simp: length_Suc_conv numeral_2_eq_2)
  show ?thesis unfolding bs u16_to_be_def from_be_def
    by (auto intro!: bit_word_eqI simp: bit_simps)
qed

lemma u32_to_be_from_be [simp]: "length bs = 4 \<Longrightarrow> u32_to_be (from_be bs) = bs"
proof -
  assume "length bs = 4"
  then obtain a b c d where bs: "bs = [a, b, c, d]"
    by (auto simp: length_Suc_conv eval_nat_numeral)
  show ?thesis unfolding bs u32_to_be_def from_be_def
    by (auto intro!: bit_word_eqI simp: bit_simps)
qed

section \<open>Chars and strings\<close>

text \<open>
  \<open>c as u8\<close> keeps the low byte of a char, \<open>b as char\<close> is the char with that code point
  (Latin-1), and \<open>String::len\<close> counts the bytes of the UTF-8 encoding.  \<open>str\<close> is a literal.
\<close>

definition str :: "string \<Rightarrow> rstring" where
  "str s = map of_char s"

definition char_to_u8 :: "rchar \<Rightarrow> u8" where
  "char_to_u8 c = ucast c"

definition u8_to_char :: "u8 \<Rightarrow> rchar" where
  "u8_to_char b = ucast b"

definition len_utf8 :: "rchar \<Rightarrow> nat" where
  "len_utf8 c = (if c < 0x80 then 1 else if c < 0x800 then 2 else if c < 0x10000 then 3 else 4)"

definition string_len :: "rstring \<Rightarrow> nat" where
  "string_len s = sum_list (map len_utf8 s)"

abbreviation ascii :: "rstring \<Rightarrow> bool" where
  "ascii s \<equiv> list_all (\<lambda>c. c < 0x80) s"

abbreviation latin1 :: "rstring \<Rightarrow> bool" where
  "latin1 s \<equiv> list_all (\<lambda>c. c < 0x100) s"

lemma char_u8_roundtrip [simp]: "char_to_u8 (u8_to_char b) = b"
  by (rule bit_word_eqI) (simp add: char_to_u8_def u8_to_char_def bit_simps)

lemma unat_u8_to_char: "unat (u8_to_char b) = unat b"
proof -
  have "unat b < 2 ^ 8" using unsigned_less [of b] by simp
  then show ?thesis
    by (simp add: u8_to_char_def unsigned_ucast_eq take_bit_nat_eq_self)
qed

lemma u8_to_char_bound [simp]: "u8_to_char b < 0x100"
  using unsigned_less [of b] by (simp add: word_less_nat_alt unat_u8_to_char)

lemma u8_char_roundtrip [simp]: "c < 0x100 \<Longrightarrow> u8_to_char (char_to_u8 c) = c"
proof -
  assume "c < 0x100"
  then have "unat c < 2 ^ 8" by (simp add: word_less_nat_alt)
  then have "unat (u8_to_char (char_to_u8 c)) = unat c"
    by (simp add: unat_u8_to_char) (simp add: char_to_u8_def unsigned_ucast_eq take_bit_nat_eq_self)
  then show ?thesis by (rule unsigned_word_eqI)
qed

lemma ascii_latin1: "ascii s \<Longrightarrow> latin1 s"
  by (induction s) (auto simp: word_less_nat_alt)

lemma latin1_map_u8_to_char [simp]: "latin1 (map u8_to_char bs)"
  by (induction bs) auto

lemma chars_bytes_id [simp]: "latin1 s \<Longrightarrow> map (u8_to_char \<circ> char_to_u8) s = s"
  by (induction s) auto

lemma bytes_chars_id [simp]: "map (char_to_u8 \<circ> u8_to_char) bs = bs"
  by (induction bs) auto

lemma string_len_ascii: "ascii s \<Longrightarrow> string_len s = length s"
  by (induction s) (auto simp: string_len_def len_utf8_def)

lemma string_len_ge: "length s \<le> string_len s"
  by (induction s) (auto simp: string_len_def len_utf8_def)

end
