(* ===== verification/Pdu.thy ===== *)
theory Pdu
  imports Dht_Prelude
begin

text \<open>
  The protocol data units of \<^verbatim>\<open>resources/TestNode/src/pdu.rs\<close>: the type bytes and sizes,
  one record per struct, its constructor and address getters, its serialiser (the
  \<open>From<..> for Vec<u8>\<close> implementations, named \<open>.._to_vec\<close>) and its parser (the
  \<open>ParsePdu\<close> implementations, named \<open>.._try_parse\<close>), in the order of the source, then
  the enum \<open>PDU\<close> with \<open>to_bytes\<close>.  A record field is the struct's field under a prefix
  for the struct, since field names of records share one name space.  \<open>.into()\<close> from a
  struct to \<open>PDU\<close> is the constructor of \<open>PDU\<close>.  A parser returns
  \<open>Ret None\<close> when the bytes are too few, \<open>Ret (Some (pdu, used))\<close> on success.
\<close>

section \<open>Type bytes and sizes\<close>

named_theorems pdu_consts \<open>the type bytes and sizes\<close>

definition NET_ALIVE_ID :: u8 where [pdu_consts]: "NET_ALIVE_ID = 0"
definition NET_GET_NODE_ID :: u8 where [pdu_consts]: "NET_GET_NODE_ID = 1"
definition NET_GET_NODE_RESPONSE_ID :: u8 where [pdu_consts]: "NET_GET_NODE_RESPONSE_ID = 2"
definition NET_JOIN_ID :: u8 where [pdu_consts]: "NET_JOIN_ID = 3"
definition NET_JOIN_RESPONSE_ID :: u8 where [pdu_consts]: "NET_JOIN_RESPONSE_ID = 4"
definition NET_CLOSE_CONNECTION_ID :: u8 where [pdu_consts]: "NET_CLOSE_CONNECTION_ID = 5"
definition NET_NEW_RANGE_ID :: u8 where [pdu_consts]: "NET_NEW_RANGE_ID = 6"
definition NET_LEAVING_ID :: u8 where [pdu_consts]: "NET_LEAVING_ID = 7"
definition NET_NEW_RANGE_RESPONSE_ID :: u8 where [pdu_consts]: "NET_NEW_RANGE_RESPONSE_ID = 8"
definition VAL_INSERT_ID :: u8 where [pdu_consts]: "VAL_INSERT_ID = 100"
definition VAL_REMOVE_ID :: u8 where [pdu_consts]: "VAL_REMOVE_ID = 101"
definition VAL_LOOKUP_ID :: u8 where [pdu_consts]: "VAL_LOOKUP_ID = 102"
definition VAL_LOOKUP_RESPONSE_ID :: u8 where [pdu_consts]: "VAL_LOOKUP_RESPONSE_ID = 103"
definition STUN_LOOKUP_ID :: u8 where [pdu_consts]: "STUN_LOOKUP_ID = 200"
definition STUN_RESPONSE_ID :: u8 where [pdu_consts]: "STUN_RESPONSE_ID = 201"

definition SSN_LENGTH :: nat where [pdu_consts]: "SSN_LENGTH = 12"
definition NET_ALIVE_SIZE :: nat where [pdu_consts]: "NET_ALIVE_SIZE = 1"
definition NET_GET_NODE_SIZE :: nat where [pdu_consts]: "NET_GET_NODE_SIZE = 1"
definition NET_GET_NODE_RESPONSE_SIZE :: nat where [pdu_consts]: "NET_GET_NODE_RESPONSE_SIZE = 1 + 4 + 2"
definition NET_JOIN_SIZE :: nat where [pdu_consts]: "NET_JOIN_SIZE = 1 + 4 + 2 + 1 + 4 + 2"
definition NET_JOIN_RESPONSE_SIZE :: nat where [pdu_consts]: "NET_JOIN_RESPONSE_SIZE = 1 + 4 + 2 + 1 + 1"
definition NET_CLOSE_CONNECTION_SIZE :: nat where [pdu_consts]: "NET_CLOSE_CONNECTION_SIZE = 1"
definition NET_NEW_RANGE_SIZE :: nat where [pdu_consts]: "NET_NEW_RANGE_SIZE = 1 + 1 + 1"
definition NET_NEW_RANGE_RESPONSE_SIZE :: nat where [pdu_consts]: "NET_NEW_RANGE_RESPONSE_SIZE = 1"
definition NET_LEAVING_SIZE :: nat where [pdu_consts]: "NET_LEAVING_SIZE = 1 + 4 + 2"
definition VAL_REMOVE_SIZE :: nat where [pdu_consts]: "VAL_REMOVE_SIZE = 1 + SSN_LENGTH"
definition VAL_LOOKUP_SIZE :: nat where [pdu_consts]: "VAL_LOOKUP_SIZE = 1 + SSN_LENGTH + 4 + 2"
definition STUN_LOOKUP_SIZE :: nat where [pdu_consts]: "STUN_LOOKUP_SIZE = 1"
definition STUN_RESPONSE_SIZE :: nat where [pdu_consts]: "STUN_RESPONSE_SIZE = 1 + 4"

section \<open>Readers\<close>

text \<open>\<open>read_be_*\<close> take an integer off the front of the slice and advance it.\<close>

definition read_be_u8 :: "u8 list \<Rightarrow> (u8 \<times> u8 list) outcome" where
  "read_be_u8 input = obind (split_at 1 input) (\<lambda>(int_bytes, rest). Ret (from_be int_bytes, rest))"

definition read_be_u32 :: "u8 list \<Rightarrow> (u32 \<times> u8 list) outcome" where
  "read_be_u32 input = obind (split_at 4 input) (\<lambda>(int_bytes, rest). Ret (from_be int_bytes, rest))"

definition read_be_u16 :: "u8 list \<Rightarrow> (u16 \<times> u8 list) outcome" where
  "read_be_u16 input = obind (split_at 2 input) (\<lambda>(int_bytes, rest). Ret (from_be int_bytes, rest))"

section \<open>\<open>NetGetNodeResponsePdu\<close>\<close>

record NetGetNodeResponsePdu =
  ngnr_pdu_type :: u8
  ngnr_address :: u32
  ngnr_port :: u16

definition NetGetNodeResponsePdu_new :: "u32 \<Rightarrow> u16 \<Rightarrow> NetGetNodeResponsePdu" where
  "NetGetNodeResponsePdu_new address port = \<lparr>ngnr_pdu_type = NET_GET_NODE_RESPONSE_ID, ngnr_address = address, ngnr_port = port\<rparr>"

definition get_addr :: "NetGetNodeResponsePdu \<Rightarrow> socket_addr" where
  "get_addr pdu = V4 (ngnr_address pdu, ngnr_port pdu)"

definition NetGetNodeResponsePdu_to_vec :: "NetGetNodeResponsePdu \<Rightarrow> u8 list" where
  "NetGetNodeResponsePdu_to_vec pdu =
     [ngnr_pdu_type pdu] @ u32_to_be (ngnr_address pdu) @ u16_to_be (ngnr_port pdu)"

definition NetGetNodeResponsePdu_try_parse :: "u8 list \<Rightarrow> (NetGetNodeResponsePdu \<times> nat) option outcome" where
  "NetGetNodeResponsePdu_try_parse buffer =
     (let size = NET_GET_NODE_RESPONSE_SIZE in
      if length buffer < size then Ret None
      else
        obind (read_be_u8 buffer) (\<lambda>(pdu_type, buffer).
        obind (read_be_u32 buffer) (\<lambda>(address, buffer).
        obind (read_be_u16 buffer) (\<lambda>(port, buffer).
        Ret (Some (\<lparr>ngnr_pdu_type = pdu_type, ngnr_address = address, ngnr_port = port\<rparr>, size))))))"

section \<open>\<open>NetAlivePdu\<close>\<close>

record NetAlivePdu =
  na_pdu_type :: u8

definition NetAlivePdu_new :: "NetAlivePdu" where
  "NetAlivePdu_new = \<lparr>na_pdu_type = NET_ALIVE_ID\<rparr>"

definition NetAlivePdu_to_vec :: "NetAlivePdu \<Rightarrow> u8 list" where
  "NetAlivePdu_to_vec pdu =
     [na_pdu_type pdu]"

definition NetAlivePdu_try_parse :: "u8 list \<Rightarrow> (NetAlivePdu \<times> nat) option outcome" where
  "NetAlivePdu_try_parse buffer =
     (let size = NET_ALIVE_SIZE in
      if length buffer < size then Ret None
      else
        obind (read_be_u8 buffer) (\<lambda>(pdu_type, buffer).
        Ret (Some (\<lparr>na_pdu_type = pdu_type\<rparr>, size))))"

section \<open>\<open>NetGetNodePdu\<close>\<close>

record NetGetNodePdu =
  ngn_pdu_type :: u8

definition NetGetNodePdu_new :: "NetGetNodePdu" where
  "NetGetNodePdu_new = \<lparr>ngn_pdu_type = NET_GET_NODE_ID\<rparr>"

definition NetGetNodePdu_to_vec :: "NetGetNodePdu \<Rightarrow> u8 list" where
  "NetGetNodePdu_to_vec pdu =
     [ngn_pdu_type pdu]"

definition NetGetNodePdu_try_parse :: "u8 list \<Rightarrow> (NetGetNodePdu \<times> nat) option outcome" where
  "NetGetNodePdu_try_parse buffer =
     (let size = NET_GET_NODE_SIZE in
      if length buffer < size then Ret None
      else
        obind (read_be_u8 buffer) (\<lambda>(pdu_type, buffer).
        Ret (Some (\<lparr>ngn_pdu_type = pdu_type\<rparr>, size))))"

section \<open>\<open>NetCloseConnectionPdu\<close>\<close>

record NetCloseConnectionPdu =
  ncc_pdu_type :: u8

definition NetCloseConnectionPdu_new :: "NetCloseConnectionPdu" where
  "NetCloseConnectionPdu_new = \<lparr>ncc_pdu_type = NET_CLOSE_CONNECTION_ID\<rparr>"

definition NetCloseConnectionPdu_to_vec :: "NetCloseConnectionPdu \<Rightarrow> u8 list" where
  "NetCloseConnectionPdu_to_vec pdu =
     [ncc_pdu_type pdu]"

definition NetCloseConnectionPdu_try_parse :: "u8 list \<Rightarrow> (NetCloseConnectionPdu \<times> nat) option outcome" where
  "NetCloseConnectionPdu_try_parse buffer =
     (let size = NET_CLOSE_CONNECTION_SIZE in
      if length buffer < size then Ret None
      else
        obind (read_be_u8 buffer) (\<lambda>(pdu_type, buffer).
        Ret (Some (\<lparr>ncc_pdu_type = pdu_type\<rparr>, size))))"

section \<open>\<open>NetJoinPdu\<close>\<close>

record NetJoinPdu =
  nj_pdu_type :: u8
  nj_src_address :: u32
  nj_src_port :: u16
  nj_max_span :: u8
  nj_max_address :: u32
  nj_max_port :: u16

definition NetJoinPdu_new :: "u32 \<Rightarrow> u16 \<Rightarrow> u8 \<Rightarrow> u32 \<Rightarrow> u16 \<Rightarrow> NetJoinPdu" where
  "NetJoinPdu_new src_address src_port max_span max_address max_port = \<lparr>nj_pdu_type = NET_JOIN_ID, nj_src_address = src_address, nj_src_port = src_port, nj_max_span = max_span, nj_max_address = max_address, nj_max_port = max_port\<rparr>"

definition get_max_socket_addr :: "NetJoinPdu \<Rightarrow> socket_addr" where
  "get_max_socket_addr pdu = V4 (nj_max_address pdu, nj_max_port pdu)"

definition get_src_socket_addr :: "NetJoinPdu \<Rightarrow> socket_addr" where
  "get_src_socket_addr pdu = V4 (nj_src_address pdu, nj_src_port pdu)"

definition NetJoinPdu_to_vec :: "NetJoinPdu \<Rightarrow> u8 list" where
  "NetJoinPdu_to_vec pdu =
     [nj_pdu_type pdu] @ u32_to_be (nj_src_address pdu) @ u16_to_be (nj_src_port pdu) @ [nj_max_span pdu] @ u32_to_be (nj_max_address pdu) @ u16_to_be (nj_max_port pdu)"

definition NetJoinPdu_try_parse :: "u8 list \<Rightarrow> (NetJoinPdu \<times> nat) option outcome" where
  "NetJoinPdu_try_parse buffer =
     (let size = NET_JOIN_SIZE in
      if length buffer < size then Ret None
      else
        obind (read_be_u8 buffer) (\<lambda>(pdu_type, buffer).
        obind (read_be_u32 buffer) (\<lambda>(src_address, buffer).
        obind (read_be_u16 buffer) (\<lambda>(src_port, buffer).
        obind (read_be_u8 buffer) (\<lambda>(max_span, buffer).
        obind (read_be_u32 buffer) (\<lambda>(max_address, buffer).
        obind (read_be_u16 buffer) (\<lambda>(max_port, buffer).
        Ret (Some (\<lparr>nj_pdu_type = pdu_type, nj_src_address = src_address, nj_src_port = src_port, nj_max_span = max_span, nj_max_address = max_address, nj_max_port = max_port\<rparr>, size)))))))))"

section \<open>\<open>NetJoinResponsePdu\<close>\<close>

record NetJoinResponsePdu =
  njr_pdu_type :: u8
  njr_next_address :: u32
  njr_next_port :: u16
  njr_range_start :: u8
  njr_range_end :: u8

definition NetJoinResponsePdu_new :: "u32 \<Rightarrow> u16 \<Rightarrow> u8 \<Rightarrow> u8 \<Rightarrow> NetJoinResponsePdu" where
  "NetJoinResponsePdu_new next_address next_port range_start range_end = \<lparr>njr_pdu_type = NET_JOIN_RESPONSE_ID, njr_next_address = next_address, njr_next_port = next_port, njr_range_start = range_start, njr_range_end = range_end\<rparr>"

definition get_next_addr :: "NetJoinResponsePdu \<Rightarrow> socket_addr" where
  "get_next_addr pdu = V4 (njr_next_address pdu, njr_next_port pdu)"

definition NetJoinResponsePdu_to_vec :: "NetJoinResponsePdu \<Rightarrow> u8 list" where
  "NetJoinResponsePdu_to_vec pdu =
     [njr_pdu_type pdu] @ u32_to_be (njr_next_address pdu) @ u16_to_be (njr_next_port pdu) @ [njr_range_start pdu] @ [njr_range_end pdu]"

definition NetJoinResponsePdu_try_parse :: "u8 list \<Rightarrow> (NetJoinResponsePdu \<times> nat) option outcome" where
  "NetJoinResponsePdu_try_parse buffer =
     (let size = NET_JOIN_RESPONSE_SIZE in
      if length buffer < size then Ret None
      else
        obind (read_be_u8 buffer) (\<lambda>(pdu_type, buffer).
        obind (read_be_u32 buffer) (\<lambda>(next_address, buffer).
        obind (read_be_u16 buffer) (\<lambda>(next_port, buffer).
        obind (read_be_u8 buffer) (\<lambda>(range_start, buffer).
        obind (read_be_u8 buffer) (\<lambda>(range_end, buffer).
        Ret (Some (\<lparr>njr_pdu_type = pdu_type, njr_next_address = next_address, njr_next_port = next_port, njr_range_start = range_start, njr_range_end = range_end\<rparr>, size))))))))"

section \<open>\<open>StunLookupPdu\<close>\<close>

record StunLookupPdu =
  sl_pdu_type :: u8

definition StunLookupPdu_new :: "StunLookupPdu" where
  "StunLookupPdu_new = \<lparr>sl_pdu_type = STUN_LOOKUP_ID\<rparr>"

definition StunLookupPdu_to_vec :: "StunLookupPdu \<Rightarrow> u8 list" where
  "StunLookupPdu_to_vec pdu =
     [sl_pdu_type pdu]"

definition StunLookupPdu_try_parse :: "u8 list \<Rightarrow> (StunLookupPdu \<times> nat) option outcome" where
  "StunLookupPdu_try_parse buffer =
     (let size = STUN_LOOKUP_SIZE in
      if length buffer < size then Ret None
      else
        obind (read_be_u8 buffer) (\<lambda>(pdu_type, buffer).
        Ret (Some (\<lparr>sl_pdu_type = pdu_type\<rparr>, size))))"

section \<open>\<open>NetNewRangePdu\<close>\<close>

record NetNewRangePdu =
  nnr_pdu_type :: u8
  nnr_range_start :: u8
  nnr_range_end :: u8

definition NetNewRangePdu_new :: "u8 \<Rightarrow> u8 \<Rightarrow> NetNewRangePdu" where
  "NetNewRangePdu_new range_start range_end = \<lparr>nnr_pdu_type = NET_NEW_RANGE_ID, nnr_range_start = range_start, nnr_range_end = range_end\<rparr>"

definition NetNewRangePdu_to_vec :: "NetNewRangePdu \<Rightarrow> u8 list" where
  "NetNewRangePdu_to_vec pdu =
     [nnr_pdu_type pdu] @ [nnr_range_start pdu] @ [nnr_range_end pdu]"

definition NetNewRangePdu_try_parse :: "u8 list \<Rightarrow> (NetNewRangePdu \<times> nat) option outcome" where
  "NetNewRangePdu_try_parse buffer =
     (let size = NET_NEW_RANGE_SIZE in
      if length buffer < size then Ret None
      else
        obind (read_be_u8 buffer) (\<lambda>(pdu_type, buffer).
        obind (read_be_u8 buffer) (\<lambda>(range_start, buffer).
        obind (read_be_u8 buffer) (\<lambda>(range_end, buffer).
        Ret (Some (\<lparr>nnr_pdu_type = pdu_type, nnr_range_start = range_start, nnr_range_end = range_end\<rparr>, size))))))"

section \<open>\<open>NetNewRangeResponsePdu\<close>\<close>

record NetNewRangeResponsePdu =
  nnrr_pdu_type :: u8

definition NetNewRangeResponsePdu_new :: "NetNewRangeResponsePdu" where
  "NetNewRangeResponsePdu_new = \<lparr>nnrr_pdu_type = NET_NEW_RANGE_RESPONSE_ID\<rparr>"

definition NetNewRangeResponsePdu_to_vec :: "NetNewRangeResponsePdu \<Rightarrow> u8 list" where
  "NetNewRangeResponsePdu_to_vec pdu =
     [nnrr_pdu_type pdu]"

definition NetNewRangeResponsePdu_try_parse :: "u8 list \<Rightarrow> (NetNewRangeResponsePdu \<times> nat) option outcome" where
  "NetNewRangeResponsePdu_try_parse buffer =
     (let size = NET_NEW_RANGE_RESPONSE_SIZE in
      if length buffer < size then Ret None
      else
        obind (read_be_u8 buffer) (\<lambda>(pdu_type, buffer).
        Ret (Some (\<lparr>nnrr_pdu_type = pdu_type\<rparr>, size))))"

section \<open>\<open>NetLeavingPdu\<close>\<close>

record NetLeavingPdu =
  nl_pdu_type :: u8
  nl_new_address :: u32
  nl_new_port :: u16

definition NetLeavingPdu_new :: "u32 \<Rightarrow> u16 \<Rightarrow> NetLeavingPdu" where
  "NetLeavingPdu_new new_address new_port = \<lparr>nl_pdu_type = NET_LEAVING_ID, nl_new_address = new_address, nl_new_port = new_port\<rparr>"

definition get_new_addr :: "NetLeavingPdu \<Rightarrow> socket_addr" where
  "get_new_addr pdu = V4 (nl_new_address pdu, nl_new_port pdu)"

definition NetLeavingPdu_to_vec :: "NetLeavingPdu \<Rightarrow> u8 list" where
  "NetLeavingPdu_to_vec pdu =
     [nl_pdu_type pdu] @ u32_to_be (nl_new_address pdu) @ u16_to_be (nl_new_port pdu)"

definition NetLeavingPdu_try_parse :: "u8 list \<Rightarrow> (NetLeavingPdu \<times> nat) option outcome" where
  "NetLeavingPdu_try_parse buffer =
     (let size = NET_LEAVING_SIZE in
      if length buffer < size then Ret None
      else
        obind (read_be_u8 buffer) (\<lambda>(pdu_type, buffer).
        obind (read_be_u32 buffer) (\<lambda>(new_address, buffer).
        obind (read_be_u16 buffer) (\<lambda>(new_port, buffer).
        Ret (Some (\<lparr>nl_pdu_type = pdu_type, nl_new_address = new_address, nl_new_port = new_port\<rparr>, size))))))"

section \<open>\<open>StunResponsePdu\<close>\<close>

record StunResponsePdu =
  sr_pdu_type :: u8
  sr_address :: u32

definition StunResponsePdu_new :: "u32 \<Rightarrow> StunResponsePdu" where
  "StunResponsePdu_new address = \<lparr>sr_pdu_type = STUN_RESPONSE_ID, sr_address = address\<rparr>"

definition StunResponsePdu_to_vec :: "StunResponsePdu \<Rightarrow> u8 list" where
  "StunResponsePdu_to_vec pdu =
     [sr_pdu_type pdu] @ u32_to_be (sr_address pdu)"

definition StunResponsePdu_try_parse :: "u8 list \<Rightarrow> (StunResponsePdu \<times> nat) option outcome" where
  "StunResponsePdu_try_parse buffer =
     (let size = STUN_RESPONSE_SIZE in
      if length buffer < size then Ret None
      else
        obind (read_be_u8 buffer) (\<lambda>(pdu_type, buffer).
        obind (read_be_u32 buffer) (\<lambda>(address, buffer).
        Ret (Some (\<lparr>sr_pdu_type = pdu_type, sr_address = address\<rparr>, size)))))"
section \<open>\<open>ValInsertPdu\<close>\<close>

text \<open>
  The length bytes are the UTF-8 lengths of the strings, truncated to a byte; the
  serialiser writes one byte per char.
\<close>

record ValInsertPdu =
  vi_pdu_type :: u8
  vi_ssn :: rstring
  vi_name_length :: u8
  vi_name :: rstring
  vi_email_length :: u8
  vi_email :: rstring

definition ValInsertPdu_new :: "rstring \<Rightarrow> rstring \<Rightarrow> rstring \<Rightarrow> ValInsertPdu" where
  "ValInsertPdu_new ssn name email =
     \<lparr>vi_pdu_type = VAL_INSERT_ID, vi_ssn = ssn, vi_name_length = of_nat (string_len name),
      vi_name = name, vi_email_length = of_nat (string_len email), vi_email = email\<rparr>"

definition ValInsertPdu_to_vec :: "ValInsertPdu \<Rightarrow> u8 list" where
  "ValInsertPdu_to_vec pdu =
     [vi_pdu_type pdu] @ map char_to_u8 (take SSN_LENGTH (vi_ssn pdu)) @
     [vi_name_length pdu] @ map char_to_u8 (vi_name pdu) @
     [vi_email_length pdu] @ map char_to_u8 (vi_email pdu)"

definition ValInsertPdu_try_parse :: "u8 list \<Rightarrow> (ValInsertPdu \<times> nat) option outcome" where
  "ValInsertPdu_try_parse buffer =
     (if length buffer < 1 + SSN_LENGTH + 1 then Ret None
      else
        obind (read_be_u8 buffer) (\<lambda>(pdu_type, buffer).
        obind (split_at SSN_LENGTH buffer) (\<lambda>(ssn, buffer).
        let ssn = map u8_to_char ssn in
        obind (read_be_u8 buffer) (\<lambda>(name_length, buffer).
        if length buffer < unat name_length then Ret None
        else
          obind (split_at (unat name_length) buffer) (\<lambda>(name, buffer).
          let name = map u8_to_char name in
          obind (read_be_u8 buffer) (\<lambda>(email_length, buffer).
          if length buffer < unat email_length then Ret None
          else
            let email = map u8_to_char (take (unat email_length) buffer);
                pdu = \<lparr>vi_pdu_type = pdu_type, vi_ssn = ssn, vi_name_length = name_length,
                       vi_name = name, vi_email_length = email_length, vi_email = email\<rparr>;
                size = 1 + SSN_LENGTH + 1 + unat name_length + 1 + unat email_length
            in Ret (Some (pdu, size))))))))"

section \<open>\<open>ValLookupPdu\<close>\<close>

record ValLookupPdu =
  vl_pdu_type :: u8
  vl_ssn :: rstring
  vl_sender_address :: u32
  vl_sender_port :: u16

definition ValLookupPdu_new :: "rstring \<Rightarrow> u32 \<Rightarrow> u16 \<Rightarrow> ValLookupPdu" where
  "ValLookupPdu_new ssn sender_address sender_port =
     \<lparr>vl_pdu_type = VAL_LOOKUP_ID, vl_ssn = ssn, vl_sender_address = sender_address,
      vl_sender_port = sender_port\<rparr>"

definition ValLookupPdu_to_vec :: "ValLookupPdu \<Rightarrow> u8 list" where
  "ValLookupPdu_to_vec pdu =
     [vl_pdu_type pdu] @ map char_to_u8 (take SSN_LENGTH (vl_ssn pdu)) @
     u32_to_be (vl_sender_address pdu) @ u16_to_be (vl_sender_port pdu)"

definition ValLookupPdu_try_parse :: "u8 list \<Rightarrow> (ValLookupPdu \<times> nat) option outcome" where
  "ValLookupPdu_try_parse buffer =
     (let size = VAL_LOOKUP_SIZE in
      if length buffer < size then Ret None
      else
        obind (read_be_u8 buffer) (\<lambda>(pdu_type, buffer).
        obind (split_at SSN_LENGTH buffer) (\<lambda>(ssn, buffer).
        obind (read_be_u32 buffer) (\<lambda>(sender_address, buffer).
        obind (read_be_u16 buffer) (\<lambda>(sender_port, buffer).
        Ret (Some (\<lparr>vl_pdu_type = pdu_type, vl_ssn = map u8_to_char ssn,
                    vl_sender_address = sender_address, vl_sender_port = sender_port\<rparr>, size)))))))"

section \<open>\<open>ValLookupResponsePdu\<close>\<close>

record ValLookupResponsePdu =
  vlr_pdu_type :: u8
  vlr_ssn :: rstring
  vlr_name_length :: u8
  vlr_name :: rstring
  vlr_email_length :: u8
  vlr_email :: rstring

definition ValLookupResponsePdu_new :: "rstring \<Rightarrow> rstring \<Rightarrow> rstring \<Rightarrow> ValLookupResponsePdu" where
  "ValLookupResponsePdu_new ssn name email =
     \<lparr>vlr_pdu_type = VAL_LOOKUP_RESPONSE_ID, vlr_ssn = ssn,
      vlr_name_length = of_nat (string_len name), vlr_name = name,
      vlr_email_length = of_nat (string_len email), vlr_email = email\<rparr>"

definition ValLookupResponsePdu_to_vec :: "ValLookupResponsePdu \<Rightarrow> u8 list" where
  "ValLookupResponsePdu_to_vec pdu =
     [vlr_pdu_type pdu] @ map char_to_u8 (take SSN_LENGTH (vlr_ssn pdu)) @
     [vlr_name_length pdu] @ map char_to_u8 (vlr_name pdu) @
     [vlr_email_length pdu] @ map char_to_u8 (vlr_email pdu)"

text \<open>The parser reuses the one of \<open>ValInsertPdu\<close> and fills in \<open>VAL_LOOKUP_ID\<close> as the type.\<close>

definition ValLookupResponsePdu_try_parse ::
    "u8 list \<Rightarrow> (ValLookupResponsePdu \<times> nat) option outcome" where
  "ValLookupResponsePdu_try_parse buffer =
     obind (ValInsertPdu_try_parse buffer) (\<lambda>r.
       case r of
         None \<Rightarrow> Ret None
       | Some (pdu, s) \<Rightarrow>
           Ret (Some (\<lparr>vlr_pdu_type = VAL_LOOKUP_ID, vlr_ssn = vi_ssn pdu,
                       vlr_name_length = vi_name_length pdu, vlr_name = vi_name pdu,
                       vlr_email_length = vi_email_length pdu, vlr_email = vi_email pdu\<rparr>, s)))"

section \<open>\<open>ValRemovePdu\<close>\<close>

record ValRemovePdu =
  vr_pdu_type :: u8
  vr_ssn :: rstring

definition ValRemovePdu_new :: "rstring \<Rightarrow> ValRemovePdu" where
  "ValRemovePdu_new ssn = \<lparr>vr_pdu_type = VAL_REMOVE_ID, vr_ssn = ssn\<rparr>"

definition ValRemovePdu_to_vec :: "ValRemovePdu \<Rightarrow> u8 list" where
  "ValRemovePdu_to_vec pdu =
     [vr_pdu_type pdu] @ map char_to_u8 (take SSN_LENGTH (vr_ssn pdu))"

definition ValRemovePdu_try_parse :: "u8 list \<Rightarrow> (ValRemovePdu \<times> nat) option outcome" where
  "ValRemovePdu_try_parse buffer =
     (let size = VAL_REMOVE_SIZE in
      if length buffer < size then Ret None
      else
        obind (read_be_u8 buffer) (\<lambda>(pdu_type, buffer).
        obind (slice_to SSN_LENGTH buffer) (\<lambda>ssn.
        Ret (Some (\<lparr>vr_pdu_type = pdu_type, vr_ssn = map u8_to_char ssn\<rparr>, size)))))"

section \<open>The enum \<open>PDU\<close>\<close>

datatype PDU =
    NetAlive NetAlivePdu
  | NetGetNode NetGetNodePdu
  | NetGetNodeResponse NetGetNodeResponsePdu
  | NetJoin NetJoinPdu
  | NetJoinResponse NetJoinResponsePdu
  | NetCloseConnection NetCloseConnectionPdu
  | NetNewRange NetNewRangePdu
  | NetNewRangeResponse NetNewRangeResponsePdu
  | NetLeaving NetLeavingPdu
  | ValInsert ValInsertPdu
  | ValRemove ValRemovePdu
  | ValLookup ValLookupPdu
  | ValLookupResponse ValLookupResponsePdu
  | StunLookup StunLookupPdu
  | StunResponse StunResponsePdu

text \<open>The name \<open>Debug\<close> prints for a PDU (in the messages of two panics and one log line).\<close>

fun PDU_fmt :: "PDU \<Rightarrow> string" where
  "PDU_fmt (NetAlive _) = ''NetAlive''"
| "PDU_fmt (NetGetNode _) = ''NetGetNode''"
| "PDU_fmt (NetGetNodeResponse _) = ''NetGetNodeResponse''"
| "PDU_fmt (NetJoin _) = ''NetJoin''"
| "PDU_fmt (NetJoinResponse _) = ''NetJoinResponse''"
| "PDU_fmt (NetCloseConnection _) = ''NetCloseConnection''"
| "PDU_fmt (NetNewRange _) = ''NetNewRange''"
| "PDU_fmt (NetNewRangeResponse _) = ''NetNewRangeResponse''"
| "PDU_fmt (NetLeaving _) = ''NetLeaving''"
| "PDU_fmt (ValInsert _) = ''ValInsert''"
| "PDU_fmt (ValRemove _) = ''ValRemove''"
| "PDU_fmt (ValLookup _) = ''ValLookup''"
| "PDU_fmt (ValLookupResponse _) = ''ValLookupResponse''"
| "PDU_fmt (StunLookup _) = ''StunLookup''"
| "PDU_fmt (StunResponse _) = ''StunResponse''"

fun to_bytes :: "PDU \<Rightarrow> u8 list" where
  "to_bytes (NetAlive p) = NetAlivePdu_to_vec p"
| "to_bytes (NetGetNode p) = NetGetNodePdu_to_vec p"
| "to_bytes (NetGetNodeResponse p) = NetGetNodeResponsePdu_to_vec p"
| "to_bytes (NetJoin p) = NetJoinPdu_to_vec p"
| "to_bytes (NetJoinResponse p) = NetJoinResponsePdu_to_vec p"
| "to_bytes (NetCloseConnection p) = NetCloseConnectionPdu_to_vec p"
| "to_bytes (NetNewRange p) = NetNewRangePdu_to_vec p"
| "to_bytes (NetNewRangeResponse p) = NetNewRangeResponsePdu_to_vec p"
| "to_bytes (NetLeaving p) = NetLeavingPdu_to_vec p"
| "to_bytes (ValInsert p) = ValInsertPdu_to_vec p"
| "to_bytes (ValRemove p) = ValRemovePdu_to_vec p"
| "to_bytes (ValLookup p) = ValLookupPdu_to_vec p"
| "to_bytes (ValLookupResponse p) = ValLookupResponsePdu_to_vec p"
| "to_bytes (StunLookup p) = StunLookupPdu_to_vec p"
| "to_bytes (StunResponse p) = StunResponsePdu_to_vec p"

end
