(* ===== verification/Frame_Interface.thy ===== *)
theory Frame_Interface
  imports Dht_Prelude
begin

text \<open>
  The contract between the PDU parsers and the socket wrappers, as locales.  A
  \<open>frame_decoder\<close> takes one frame off the front of a byte sequence, and more bytes behind a
  frame never change what it reads; a \<open>frame_source\<close> has an encoder beside it; in a
  \<open>frame_codec\<close> decoding and encoding are inverse to each other; a \<open>fixed_codec\<close> has
  frames of one size and never panics.  The lemmas in the locales are what the wrappers
  rest on: the frames cut from a stream do not depend on how the stream is cut into
  chunks, and a concatenation of encoded frames decodes to exactly those frames.
\<close>

section \<open>Frames of a byte sequence\<close>

text \<open>
  \<open>frames dec b ps r\<close>: repeated decoding cuts \<open>b\<close> into the frames \<open>ps\<close> and stops
  without a panic at the incomplete rest \<open>r\<close>.
\<close>

inductive frames :: "(u8 list \<Rightarrow> ('a \<times> nat) option outcome) \<Rightarrow> u8 list \<Rightarrow> 'a list \<Rightarrow> u8 list \<Rightarrow> bool"
  for dec where
  frames_done: "dec b = Ret None \<Longrightarrow> frames dec b [] b"
| frames_more: "dec b = Ret (Some (p, n)) \<Longrightarrow> frames dec (drop n b) ps r \<Longrightarrow> frames dec b (p # ps) r"

inductive_cases frames_NilE: "frames dec b [] r"
inductive_cases frames_ConsE: "frames dec b (p # ps) r"

lemma frames_rest: "frames dec b ps r \<Longrightarrow> dec r = Ret None"
  by (induction rule: frames.induct) auto

lemma frames_unique: "frames dec b ps r \<Longrightarrow> frames dec b qs s \<Longrightarrow> ps = qs \<and> r = s"
proof (induction arbitrary: qs s rule: frames.induct)
  case (frames_done b)
  from frames_done.prems show ?case
    by (rule frames.cases) (use frames_done.hyps in auto)
next
  case (frames_more b p n ps r)
  from frames_more.prems show ?case
  proof (rule frames.cases)
    fix b' assume "b = b'" "dec b' = Ret None"
    then show ?thesis using frames_more.hyps(1) by simp
  next
    fix b' p' n' ps' r'
    assume *: "b = b'" "qs = p' # ps'" "s = r'"
      "dec b' = Ret (Some (p', n'))" "frames dec (drop n' b') ps' r'"
    then have "p' = p" "n' = n" using frames_more.hyps(1) by simp_all
    then show ?thesis using frames_more.IH [of ps' r'] * by simp
  qed
qed

section \<open>Decoders\<close>

locale frame_decoder =
  fixes dec :: "u8 list \<Rightarrow> ('a \<times> nat) option outcome"
  assumes dec_used: "dec b = Ret (Some (p, n)) \<Longrightarrow> 0 < n \<and> n \<le> length b"
    and dec_extend: "dec b = Ret (Some (p, n)) \<Longrightarrow> dec (b @ c) = Ret (Some (p, n))"
begin

lemma dec_drop_less: "dec b = Ret (Some (p, n)) \<Longrightarrow> length (drop n b) < length b"
  using dec_used by fastforce

text \<open>Bytes that arrive later are cut as if they had arrived at once.\<close>

lemma frames_append:
  assumes "frames dec b ps r" "frames dec (r @ c) qs s"
  shows "frames dec (b @ c) (ps @ qs) s"
  using assms
proof (induction rule: frames.induct)
  case (frames_done b)
  then show ?case by simp
next
  case (frames_more b p n ps r)
  then have "frames dec (drop n b @ c) (ps @ qs) s" by blast
  moreover have "drop n (b @ c) = drop n b @ c"
    using dec_used [OF frames_more.hyps(1)] by simp
  ultimately show ?case
    using dec_extend [OF frames_more.hyps(1)] by (auto intro: frames.frames_more)
qed

text \<open>Conversely, the frames of a whole start with the frames of each part it has.\<close>

lemma frames_split:
  assumes "frames dec b ps r" "frames dec (b @ c) us s"
  shows "\<exists>qs. us = ps @ qs \<and> frames dec (r @ c) qs s"
  using assms
proof (induction arbitrary: us rule: frames.induct)
  case (frames_done b)
  then show ?case by simp
next
  case (frames_more b p n ps r)
  have drop: "drop n (b @ c) = drop n b @ c"
    using dec_used [OF frames_more.hyps(1)] by simp
  from frames_more.prems obtain us' where us: "us = p # us'" "frames dec (drop n b @ c) us' s"
    using dec_extend [OF frames_more.hyps(1)] drop by (cases rule: frames.cases) auto
  from frames_more.IH [OF us(2)] us(1) show ?case by auto
qed

end

section \<open>Sources: a decoder with an encoder\<close>

text \<open>
  \<open>wf\<close> holds of the values the encoder can carry; decoding may change a value in transit,
  which \<open>norm\<close> records.
\<close>

locale frame_source = frame_decoder dec
  for dec :: "u8 list \<Rightarrow> ('a \<times> nat) option outcome" +
  fixes enc :: "'a \<Rightarrow> u8 list" and wf :: "'a \<Rightarrow> bool" and norm :: "'a \<Rightarrow> 'a"
  assumes dec_enc: "wf p \<Longrightarrow> dec (enc p) = Ret (Some (norm p, length (enc p)))"
begin

lemma enc_nonempty: "wf p \<Longrightarrow> enc p \<noteq> []"
  using dec_used [OF dec_enc] by fastforce

lemma dec_enc_append: "wf p \<Longrightarrow> dec (enc p @ c) = Ret (Some (norm p, length (enc p)))"
  by (intro dec_extend dec_enc)

lemma frames_concat:
  assumes "list_all wf ps" "frames dec c qs r"
  shows "frames dec (concat (map enc ps) @ c) (map norm ps @ qs) r"
  using assms(1)
proof (induction ps)
  case Nil
  then show ?case using assms(2) by simp
next
  case (Cons p ps)
  then have "dec (enc p @ concat (map enc ps) @ c) = Ret (Some (norm p, length (enc p)))"
    by (intro dec_enc_append) simp
  moreover have "frames dec (concat (map enc ps) @ c) (map norm ps @ qs) r"
    using Cons by simp
  ultimately show ?case by (auto intro: frames_more)
qed

end

section \<open>Codecs\<close>

locale frame_codec = frame_source dec enc wf "\<lambda>p. p"
  for dec :: "u8 list \<Rightarrow> ('a \<times> nat) option outcome" and enc wf +
  assumes enc_dec: "dec b = Ret (Some (p, n)) \<Longrightarrow> wf p \<and> enc p = take n b"
begin

text \<open>The encoding is prefix-free, so it is injective even with other bytes behind it.\<close>

lemma enc_prefix_free:
  assumes "wf p" "wf q" "enc p @ b = enc q @ c"
  shows "p = q \<and> b = c"
proof -
  have "dec (enc p @ b) = Ret (Some (p, length (enc p)))"
    and "dec (enc q @ c) = Ret (Some (q, length (enc q)))"
    using assms(1,2) by (simp_all add: dec_enc_append)
  then have "p = q \<and> length (enc p) = length (enc q)"
    using assms(3) by simp
  then show ?thesis using assms(3) by simp
qed

lemma dec_used_eq: "dec b = Ret (Some (p, n)) \<Longrightarrow> n = length (enc p)"
  using enc_dec [of b p n] dec_used [of b p n] by simp

text \<open>Nothing is lost: the bytes cut off are the encodings of the frames.\<close>

lemma frames_bytes: "frames dec b ps r \<Longrightarrow> list_all wf ps \<and> b = concat (map enc ps) @ r"
proof (induction rule: frames.induct)
  case (frames_done b)
  then show ?case by simp
next
  case (frames_more b p n ps r)
  have "b = take n b @ drop n b" by simp
  also have "\<dots> = enc p @ concat (map enc ps) @ r"
    using frames_more.IH enc_dec [OF frames_more.hyps(1)] by metis
  finally show ?case
    using frames_more.IH enc_dec [OF frames_more.hyps(1)] by simp
qed

end

section \<open>Codecs of one size\<close>

locale fixed_codec = frame_codec dec enc wf
  for dec :: "u8 list \<Rightarrow> ('a \<times> nat) option outcome" and enc wf +
  fixes sz :: nat
  assumes dec_short: "length b < sz \<Longrightarrow> dec b = Ret None"
    and dec_long: "sz \<le> length b \<Longrightarrow> \<exists>p. dec b = Ret (Some (p, sz))"
begin

text \<open>It never panics, and it waits exactly while bytes are missing.\<close>

lemma dec_total: "dec b \<noteq> Panic e \<and> dec b \<noteq> Blocked"
  using dec_short [of b] dec_long [of b] by (cases "length b < sz") auto

lemma dec_None_iff: "dec b = Ret None \<longleftrightarrow> length b < sz"
  using dec_short [of b] dec_long [of b] by (cases "length b < sz") auto

lemma enc_length: "wf p \<Longrightarrow> length (enc p) = sz"
  using dec_enc [of p] dec_short [of "enc p"] dec_long [of "enc p"]
  by (cases "length (enc p) < sz") auto

end

end
