(* ===== verification/Pdu_Codec.thy ===== *)
theory Pdu_Codec
  imports Pdu Frame_Interface
begin

text \<open>
  Every struct of \<^verbatim>\<open>pdu.rs\<close> against the codec contract.  The readers are characterised by
  what they cut off; a parser then succeeds exactly when the bytes start with the
  serialisation of what it returns, which gives the contract of \<open>frame_codec\<close>.
\<close>

section \<open>What the readers cut off\<close>

lemma split_at_iff [outcome_split]: "split_at n b = Ret (x, c) \<longleftrightarrow> b = x @ c \<and> length x = n"
  by (auto simp: split_at_def)

lemma slice_to_iff [outcome_split]: "slice_to n b = Ret x \<longleftrightarrow> length x = n \<and> (\<exists>c. b = x @ c)"
  by (auto simp: slice_to_def) (metis append_take_drop_id)

lemma read_be_u8_iff [outcome_split]: "read_be_u8 b = Ret (x, c) \<longleftrightarrow> b = x # c"
  by (auto simp: read_be_u8_def outcome_split length_Suc_conv)

lemma read_be_u16_iff [outcome_split]: "read_be_u16 b = Ret (x, c) \<longleftrightarrow> b = u16_to_be x @ c"
  by (auto simp: read_be_u16_def outcome_split)

lemma read_be_u32_iff [outcome_split]: "read_be_u32 b = Ret (x, c) \<longleftrightarrow> b = u32_to_be x @ c"
  by (auto simp: read_be_u32_def outcome_split)

text \<open>The same facts as rewriting rules, for running a parser on its own output.\<close>

lemma read_be_u8_Cons [simp]: "read_be_u8 (x # c) = Ret (x, c)"
  by (simp add: read_be_u8_iff)

lemma read_be_u16_append [simp]: "read_be_u16 (u16_to_be x @ c) = Ret (x, c)"
  by (simp add: read_be_u16_iff)

lemma read_be_u32_append [simp]: "read_be_u32 (u32_to_be x @ c) = Ret (x, c)"
  by (simp add: read_be_u32_iff)

lemma split_at_append [simp]: "length x = n \<Longrightarrow> split_at n (x @ c) = Ret (x, c)"
  by (simp add: split_at_iff)

lemma slice_to_append [simp]: "length x = n \<Longrightarrow> slice_to n (x @ c) = Ret x"
  by (simp add: slice_to_def)

lemmas reader_defs = read_be_u8_def read_be_u16_def read_be_u32_def split_at_def slice_to_def

section \<open>A criterion for codecs\<close>

lemma frame_codecI:
  assumes iff: "\<And>b p n. dec b = Ret (Some (p, n)) \<longleftrightarrow>
      ok p \<and> n = length (enc p) \<and> (\<exists>c. b = enc p @ c)"
    and ne: "\<And>p. ok p \<Longrightarrow> enc p \<noteq> []"
  shows "frame_codec dec enc ok"
proof unfold_locales
  fix b c p n
  assume "dec b = Ret (Some (p, n))"
  then obtain d where d: "ok p" "n = length (enc p)" "b = enc p @ d"
    by (auto simp: iff)
  then show "0 < n \<and> n \<le> length b" "dec (b @ c) = Ret (Some (p, n))" "ok p \<and> enc p = take n b"
    using ne [of p] by (auto simp: iff)
next
  fix p assume "ok p"
  then show "dec (enc p) = Ret (Some (p, length (enc p)))"
    by (simp add: iff)
qed

lemma fixed_codecI:
  assumes "\<And>b p n. dec b = Ret (Some (p, n)) \<longleftrightarrow> n = length (enc p) \<and> (\<exists>c. b = enc p @ c)"
    and "\<And>p. enc p \<noteq> []"
    and "\<And>b. length b < sz \<Longrightarrow> dec b = Ret None"
    and "\<And>b. sz \<le> length b \<Longrightarrow> \<exists>p. dec b = Ret (Some (p, sz))"
  shows "fixed_codec dec enc (\<lambda>_. True) sz"
proof (rule fixed_codec.intro)
  show "frame_codec dec enc (\<lambda>_. True)"
    by (rule frame_codecI) (use assms(1,2) in auto)
  show "fixed_codec_axioms dec sz"
    by (rule fixed_codec_axioms.intro) (use assms(3,4) in auto)
qed

section \<open>The structs of fixed size\<close>

lemma NetGetNodeResponsePdu_parse_iff:
  "NetGetNodeResponsePdu_try_parse b = Ret (Some (p, n)) \<longleftrightarrow>
     n = length (NetGetNodeResponsePdu_to_vec p) \<and> (\<exists>c. b = NetGetNodeResponsePdu_to_vec p @ c)"
  by (cases p) (auto simp: NetGetNodeResponsePdu_try_parse_def NetGetNodeResponsePdu_to_vec_def
    pdu_consts Let_def outcome_split split: if_splits)

interpretation ngnr: fixed_codec NetGetNodeResponsePdu_try_parse NetGetNodeResponsePdu_to_vec "\<lambda>_. True" NET_GET_NODE_RESPONSE_SIZE
  by (rule fixed_codecI, rule NetGetNodeResponsePdu_parse_iff)
    (auto simp: NetGetNodeResponsePdu_to_vec_def NetGetNodeResponsePdu_try_parse_def
      pdu_consts reader_defs Let_def)

lemma NetAlivePdu_parse_iff:
  "NetAlivePdu_try_parse b = Ret (Some (p, n)) \<longleftrightarrow>
     n = length (NetAlivePdu_to_vec p) \<and> (\<exists>c. b = NetAlivePdu_to_vec p @ c)"
  by (cases p) (auto simp: NetAlivePdu_try_parse_def NetAlivePdu_to_vec_def
    pdu_consts Let_def outcome_split split: if_splits)

interpretation na: fixed_codec NetAlivePdu_try_parse NetAlivePdu_to_vec "\<lambda>_. True" NET_ALIVE_SIZE
  by (rule fixed_codecI, rule NetAlivePdu_parse_iff)
    (auto simp: NetAlivePdu_to_vec_def NetAlivePdu_try_parse_def
      pdu_consts reader_defs Let_def)

lemma NetGetNodePdu_parse_iff:
  "NetGetNodePdu_try_parse b = Ret (Some (p, n)) \<longleftrightarrow>
     n = length (NetGetNodePdu_to_vec p) \<and> (\<exists>c. b = NetGetNodePdu_to_vec p @ c)"
  by (cases p) (auto simp: NetGetNodePdu_try_parse_def NetGetNodePdu_to_vec_def
    pdu_consts Let_def outcome_split split: if_splits)

interpretation ngn: fixed_codec NetGetNodePdu_try_parse NetGetNodePdu_to_vec "\<lambda>_. True" NET_GET_NODE_SIZE
  by (rule fixed_codecI, rule NetGetNodePdu_parse_iff)
    (auto simp: NetGetNodePdu_to_vec_def NetGetNodePdu_try_parse_def
      pdu_consts reader_defs Let_def)

lemma NetCloseConnectionPdu_parse_iff:
  "NetCloseConnectionPdu_try_parse b = Ret (Some (p, n)) \<longleftrightarrow>
     n = length (NetCloseConnectionPdu_to_vec p) \<and> (\<exists>c. b = NetCloseConnectionPdu_to_vec p @ c)"
  by (cases p) (auto simp: NetCloseConnectionPdu_try_parse_def NetCloseConnectionPdu_to_vec_def
    pdu_consts Let_def outcome_split split: if_splits)

interpretation ncc: fixed_codec NetCloseConnectionPdu_try_parse NetCloseConnectionPdu_to_vec "\<lambda>_. True" NET_CLOSE_CONNECTION_SIZE
  by (rule fixed_codecI, rule NetCloseConnectionPdu_parse_iff)
    (auto simp: NetCloseConnectionPdu_to_vec_def NetCloseConnectionPdu_try_parse_def
      pdu_consts reader_defs Let_def)

lemma NetJoinPdu_parse_iff:
  "NetJoinPdu_try_parse b = Ret (Some (p, n)) \<longleftrightarrow>
     n = length (NetJoinPdu_to_vec p) \<and> (\<exists>c. b = NetJoinPdu_to_vec p @ c)"
  by (cases p) (auto simp: NetJoinPdu_try_parse_def NetJoinPdu_to_vec_def
    pdu_consts Let_def outcome_split split: if_splits)

interpretation nj: fixed_codec NetJoinPdu_try_parse NetJoinPdu_to_vec "\<lambda>_. True" NET_JOIN_SIZE
  by (rule fixed_codecI, rule NetJoinPdu_parse_iff)
    (auto simp: NetJoinPdu_to_vec_def NetJoinPdu_try_parse_def
      pdu_consts reader_defs Let_def)

lemma NetJoinResponsePdu_parse_iff:
  "NetJoinResponsePdu_try_parse b = Ret (Some (p, n)) \<longleftrightarrow>
     n = length (NetJoinResponsePdu_to_vec p) \<and> (\<exists>c. b = NetJoinResponsePdu_to_vec p @ c)"
  by (cases p) (auto simp: NetJoinResponsePdu_try_parse_def NetJoinResponsePdu_to_vec_def
    pdu_consts Let_def outcome_split split: if_splits)

interpretation njr: fixed_codec NetJoinResponsePdu_try_parse NetJoinResponsePdu_to_vec "\<lambda>_. True" NET_JOIN_RESPONSE_SIZE
  by (rule fixed_codecI, rule NetJoinResponsePdu_parse_iff)
    (auto simp: NetJoinResponsePdu_to_vec_def NetJoinResponsePdu_try_parse_def
      pdu_consts reader_defs Let_def)

lemma StunLookupPdu_parse_iff:
  "StunLookupPdu_try_parse b = Ret (Some (p, n)) \<longleftrightarrow>
     n = length (StunLookupPdu_to_vec p) \<and> (\<exists>c. b = StunLookupPdu_to_vec p @ c)"
  by (cases p) (auto simp: StunLookupPdu_try_parse_def StunLookupPdu_to_vec_def
    pdu_consts Let_def outcome_split split: if_splits)

interpretation sl: fixed_codec StunLookupPdu_try_parse StunLookupPdu_to_vec "\<lambda>_. True" STUN_LOOKUP_SIZE
  by (rule fixed_codecI, rule StunLookupPdu_parse_iff)
    (auto simp: StunLookupPdu_to_vec_def StunLookupPdu_try_parse_def
      pdu_consts reader_defs Let_def)

lemma NetNewRangePdu_parse_iff:
  "NetNewRangePdu_try_parse b = Ret (Some (p, n)) \<longleftrightarrow>
     n = length (NetNewRangePdu_to_vec p) \<and> (\<exists>c. b = NetNewRangePdu_to_vec p @ c)"
  by (cases p) (auto simp: NetNewRangePdu_try_parse_def NetNewRangePdu_to_vec_def
    pdu_consts Let_def outcome_split split: if_splits)

interpretation nnr: fixed_codec NetNewRangePdu_try_parse NetNewRangePdu_to_vec "\<lambda>_. True" NET_NEW_RANGE_SIZE
  by (rule fixed_codecI, rule NetNewRangePdu_parse_iff)
    (auto simp: NetNewRangePdu_to_vec_def NetNewRangePdu_try_parse_def
      pdu_consts reader_defs Let_def)

lemma NetNewRangeResponsePdu_parse_iff:
  "NetNewRangeResponsePdu_try_parse b = Ret (Some (p, n)) \<longleftrightarrow>
     n = length (NetNewRangeResponsePdu_to_vec p) \<and> (\<exists>c. b = NetNewRangeResponsePdu_to_vec p @ c)"
  by (cases p) (auto simp: NetNewRangeResponsePdu_try_parse_def NetNewRangeResponsePdu_to_vec_def
    pdu_consts Let_def outcome_split split: if_splits)

interpretation nnrr: fixed_codec NetNewRangeResponsePdu_try_parse NetNewRangeResponsePdu_to_vec "\<lambda>_. True" NET_NEW_RANGE_RESPONSE_SIZE
  by (rule fixed_codecI, rule NetNewRangeResponsePdu_parse_iff)
    (auto simp: NetNewRangeResponsePdu_to_vec_def NetNewRangeResponsePdu_try_parse_def
      pdu_consts reader_defs Let_def)

lemma NetLeavingPdu_parse_iff:
  "NetLeavingPdu_try_parse b = Ret (Some (p, n)) \<longleftrightarrow>
     n = length (NetLeavingPdu_to_vec p) \<and> (\<exists>c. b = NetLeavingPdu_to_vec p @ c)"
  by (cases p) (auto simp: NetLeavingPdu_try_parse_def NetLeavingPdu_to_vec_def
    pdu_consts Let_def outcome_split split: if_splits)

interpretation nl: fixed_codec NetLeavingPdu_try_parse NetLeavingPdu_to_vec "\<lambda>_. True" NET_LEAVING_SIZE
  by (rule fixed_codecI, rule NetLeavingPdu_parse_iff)
    (auto simp: NetLeavingPdu_to_vec_def NetLeavingPdu_try_parse_def
      pdu_consts reader_defs Let_def)

lemma StunResponsePdu_parse_iff:
  "StunResponsePdu_try_parse b = Ret (Some (p, n)) \<longleftrightarrow>
     n = length (StunResponsePdu_to_vec p) \<and> (\<exists>c. b = StunResponsePdu_to_vec p @ c)"
  by (cases p) (auto simp: StunResponsePdu_try_parse_def StunResponsePdu_to_vec_def
    pdu_consts Let_def outcome_split split: if_splits)

interpretation sr: fixed_codec StunResponsePdu_try_parse StunResponsePdu_to_vec "\<lambda>_. True" STUN_RESPONSE_SIZE
  by (rule fixed_codecI, rule StunResponsePdu_parse_iff)
    (auto simp: StunResponsePdu_to_vec_def StunResponsePdu_try_parse_def
      pdu_consts reader_defs Let_def)

section \<open>The structs that carry strings\<close>

text \<open>
  A serialised social security number is cut to twelve bytes and every char to one byte, so
  these structs are carried unchanged when the number has twelve chars, all chars fit in a
  byte, and the length bytes count the chars.
\<close>

definition ValInsertPdu_ok :: "ValInsertPdu \<Rightarrow> bool" where
  "ValInsertPdu_ok p \<longleftrightarrow> length (vi_ssn p) = SSN_LENGTH \<and> latin1 (vi_ssn p) \<and>
     latin1 (vi_name p) \<and> unat (vi_name_length p) = length (vi_name p) \<and>
     latin1 (vi_email p) \<and> unat (vi_email_length p) = length (vi_email p)"

definition ValLookupPdu_ok :: "ValLookupPdu \<Rightarrow> bool" where
  "ValLookupPdu_ok p \<longleftrightarrow> length (vl_ssn p) = SSN_LENGTH \<and> latin1 (vl_ssn p)"

definition ValRemovePdu_ok :: "ValRemovePdu \<Rightarrow> bool" where
  "ValRemovePdu_ok p \<longleftrightarrow> length (vr_ssn p) = SSN_LENGTH \<and> latin1 (vr_ssn p)"

lemma latin1_bytes: "latin1 s \<Longrightarrow> \<exists>bs. s = map u8_to_char bs"
  by (rule exI [of _ "map char_to_u8 s"]) simp

lemma take_prefix_ex [simp]: "\<exists>c. b = take n b @ c"
  by (metis append_take_drop_id)

lemma ValLookupPdu_parse_to_vec:
  "ValLookupPdu_ok p \<Longrightarrow>
     ValLookupPdu_try_parse (ValLookupPdu_to_vec p @ c) = Ret (Some (p, length (ValLookupPdu_to_vec p)))"
  by (cases p) (auto simp: ValLookupPdu_try_parse_def ValLookupPdu_to_vec_def ValLookupPdu_ok_def
    pdu_consts Let_def dest!: latin1_bytes)

lemma ValLookupPdu_parse_iff:
  "ValLookupPdu_try_parse b = Ret (Some (p, n)) \<longleftrightarrow>
     ValLookupPdu_ok p \<and> n = length (ValLookupPdu_to_vec p) \<and> (\<exists>c. b = ValLookupPdu_to_vec p @ c)"
proof
  assume "ValLookupPdu_try_parse b = Ret (Some (p, n))"
  then show "ValLookupPdu_ok p \<and> n = length (ValLookupPdu_to_vec p) \<and> (\<exists>c. b = ValLookupPdu_to_vec p @ c)"
    by (cases p) (auto simp: ValLookupPdu_try_parse_def ValLookupPdu_to_vec_def ValLookupPdu_ok_def
      pdu_consts Let_def outcome_split split: if_splits)
qed (use ValLookupPdu_parse_to_vec in auto)

interpretation vl: frame_codec ValLookupPdu_try_parse ValLookupPdu_to_vec ValLookupPdu_ok
  by (rule frame_codecI, rule ValLookupPdu_parse_iff) (simp add: ValLookupPdu_to_vec_def)

lemma ValRemovePdu_parse_to_vec:
  "ValRemovePdu_ok p \<Longrightarrow>
     ValRemovePdu_try_parse (ValRemovePdu_to_vec p @ c) = Ret (Some (p, length (ValRemovePdu_to_vec p)))"
  by (cases p) (auto simp: ValRemovePdu_try_parse_def ValRemovePdu_to_vec_def ValRemovePdu_ok_def
    pdu_consts Let_def dest!: latin1_bytes)

lemma ValRemovePdu_parse_iff:
  "ValRemovePdu_try_parse b = Ret (Some (p, n)) \<longleftrightarrow>
     ValRemovePdu_ok p \<and> n = length (ValRemovePdu_to_vec p) \<and> (\<exists>c. b = ValRemovePdu_to_vec p @ c)"
proof
  assume "ValRemovePdu_try_parse b = Ret (Some (p, n))"
  then show "ValRemovePdu_ok p \<and> n = length (ValRemovePdu_to_vec p) \<and> (\<exists>c. b = ValRemovePdu_to_vec p @ c)"
    by (cases p) (auto simp: ValRemovePdu_try_parse_def ValRemovePdu_to_vec_def ValRemovePdu_ok_def
      pdu_consts Let_def outcome_split split: if_splits)
qed (use ValRemovePdu_parse_to_vec in auto)

interpretation vr: frame_codec ValRemovePdu_try_parse ValRemovePdu_to_vec ValRemovePdu_ok
  by (rule frame_codecI, rule ValRemovePdu_parse_iff) (simp add: ValRemovePdu_to_vec_def)

lemma ValInsertPdu_parse_to_vec:
  "ValInsertPdu_ok p \<Longrightarrow>
     ValInsertPdu_try_parse (ValInsertPdu_to_vec p @ c) = Ret (Some (p, length (ValInsertPdu_to_vec p)))"
  by (cases p) (auto simp: ValInsertPdu_try_parse_def ValInsertPdu_to_vec_def ValInsertPdu_ok_def
    pdu_consts Let_def dest!: latin1_bytes)

lemma ValInsertPdu_parse_iff:
  "ValInsertPdu_try_parse b = Ret (Some (p, n)) \<longleftrightarrow>
     ValInsertPdu_ok p \<and> n = length (ValInsertPdu_to_vec p) \<and> (\<exists>c. b = ValInsertPdu_to_vec p @ c)"
proof
  assume "ValInsertPdu_try_parse b = Ret (Some (p, n))"
  then show "ValInsertPdu_ok p \<and> n = length (ValInsertPdu_to_vec p) \<and> (\<exists>c. b = ValInsertPdu_to_vec p @ c)"
    by (cases p) (auto simp: ValInsertPdu_try_parse_def ValInsertPdu_to_vec_def ValInsertPdu_ok_def
      pdu_consts Let_def outcome_split split: if_splits)
qed (use ValInsertPdu_parse_to_vec in auto)

interpretation vi: frame_codec ValInsertPdu_try_parse ValInsertPdu_to_vec ValInsertPdu_ok
  by (rule frame_codecI, rule ValInsertPdu_parse_iff) (simp add: ValInsertPdu_to_vec_def)

text \<open>
  The parser of \<open>ValInsertPdu\<close> has a branch that panics: after the name it reads the length
  byte of the email without a check, so it fails exactly when the bytes end there.
\<close>

lemma ValInsertPdu_try_parse_long:
  "length s = 12 \<Longrightarrow>
   ValInsertPdu_try_parse (t # s @ nl # rest) =
     (if length rest < unat nl then Ret None
      else case drop (unat nl) rest of
        [] \<Rightarrow> Panic SplitAtMid
      | el # r \<Rightarrow>
          if length r < unat el then Ret None
          else Ret (Some (\<lparr>vi_pdu_type = t, vi_ssn = map u8_to_char s, vi_name_length = nl,
                vi_name = map u8_to_char (take (unat nl) rest), vi_email_length = el,
                vi_email = map u8_to_char (take (unat el) r)\<rparr>, 15 + unat nl + unat el)))"
proof (cases "length rest < unat nl")
  case True
  moreover assume "length s = 12"
  ultimately show ?thesis by (simp add: ValInsertPdu_try_parse_def pdu_consts Let_def)
next
  case False
  then have "rest = take (unat nl) rest @ drop (unat nl) rest" "length (take (unat nl) rest) = unat nl"
    by simp_all
  then obtain x r where r: "rest = x @ r" "length x = unat nl" by blast
  moreover assume "length s = 12"
  ultimately show ?thesis
    by (cases r) (simp_all add: ValInsertPdu_try_parse_def pdu_consts Let_def reader_defs)
qed

lemma fourteen_bytes:
  "14 \<le> length b \<Longrightarrow> \<exists>t s nl rest. b = t # s @ nl # rest \<and> length s = 12"
proof -
  assume b: "14 \<le> length b"
  then obtain t b' where t: "b = t # b'" by (cases b) auto
  with b have "drop 12 b' \<noteq> []" by simp
  then obtain nl rest where "drop 12 b' = nl # rest" by (cases "drop 12 b'") auto
  then have "b' = take 12 b' @ nl # rest" by (metis append_take_drop_id)
  moreover have "length (take 12 b') = 12" using b t by simp
  ultimately show ?thesis using t by blast
qed

lemma ValInsertPdu_try_parse_short: "length b < 14 \<Longrightarrow> ValInsertPdu_try_parse b = Ret None"
  by (simp add: ValInsertPdu_try_parse_def pdu_consts)

text \<open>While it waits for more bytes it has fewer than the longest frame.\<close>

lemma ValInsertPdu_None_bound: "ValInsertPdu_try_parse b = Ret None \<Longrightarrow> length b < 525"
proof (cases "14 \<le> length b")
  case True
  then obtain t s nl rest where b: "b = t # s @ nl # rest" "length s = 12"
    using fourteen_bytes by blast
  assume "ValInsertPdu_try_parse b = Ret None"
  then consider "length rest < unat nl"
    | el r where "drop (unat nl) rest = el # r" "length r < unat el"
    using b by (auto simp: ValInsertPdu_try_parse_long split: if_splits list.splits)
  then show ?thesis
  proof cases
    case 1
    then show ?thesis using b unat_u8_less [of nl] by simp
  next
    case 2
    then have "length rest - unat nl = Suc (length r)" by (metis length_Cons length_drop)
    then show ?thesis using b 2 unat_u8_less [of nl] unat_u8_less [of el] by simp
  qed
qed simp

text \<open>It panics exactly on the bytes of a frame cut off behind the name, and never blocks.\<close>

lemma ValInsertPdu_Panic_iff:
  "ValInsertPdu_try_parse b = Panic e \<longleftrightarrow>
     e = SplitAtMid \<and> 14 \<le> length b \<and> length b = 14 + unat (b ! 13)"
proof (cases "14 \<le> length b")
  case False
  then show ?thesis by (simp add: ValInsertPdu_try_parse_short)
next
  case True
  then obtain t s nl rest where b: "b = t # s @ nl # rest" "length s = 12"
    using fourteen_bytes by blast
  then have "b ! 13 = nl" by (simp add: nth_append)
  with b show ?thesis
    by (auto simp: ValInsertPdu_try_parse_long split: list.splits)
qed

lemma ValInsertPdu_not_Blocked [simp]: "ValInsertPdu_try_parse b \<noteq> Blocked"
proof (cases "14 \<le> length b")
  case False
  then show ?thesis by (simp add: ValInsertPdu_try_parse_short)
next
  case True
  then obtain t s nl rest where "b = t # s @ nl # rest" "length s = 12"
    using fourteen_bytes by blast
  then show ?thesis by (auto simp: ValInsertPdu_try_parse_long split: list.splits)
qed

lemma ValLookupPdu_total: "\<exists>r. ValLookupPdu_try_parse b = Ret r"
  by (auto simp: ValLookupPdu_try_parse_def pdu_consts reader_defs Let_def)

lemma ValLookupPdu_None_iff: "ValLookupPdu_try_parse b = Ret None \<longleftrightarrow> length b < VAL_LOOKUP_SIZE"
  by (auto simp: ValLookupPdu_try_parse_def pdu_consts reader_defs Let_def)

lemma ValRemovePdu_total: "\<exists>r. ValRemovePdu_try_parse b = Ret r"
  by (auto simp: ValRemovePdu_try_parse_def pdu_consts reader_defs Let_def)

lemma ValRemovePdu_None_iff: "ValRemovePdu_try_parse b = Ret None \<longleftrightarrow> length b < VAL_REMOVE_SIZE"
  by (auto simp: ValRemovePdu_try_parse_def pdu_consts reader_defs Let_def)

text \<open>
  \<open>ValLookupResponsePdu\<close> is read by the parser of \<open>ValInsertPdu\<close>; its type byte comes out
  as \<open>VAL_LOOKUP_ID\<close> whatever was sent.
\<close>

definition ValLookupResponsePdu_as_insert :: "ValLookupResponsePdu \<Rightarrow> ValInsertPdu" where
  "ValLookupResponsePdu_as_insert p =
     \<lparr>vi_pdu_type = vlr_pdu_type p, vi_ssn = vlr_ssn p, vi_name_length = vlr_name_length p,
      vi_name = vlr_name p, vi_email_length = vlr_email_length p, vi_email = vlr_email p\<rparr>"

definition ValLookupResponsePdu_ok :: "ValLookupResponsePdu \<Rightarrow> bool" where
  "ValLookupResponsePdu_ok p \<longleftrightarrow> ValInsertPdu_ok (ValLookupResponsePdu_as_insert p)"

definition ValLookupResponsePdu_norm :: "ValLookupResponsePdu \<Rightarrow> ValLookupResponsePdu" where
  "ValLookupResponsePdu_norm p = p\<lparr>vlr_pdu_type := VAL_LOOKUP_ID\<rparr>"

lemma ValLookupResponsePdu_to_vec_eq:
  "ValLookupResponsePdu_to_vec p = ValInsertPdu_to_vec (ValLookupResponsePdu_as_insert p)"
  by (simp add: ValLookupResponsePdu_to_vec_def ValInsertPdu_to_vec_def
      ValLookupResponsePdu_as_insert_def)

lemma ValLookupResponsePdu_Some:
  "ValLookupResponsePdu_try_parse b = Ret (Some (p, n)) \<longleftrightarrow>
     (\<exists>q. ValInsertPdu_try_parse b = Ret (Some (q, n)) \<and>
       p = \<lparr>vlr_pdu_type = VAL_LOOKUP_ID, vlr_ssn = vi_ssn q, vlr_name_length = vi_name_length q,
            vlr_name = vi_name q, vlr_email_length = vi_email_length q, vlr_email = vi_email q\<rparr>)"
  by (auto simp: ValLookupResponsePdu_try_parse_def outcome_split split: option.splits)

interpretation vlr: frame_source ValLookupResponsePdu_try_parse ValLookupResponsePdu_to_vec
  ValLookupResponsePdu_ok ValLookupResponsePdu_norm
proof unfold_locales
  fix b c p n
  assume "ValLookupResponsePdu_try_parse b = Ret (Some (p, n))"
  then show "0 < n \<and> n \<le> length b" "ValLookupResponsePdu_try_parse (b @ c) = Ret (Some (p, n))"
    using vi.dec_used vi.dec_extend by (fastforce simp: ValLookupResponsePdu_Some)+
next
  fix p assume "ValLookupResponsePdu_ok p"
  then have "ValInsertPdu_try_parse (ValLookupResponsePdu_to_vec p) =
      Ret (Some (ValLookupResponsePdu_as_insert p, length (ValLookupResponsePdu_to_vec p)))"
    unfolding ValLookupResponsePdu_to_vec_eq ValLookupResponsePdu_ok_def by (rule vi.dec_enc)
  then show "ValLookupResponsePdu_try_parse (ValLookupResponsePdu_to_vec p) =
      Ret (Some (ValLookupResponsePdu_norm p, length (ValLookupResponsePdu_to_vec p)))"
    by (cases p) (simp add: ValLookupResponsePdu_try_parse_def ValLookupResponsePdu_norm_def
        ValLookupResponsePdu_as_insert_def)
qed

lemma ValLookupResponsePdu_None_iff:
  "ValLookupResponsePdu_try_parse b = Ret None \<longleftrightarrow> ValInsertPdu_try_parse b = Ret None"
  by (auto simp: ValLookupResponsePdu_try_parse_def obind_eq_Ret split: option.splits)

lemma ValLookupResponsePdu_Panic_iff:
  "ValLookupResponsePdu_try_parse b = Panic e \<longleftrightarrow> ValInsertPdu_try_parse b = Panic e"
  by (auto simp: ValLookupResponsePdu_try_parse_def obind_eq_Panic split: option.splits)

lemma ValLookupResponsePdu_not_Blocked [simp]: "ValLookupResponsePdu_try_parse b \<noteq> Blocked"
  by (auto simp: ValLookupResponsePdu_try_parse_def obind_eq_Blocked split: option.splits)

end
