(* ===== verification/Parse_Pdu.thy ===== *)
theory Parse_Pdu
  imports Pdu_Codec
begin

text \<open>
  The dispatch of \<^verbatim>\<open>resources/TestNode/src/socket_wrapper.rs\<close> from the first byte of a
  buffer to the parser of a struct, and the contract of \<open>frame_source\<close> for the whole wire
  format: \<open>to_bytes\<close> as the encoder, \<open>parse_pdu\<close> as the decoder.
\<close>

section \<open>The dispatch\<close>

definition first_byte :: "u8 list \<Rightarrow> u8 outcome" where
  "first_byte buffer = (case buffer of [] \<Rightarrow> Panic SliceIndex | b # _ \<Rightarrow> Ret b)"

text \<open>\<open>let (p, s) = ..?; Some((p.into(), s))\<close>: the parsed struct becomes a \<open>PDU\<close>.\<close>

definition into_pdu :: "('a \<Rightarrow> PDU) \<Rightarrow> ('a \<times> nat) option outcome \<Rightarrow> (PDU \<times> nat) option outcome" where
  "into_pdu into r = obind r (\<lambda>x. case x of None \<Rightarrow> Ret None | Some (p, s) \<Rightarrow> Ret (Some (into p, s)))"

definition parse_net_pdu :: "u8 list \<Rightarrow> (PDU \<times> nat) option outcome" where
  "parse_net_pdu buffer = obind (first_byte buffer) (\<lambda>x.
     if x = NET_ALIVE_ID then into_pdu NetAlive (NetAlivePdu_try_parse buffer)
     else if x = NET_GET_NODE_ID then into_pdu NetGetNode (NetGetNodePdu_try_parse buffer)
     else if x = NET_GET_NODE_RESPONSE_ID then
       into_pdu NetGetNodeResponse (NetGetNodeResponsePdu_try_parse buffer)
     else if x = NET_JOIN_ID then into_pdu NetJoin (NetJoinPdu_try_parse buffer)
     else if x = NET_JOIN_RESPONSE_ID then
       into_pdu NetJoinResponse (NetJoinResponsePdu_try_parse buffer)
     else if x = NET_CLOSE_CONNECTION_ID then
       into_pdu NetCloseConnection (NetCloseConnectionPdu_try_parse buffer)
     else if x = NET_NEW_RANGE_ID then into_pdu NetNewRange (NetNewRangePdu_try_parse buffer)
     else if x = NET_NEW_RANGE_RESPONSE_ID then
       into_pdu NetNewRangeResponse (NetNewRangeResponsePdu_try_parse buffer)
     else if x = NET_LEAVING_ID then into_pdu NetLeaving (NetLeavingPdu_try_parse buffer)
     else Panic (InvalidId x))"

definition parse_val_pdu :: "u8 list \<Rightarrow> (PDU \<times> nat) option outcome" where
  "parse_val_pdu buffer = obind (first_byte buffer) (\<lambda>x.
     if x = VAL_INSERT_ID then into_pdu ValInsert (ValInsertPdu_try_parse buffer)
     else if x = VAL_REMOVE_ID then into_pdu ValRemove (ValRemovePdu_try_parse buffer)
     else if x = VAL_LOOKUP_ID then into_pdu ValLookup (ValLookupPdu_try_parse buffer)
     else if x = VAL_LOOKUP_RESPONSE_ID then
       into_pdu ValLookupResponse (ValLookupResponsePdu_try_parse buffer)
     else Panic (InvalidId x))"

definition parse_stun_pdu :: "u8 list \<Rightarrow> (PDU \<times> nat) option outcome" where
  "parse_stun_pdu buffer = obind (first_byte buffer) (\<lambda>x.
     if x = STUN_LOOKUP_ID then into_pdu StunLookup (StunLookupPdu_try_parse buffer)
     else if x = STUN_RESPONSE_ID then into_pdu StunResponse (StunResponsePdu_try_parse buffer)
     else Panic (InvalidId x))"

definition parse_pdu :: "u8 list \<Rightarrow> (PDU \<times> nat) option outcome" where
  "parse_pdu buffer =
     (if length buffer = 0 then Ret None
      else obind (first_byte buffer) (\<lambda>x.
        if 0 \<le> x \<and> x \<le> 8 then parse_net_pdu buffer
        else if 100 \<le> x \<and> x \<le> 103 then parse_val_pdu buffer
        else if 200 \<le> x \<and> x \<le> 201 then parse_stun_pdu buffer
        else Panic (InvalidPdu buffer)))"

lemmas parse_defs = parse_pdu_def parse_net_pdu_def parse_val_pdu_def parse_stun_pdu_def
  first_byte_def

text \<open>The type byte each constructor stands for, the one a value carries, and the value's parser.\<close>

fun pdu_id :: "PDU \<Rightarrow> u8" where
  "pdu_id (NetAlive _) = NET_ALIVE_ID"
| "pdu_id (NetGetNode _) = NET_GET_NODE_ID"
| "pdu_id (NetGetNodeResponse _) = NET_GET_NODE_RESPONSE_ID"
| "pdu_id (NetJoin _) = NET_JOIN_ID"
| "pdu_id (NetJoinResponse _) = NET_JOIN_RESPONSE_ID"
| "pdu_id (NetCloseConnection _) = NET_CLOSE_CONNECTION_ID"
| "pdu_id (NetNewRange _) = NET_NEW_RANGE_ID"
| "pdu_id (NetNewRangeResponse _) = NET_NEW_RANGE_RESPONSE_ID"
| "pdu_id (NetLeaving _) = NET_LEAVING_ID"
| "pdu_id (ValInsert _) = VAL_INSERT_ID"
| "pdu_id (ValRemove _) = VAL_REMOVE_ID"
| "pdu_id (ValLookup _) = VAL_LOOKUP_ID"
| "pdu_id (ValLookupResponse _) = VAL_LOOKUP_RESPONSE_ID"
| "pdu_id (StunLookup _) = STUN_LOOKUP_ID"
| "pdu_id (StunResponse _) = STUN_RESPONSE_ID"

fun pdu_type_of :: "PDU \<Rightarrow> u8" where
  "pdu_type_of (NetAlive p) = na_pdu_type p"
| "pdu_type_of (NetGetNode p) = ngn_pdu_type p"
| "pdu_type_of (NetGetNodeResponse p) = ngnr_pdu_type p"
| "pdu_type_of (NetJoin p) = nj_pdu_type p"
| "pdu_type_of (NetJoinResponse p) = njr_pdu_type p"
| "pdu_type_of (NetCloseConnection p) = ncc_pdu_type p"
| "pdu_type_of (NetNewRange p) = nnr_pdu_type p"
| "pdu_type_of (NetNewRangeResponse p) = nnrr_pdu_type p"
| "pdu_type_of (NetLeaving p) = nl_pdu_type p"
| "pdu_type_of (ValInsert p) = vi_pdu_type p"
| "pdu_type_of (ValRemove p) = vr_pdu_type p"
| "pdu_type_of (ValLookup p) = vl_pdu_type p"
| "pdu_type_of (ValLookupResponse p) = vlr_pdu_type p"
| "pdu_type_of (StunLookup p) = sl_pdu_type p"
| "pdu_type_of (StunResponse p) = sr_pdu_type p"

fun pdu_parses :: "u8 list \<Rightarrow> nat \<Rightarrow> PDU \<Rightarrow> bool" where
  "pdu_parses b n (NetAlive p) \<longleftrightarrow> NetAlivePdu_try_parse b = Ret (Some (p, n))"
| "pdu_parses b n (NetGetNode p) \<longleftrightarrow> NetGetNodePdu_try_parse b = Ret (Some (p, n))"
| "pdu_parses b n (NetGetNodeResponse p) \<longleftrightarrow> NetGetNodeResponsePdu_try_parse b = Ret (Some (p, n))"
| "pdu_parses b n (NetJoin p) \<longleftrightarrow> NetJoinPdu_try_parse b = Ret (Some (p, n))"
| "pdu_parses b n (NetJoinResponse p) \<longleftrightarrow> NetJoinResponsePdu_try_parse b = Ret (Some (p, n))"
| "pdu_parses b n (NetCloseConnection p) \<longleftrightarrow> NetCloseConnectionPdu_try_parse b = Ret (Some (p, n))"
| "pdu_parses b n (NetNewRange p) \<longleftrightarrow> NetNewRangePdu_try_parse b = Ret (Some (p, n))"
| "pdu_parses b n (NetNewRangeResponse p) \<longleftrightarrow> NetNewRangeResponsePdu_try_parse b = Ret (Some (p, n))"
| "pdu_parses b n (NetLeaving p) \<longleftrightarrow> NetLeavingPdu_try_parse b = Ret (Some (p, n))"
| "pdu_parses b n (ValInsert p) \<longleftrightarrow> ValInsertPdu_try_parse b = Ret (Some (p, n))"
| "pdu_parses b n (ValRemove p) \<longleftrightarrow> ValRemovePdu_try_parse b = Ret (Some (p, n))"
| "pdu_parses b n (ValLookup p) \<longleftrightarrow> ValLookupPdu_try_parse b = Ret (Some (p, n))"
| "pdu_parses b n (ValLookupResponse p) \<longleftrightarrow> ValLookupResponsePdu_try_parse b = Ret (Some (p, n))"
| "pdu_parses b n (StunLookup p) \<longleftrightarrow> StunLookupPdu_try_parse b = Ret (Some (p, n))"
| "pdu_parses b n (StunResponse p) \<longleftrightarrow> StunResponsePdu_try_parse b = Ret (Some (p, n))"

fun pdu_payload_ok :: "PDU \<Rightarrow> bool" where
  "pdu_payload_ok (ValInsert p) \<longleftrightarrow> ValInsertPdu_ok p"
| "pdu_payload_ok (ValRemove p) \<longleftrightarrow> ValRemovePdu_ok p"
| "pdu_payload_ok (ValLookup p) \<longleftrightarrow> ValLookupPdu_ok p"
| "pdu_payload_ok (ValLookupResponse p) \<longleftrightarrow> ValLookupResponsePdu_ok p"
| "pdu_payload_ok _ \<longleftrightarrow> True"

definition wf_pdu :: "PDU \<Rightarrow> bool" where
  "wf_pdu p \<longleftrightarrow> pdu_type_of p = pdu_id p \<and> pdu_payload_ok p"

text \<open>What a PDU is after a trip over the wire: only a lookup response changes.\<close>

fun norm_pdu :: "PDU \<Rightarrow> PDU" where
  "norm_pdu (ValLookupResponse p) = ValLookupResponse (ValLookupResponsePdu_norm p)"
| "norm_pdu p = p"

definition pdu_ids :: "u8 list" where
  "pdu_ids = [0, 1, 2, 3, 4, 5, 6, 7, 8, 100, 101, 102, 103, 200, 201]"

lemma into_pdu_Some [outcome_split]:
  "into_pdu into r = Ret (Some (p, n)) \<longleftrightarrow> (\<exists>q. r = Ret (Some (q, n)) \<and> p = into q)"
  by (auto simp: into_pdu_def outcome_split split: option.splits)

lemma into_pdu_None [simp]: "into_pdu into r = Ret None \<longleftrightarrow> r = Ret None"
  by (auto simp: into_pdu_def outcome_split split: option.splits)

lemma into_pdu_Panic [simp]: "into_pdu into r = Panic e \<longleftrightarrow> r = Panic e"
  by (auto simp: into_pdu_def obind_eq_Panic split: option.splits)

lemma into_pdu_Blocked [simp]: "into_pdu into r = Blocked \<longleftrightarrow> r = Blocked"
  by (auto simp: into_pdu_def obind_eq_Blocked split: option.splits)

text \<open>The three levels of dispatch, flattened: one equation per type byte.\<close>

lemma parse_pdu_Nil [simp]: "parse_pdu [] = Ret None"
  by (simp add: parse_pdu_def)

lemma parse_pdu_ids:
  "parse_pdu (NET_ALIVE_ID # b) = into_pdu NetAlive (NetAlivePdu_try_parse (NET_ALIVE_ID # b))"
  "parse_pdu (NET_GET_NODE_ID # b) = into_pdu NetGetNode (NetGetNodePdu_try_parse (NET_GET_NODE_ID # b))"
  "parse_pdu (NET_GET_NODE_RESPONSE_ID # b) = into_pdu NetGetNodeResponse (NetGetNodeResponsePdu_try_parse (NET_GET_NODE_RESPONSE_ID # b))"
  "parse_pdu (NET_JOIN_ID # b) = into_pdu NetJoin (NetJoinPdu_try_parse (NET_JOIN_ID # b))"
  "parse_pdu (NET_JOIN_RESPONSE_ID # b) = into_pdu NetJoinResponse (NetJoinResponsePdu_try_parse (NET_JOIN_RESPONSE_ID # b))"
  "parse_pdu (NET_CLOSE_CONNECTION_ID # b) = into_pdu NetCloseConnection (NetCloseConnectionPdu_try_parse (NET_CLOSE_CONNECTION_ID # b))"
  "parse_pdu (NET_NEW_RANGE_ID # b) = into_pdu NetNewRange (NetNewRangePdu_try_parse (NET_NEW_RANGE_ID # b))"
  "parse_pdu (NET_NEW_RANGE_RESPONSE_ID # b) = into_pdu NetNewRangeResponse (NetNewRangeResponsePdu_try_parse (NET_NEW_RANGE_RESPONSE_ID # b))"
  "parse_pdu (NET_LEAVING_ID # b) = into_pdu NetLeaving (NetLeavingPdu_try_parse (NET_LEAVING_ID # b))"
  "parse_pdu (VAL_INSERT_ID # b) = into_pdu ValInsert (ValInsertPdu_try_parse (VAL_INSERT_ID # b))"
  "parse_pdu (VAL_REMOVE_ID # b) = into_pdu ValRemove (ValRemovePdu_try_parse (VAL_REMOVE_ID # b))"
  "parse_pdu (VAL_LOOKUP_ID # b) = into_pdu ValLookup (ValLookupPdu_try_parse (VAL_LOOKUP_ID # b))"
  "parse_pdu (VAL_LOOKUP_RESPONSE_ID # b) = into_pdu ValLookupResponse (ValLookupResponsePdu_try_parse (VAL_LOOKUP_RESPONSE_ID # b))"
  "parse_pdu (STUN_LOOKUP_ID # b) = into_pdu StunLookup (StunLookupPdu_try_parse (STUN_LOOKUP_ID # b))"
  "parse_pdu (STUN_RESPONSE_ID # b) = into_pdu StunResponse (StunResponsePdu_try_parse (STUN_RESPONSE_ID # b))"
  by (simp_all add: parse_defs pdu_consts)

lemma u8_between:
  "(x :: u8) \<le> 8 \<Longrightarrow> x \<in> set pdu_ids"
  "100 \<le> (x :: u8) \<Longrightarrow> x \<le> 103 \<Longrightarrow> x \<in> set pdu_ids"
  "200 \<le> (x :: u8) \<Longrightarrow> x \<le> 201 \<Longrightarrow> x \<in> set pdu_ids"
  by (auto simp: pdu_ids_def word_le_nat_alt word_unat_eq_iff)

lemma parse_pdu_unknown:
  "x \<notin> set pdu_ids \<Longrightarrow> parse_pdu (x # b) = Panic (InvalidPdu (x # b))"
  using u8_between [of x] by (auto simp: parse_pdu_def first_byte_def)

lemma pdu_id_valid: "pdu_id p \<in> set pdu_ids"
  by (cases p) (simp_all add: pdu_ids_def pdu_consts)

lemma pdu_ids_cases:
  assumes "x \<in> set pdu_ids"
  obtains p where "x = pdu_id p"
proof -
  have "x \<in> pdu_id ` {NetAlive undefined, NetGetNode undefined, NetGetNodeResponse undefined,
      NetJoin undefined, NetJoinResponse undefined, NetCloseConnection undefined,
      NetNewRange undefined, NetNewRangeResponse undefined, NetLeaving undefined,
      ValInsert undefined, ValRemove undefined, ValLookup undefined, ValLookupResponse undefined,
      StunLookup undefined, StunResponse undefined}"
    using assms by (auto simp: pdu_ids_def pdu_consts)
  then show ?thesis using that by blast
qed

text \<open>
  \<open>parse_pdu\<close> returns a PDU exactly when the first byte is the id of its constructor and the
  struct's parser succeeds.
\<close>

lemma parse_pdu_id:
  "x = pdu_id p \<Longrightarrow> parse_pdu (x # b) = Ret (Some (p, n)) \<longleftrightarrow> pdu_parses (x # b) n p"
  by (cases p) (auto simp: parse_pdu_ids outcome_split)

lemma parse_pdu_Some_id: "parse_pdu (x # b) = Ret (Some (p, n)) \<Longrightarrow> x = pdu_id p"
proof -
  assume a: "parse_pdu (x # b) = Ret (Some (p, n))"
  then have "x \<in> set pdu_ids" using parse_pdu_unknown by fastforce
  then obtain q where "x = pdu_id q" by (rule pdu_ids_cases)
  then show ?thesis using a by (cases q) (auto simp: parse_pdu_ids outcome_split)
qed

lemma parse_pdu_Some_iff:
  "parse_pdu b = Ret (Some (p, n)) \<longleftrightarrow> (\<exists>c. b = pdu_id p # c) \<and> pdu_parses b n p"
proof (cases b)
  case Nil
  then show ?thesis by simp
next
  case (Cons x c)
  then show ?thesis
    using parse_pdu_id [of x p c n] parse_pdu_Some_id [of x c p n] by auto
qed

section \<open>The contract of the wire format\<close>

lemmas struct_used = na.dec_used ngn.dec_used ngnr.dec_used nj.dec_used njr.dec_used ncc.dec_used nnr.dec_used nnrr.dec_used nl.dec_used vi.dec_used vr.dec_used vl.dec_used vlr.dec_used sl.dec_used sr.dec_used
lemmas struct_extend = na.dec_extend ngn.dec_extend ngnr.dec_extend nj.dec_extend njr.dec_extend ncc.dec_extend nnr.dec_extend nnrr.dec_extend nl.dec_extend vi.dec_extend vr.dec_extend vl.dec_extend vlr.dec_extend sl.dec_extend sr.dec_extend
lemmas struct_enc = na.dec_enc ngn.dec_enc ngnr.dec_enc nj.dec_enc njr.dec_enc ncc.dec_enc nnr.dec_enc nnrr.dec_enc nl.dec_enc vi.dec_enc vr.dec_enc vl.dec_enc vlr.dec_enc sl.dec_enc sr.dec_enc
lemmas struct_dec = na.enc_dec ngn.enc_dec ngnr.enc_dec nj.enc_dec njr.enc_dec ncc.enc_dec nnr.enc_dec nnrr.enc_dec nl.enc_dec vi.enc_dec vr.enc_dec vl.enc_dec sl.enc_dec sr.enc_dec
lemmas struct_to_vec = NetAlivePdu_to_vec_def NetGetNodePdu_to_vec_def NetGetNodeResponsePdu_to_vec_def NetJoinPdu_to_vec_def NetJoinResponsePdu_to_vec_def NetCloseConnectionPdu_to_vec_def NetNewRangePdu_to_vec_def NetNewRangeResponsePdu_to_vec_def NetLeavingPdu_to_vec_def ValInsertPdu_to_vec_def ValRemovePdu_to_vec_def ValLookupPdu_to_vec_def ValLookupResponsePdu_to_vec_def StunLookupPdu_to_vec_def StunResponsePdu_to_vec_def

lemma pdu_parses_used: "pdu_parses b n p \<Longrightarrow> 0 < n \<and> n \<le> length b"
  by (cases p) (auto dest: struct_used)

lemma pdu_parses_extend: "pdu_parses b n p \<Longrightarrow> pdu_parses (b @ c) n p"
  by (cases p) (auto intro: struct_extend)

lemma pdu_parses_to_bytes:
  "pdu_payload_ok p \<Longrightarrow> pdu_parses (to_bytes p) (length (to_bytes p)) (norm_pdu p)"
  by (cases p) (auto intro: struct_enc)

lemma to_bytes_Cons: "\<exists>c. to_bytes p = pdu_type_of p # c"
  by (cases p) (simp_all add: struct_to_vec)

lemma pdu_id_norm [simp]: "pdu_id (norm_pdu p) = pdu_id p"
  by (cases p) simp_all

interpretation wire: frame_source parse_pdu to_bytes wf_pdu norm_pdu
proof unfold_locales
  fix b c p n
  assume a: "parse_pdu b = Ret (Some (p, n))"
  then show "0 < n \<and> n \<le> length b"
    using pdu_parses_used by (auto simp: parse_pdu_Some_iff)
  from a show "parse_pdu (b @ c) = Ret (Some (p, n))"
    using pdu_parses_extend by (auto simp: parse_pdu_Some_iff)
next
  fix p assume "wf_pdu p"
  then show "parse_pdu (to_bytes p) = Ret (Some (norm_pdu p, length (to_bytes p)))"
    using pdu_parses_to_bytes [of p] to_bytes_Cons [of p]
    by (auto simp: parse_pdu_Some_iff wf_pdu_def)
qed

text \<open>
  The other direction: a parsed PDU that is not a lookup response is well-formed and
  serialises to the very bytes it was read from, so forwarding it is transparent.
\<close>

lemma pdu_parses_dec:
  "pdu_parses b n p \<Longrightarrow> (\<nexists>r. p = ValLookupResponse r) \<Longrightarrow>
     pdu_payload_ok p \<and> to_bytes p = take n b"
  by (cases p) (auto dest: struct_dec)

lemma parse_pdu_to_bytes:
  assumes "parse_pdu b = Ret (Some (p, n))" "\<nexists>r. p = ValLookupResponse r"
  shows "wf_pdu p \<and> to_bytes p = take n b"
proof -
  from assms(1) obtain c where b: "b = pdu_id p # c" and "pdu_parses b n p"
    by (auto simp: parse_pdu_Some_iff)
  then have *: "pdu_payload_ok p" "to_bytes p = take n b" "0 < n"
    using pdu_parses_dec assms(2) pdu_parses_used by blast+
  obtain d where "to_bytes p = pdu_type_of p # d" using to_bytes_Cons by blast
  with * b have "pdu_type_of p = pdu_id p" by (cases n) auto
  with * show ?thesis by (simp add: wf_pdu_def)
qed

section \<open>Where the parser panics\<close>

lemmas struct_total = na.dec_total ngn.dec_total ngnr.dec_total nj.dec_total njr.dec_total ncc.dec_total nnr.dec_total nnrr.dec_total nl.dec_total sl.dec_total sr.dec_total

lemma parse_pdu_not_Blocked: "parse_pdu b \<noteq> Blocked"
proof (cases b)
  case Nil
  then show ?thesis by simp
next
  case (Cons x c)
  show ?thesis
  proof (cases "x \<in> set pdu_ids")
    case True
    then obtain q where "x = pdu_id q" by (rule pdu_ids_cases)
    then show ?thesis
      using Cons struct_total ValLookupPdu_total [of b] ValRemovePdu_total [of b]
      by (cases q) (auto simp: parse_pdu_ids)
  next
    case False
    then show ?thesis using Cons parse_pdu_unknown by simp
  qed
qed

lemma parse_pdu_id_Panic:
  "x = pdu_id p \<Longrightarrow> parse_pdu (x # b) = Panic e \<longleftrightarrow>
     x \<in> {VAL_INSERT_ID, VAL_LOOKUP_RESPONSE_ID} \<and> ValInsertPdu_try_parse (x # b) = Panic e"
proof -
  assume x: "x = pdu_id p"
  have "parse_pdu (x # b) = Panic e \<longleftrightarrow>
     ((\<exists>r. p = ValInsert r) \<or> (\<exists>r. p = ValLookupResponse r)) \<and> ValInsertPdu_try_parse (x # b) = Panic e"
    using struct_total ValLookupPdu_total [of "x # b"] ValRemovePdu_total [of "x # b"] x
    by (cases p) (auto simp: parse_pdu_ids ValLookupResponsePdu_Panic_iff)
  also have "(\<exists>r. p = ValInsert r) \<or> (\<exists>r. p = ValLookupResponse r) \<longleftrightarrow>
      x \<in> {VAL_INSERT_ID, VAL_LOOKUP_RESPONSE_ID}"
    unfolding x by (cases p) (simp_all add: pdu_consts)
  finally show ?thesis .
qed

lemma parse_pdu_Panic_iff:
  "parse_pdu b = Panic e \<longleftrightarrow>
     (b \<noteq> [] \<and> hd b \<notin> set pdu_ids \<and> e = InvalidPdu b) \<or>
     (b \<noteq> [] \<and> hd b \<in> {VAL_INSERT_ID, VAL_LOOKUP_RESPONSE_ID} \<and> 14 \<le> length b \<and>
      length b = 14 + unat (b ! 13) \<and> e = SplitAtMid)"
proof (cases b)
  case Nil
  then show ?thesis by simp
next
  case (Cons x c)
  show ?thesis
  proof (cases "x \<in> set pdu_ids")
    case True
    then obtain q where "x = pdu_id q" by (rule pdu_ids_cases)
    with parse_pdu_id_Panic [OF this, of c e] True Cons show ?thesis
      by (auto simp: ValInsertPdu_Panic_iff)
  next
    case False
    then show ?thesis using Cons parse_pdu_unknown [OF False] by (auto simp: pdu_ids_def pdu_consts)
  qed
qed

section \<open>How many bytes an incomplete frame can have\<close>

lemmas struct_None_iff = na.dec_None_iff ngn.dec_None_iff ngnr.dec_None_iff nj.dec_None_iff njr.dec_None_iff ncc.dec_None_iff nnr.dec_None_iff nnrr.dec_None_iff nl.dec_None_iff sl.dec_None_iff sr.dec_None_iff
  ValLookupPdu_None_iff ValRemovePdu_None_iff ValLookupResponsePdu_None_iff

lemma struct_sizes:
  "NET_ALIVE_SIZE < 525" "NET_GET_NODE_SIZE < 525" "NET_GET_NODE_RESPONSE_SIZE < 525"
  "NET_JOIN_SIZE < 525" "NET_JOIN_RESPONSE_SIZE < 525" "NET_CLOSE_CONNECTION_SIZE < 525"
  "NET_NEW_RANGE_SIZE < 525" "NET_NEW_RANGE_RESPONSE_SIZE < 525" "NET_LEAVING_SIZE < 525"
  "STUN_LOOKUP_SIZE < 525" "STUN_RESPONSE_SIZE < 525" "VAL_LOOKUP_SIZE < 525"
  "VAL_REMOVE_SIZE < 525"
  by (simp_all add: pdu_consts)

lemma parse_pdu_None_bound: "parse_pdu b = Ret None \<Longrightarrow> length b < 525"
proof (cases b)
  case (Cons x c)
  assume none: "parse_pdu b = Ret None"
  then have "x \<in> set pdu_ids" using parse_pdu_unknown Cons by fastforce
  then obtain q where q: "x = pdu_id q" by (rule pdu_ids_cases)
  show ?thesis
    using none ValInsertPdu_None_bound [of b] struct_sizes unfolding Cons q
    by (cases q) (auto simp: parse_pdu_ids struct_None_iff)
qed simp

end
