(* ===== verification/Os_Sockets.thy ===== *)
theory Os_Sockets
  imports Dht_Prelude
begin

text \<open>
  The non-blocking sockets of the operating system, as the standard library documents
  them.  What the environment will do to a socket is a script inside the socket's state: the
  results of its future reads and writes, in order.  A theorem about every script is a
  theorem about every behaviour of the peer, the network and the scheduler.  What the
  program wrote is kept beside it.
\<close>

section \<open>Streams\<close>

text \<open>
  Future reads of a stream: bytes that have arrived (a read takes as many as its slice
  holds and leaves the others), the end of the stream (every later read returns 0 bytes),
  a read that would block, and an error.  An exhausted script means that nothing more
  arrives.
\<close>

datatype rd = RData "u8 list" | REof | RWouldBlock | RError

text \<open>
  Future writes of a stream: the kernel takes up to \<open>n\<close> bytes, it would block once, it
  fails, or it would block for ever.  An exhausted script means that the kernel takes
  whatever is written.
\<close>

datatype wr = WTake nat | WWouldBlock | WError | WStall

text \<open>
  \<open>peer_addr\<close> and \<open>shutdown_ok\<close> are what \<open>peer_addr()\<close> and \<open>shutdown(..)\<close> return:
  both fail on a connection the peer has reset.
\<close>

record tcp_stream =
  peer_addr :: "socket_addr option"
  inbox :: "rd list"
  writes :: "wr list"
  outbox :: "u8 list"
  shutdown_ok :: bool
  is_shut :: bool

datatype read_result = ReadOk "u8 list" | ReadBlock | ReadErr

fun tcp_read :: "nat \<Rightarrow> rd list \<Rightarrow> read_result \<times> rd list" where
  "tcp_read n [] = (ReadBlock, [])"
| "tcp_read n (RData [] # rs) = tcp_read n rs"
| "tcp_read n (RData bs # rs) =
     (ReadOk (take n bs), if length bs \<le> n then rs else RData (drop n bs) # rs)"
| "tcp_read n (REof # rs) = (ReadOk [], REof # rs)"
| "tcp_read n (RWouldBlock # rs) = (ReadBlock, rs)"
| "tcp_read n (RError # rs) = (ReadErr, rs)"

datatype write_result = WriteOk nat | WriteBlock | WriteErr | WriteNever

fun tcp_write :: "u8 list \<Rightarrow> wr list \<Rightarrow> write_result \<times> wr list" where
  "tcp_write bs [] = (WriteOk (length bs), [])"
| "tcp_write bs (WTake n # ws) = (WriteOk (min n (length bs)), ws)"
| "tcp_write bs (WWouldBlock # ws) = (WriteBlock, ws)"
| "tcp_write bs (WError # ws) = (WriteErr, ws)"
| "tcp_write bs (WStall # ws) = (WriteNever, WStall # ws)"

text \<open>The bytes a script will still deliver, and a size that every read of bytes decreases.\<close>

fun pending :: "rd list \<Rightarrow> u8 list" where
  "pending [] = []"
| "pending (RData bs # rs) = bs @ pending rs"
| "pending (_ # rs) = pending rs"

lemma pending_append [simp]: "pending (rs @ ss) = pending rs @ pending ss"
  by (induction rs rule: pending.induct) auto

lemma pending_map_RData [simp]: "pending (map RData cs) = concat cs"
  by (induction cs) auto

lemma tcp_read_pending:
  "tcp_read n rs = (ReadOk bs, rs') \<Longrightarrow> pending rs = bs @ pending rs' \<and> length bs \<le> n"
  by (induction n rs rule: tcp_read.induct) (auto split: if_splits)

lemma tcp_read_less:
  "tcp_read n rs = (ReadOk bs, rs') \<Longrightarrow> bs \<noteq> [] \<Longrightarrow> length (pending rs') < length (pending rs)"
  using tcp_read_pending [of n rs bs rs'] by simp

text \<open>The size of a script: every read but those at the end of the stream decreases it.\<close>

definition rd_size :: "rd list \<Rightarrow> nat" where
  "rd_size rs = length rs + length (pending rs)"

section \<open>Datagram sockets\<close>

text \<open>
  Future receptions of a UDP socket: a datagram with its source (what does not fit in the
  slice is discarded), a reception that would block, an error.
\<close>

datatype dgram = Datagram "u8 list" socket_addr | DWouldBlock | DError

text \<open>
  Future sends: the kernel reports \<open>n\<close> bytes as sent, it would block once, it fails, it
  would block for ever; an exhausted script means that datagrams are sent whole.
\<close>

datatype sd = SShort nat | SWouldBlock | SError | SStall

record udp_socket =
  udp_local :: "socket_addr option"
  arrivals :: "dgram list"
  sends :: "sd list"
  sent_datagrams :: "(socket_addr \<times> u8 list) list"

datatype recv_result = RecvOk "u8 list" socket_addr | RecvBlock | RecvErr

fun udp_recv_from :: "nat \<Rightarrow> dgram list \<Rightarrow> recv_result \<times> dgram list" where
  "udp_recv_from n [] = (RecvBlock, [])"
| "udp_recv_from n (Datagram bs src # ds) = (RecvOk (take n bs) src, ds)"
| "udp_recv_from n (DWouldBlock # ds) = (RecvBlock, ds)"
| "udp_recv_from n (DError # ds) = (RecvErr, ds)"

datatype send_result = SendOk nat | SendBlock | SendErr | SendNever

fun udp_send_to :: "u8 list \<Rightarrow> sd list \<Rightarrow> send_result \<times> sd list" where
  "udp_send_to bs [] = (SendOk (length bs), [])"
| "udp_send_to bs (SShort n # ss) = (SendOk n, ss)"
| "udp_send_to bs (SWouldBlock # ss) = (SendBlock, ss)"
| "udp_send_to bs (SError # ss) = (SendErr, ss)"
| "udp_send_to bs (SStall # ss) = (SendNever, SStall # ss)"

lemma udp_recv_less: "udp_recv_from n ds = (RecvOk bs src, ds') \<Longrightarrow> length ds' < length ds"
  by (cases "(n, ds)" rule: udp_recv_from.cases) auto

section \<open>Listening sockets\<close>

text \<open>
  The results of future \<open>accept\<close> calls: a stream, or an error (\<open>None\<close>); \<open>accept\<close> on an
  exhausted script waits for ever.
\<close>

record tcp_listener =
  local_addr :: "socket_addr option"
  accepts :: "tcp_stream option list"

section \<open>The monotonic clock\<close>

text \<open>An instant is a count of nanoseconds.\<close>

type_synonym instant = int

definition secs :: "int \<Rightarrow> int" where
  "secs n = n * 1000000000"

text \<open>\<open>Instant::elapsed().as_secs()\<close>: 0 for an instant in the future.\<close>

definition elapsed_secs :: "instant \<Rightarrow> instant \<Rightarrow> int" where
  "elapsed_secs now t = max 0 (now - t) div 1000000000"

lemma elapsed_secs_ge: "0 < n \<Longrightarrow> n \<le> elapsed_secs now t \<longleftrightarrow> secs n \<le> now - t"
  by (simp add: elapsed_secs_def secs_def) linarith

lemma elapsed_secs_nonneg [simp]: "0 \<le> elapsed_secs now t"
  by (simp add: elapsed_secs_def pos_imp_zdiv_nonneg_iff)

end
