(* ===== verification/Socket_Wrapper.thy ===== *)
theory Socket_Wrapper
  imports Parse_Pdu Os_Sockets
begin

text \<open>
  \<open>TcpWrapper\<close> and \<open>UdpWrapper\<close> of \<^verbatim>\<open>resources/TestNode/src/socket_wrapper.rs\<close>.  The two
  structs have the same fields and share one record here; each method is a function of the
  wrapper and of the socket it is given.
\<close>

section \<open>State\<close>

definition BUFFER_SIZE :: nat where
  "BUFFER_SIZE = 25600"

type_synonym message = "PDU \<times> socket_addr"

record wrapper =
  incoming_queue :: "message list"
  buffer :: "u8 list"
  buffer_fill :: nat

definition TcpWrapper_new :: wrapper where
  "TcpWrapper_new = \<lparr>incoming_queue = [], buffer = replicate BUFFER_SIZE 0, buffer_fill = 0\<rparr>"

definition UdpWrapper_new :: wrapper where
  "UdpWrapper_new = \<lparr>incoming_queue = [], buffer = replicate BUFFER_SIZE 0, buffer_fill = 0\<rparr>"

definition TcpWrapper_next_pdu :: "wrapper \<Rightarrow> message option \<times> wrapper" where
  "TcpWrapper_next_pdu w =
     (case incoming_queue w of [] \<Rightarrow> (None, w) | m # ms \<Rightarrow> (Some m, w\<lparr>incoming_queue := ms\<rparr>))"

definition UdpWrapper_next_pdu :: "wrapper \<Rightarrow> message option \<times> wrapper" where
  "UdpWrapper_next_pdu w =
     (case incoming_queue w of [] \<Rightarrow> (None, w) | m # ms \<Rightarrow> (Some m, w\<lparr>incoming_queue := ms\<rparr>))"

section \<open>Sending\<close>

definition slice_from :: "nat \<Rightarrow> 'a list \<Rightarrow> 'a list outcome" where
  "slice_from n xs = (if n \<le> length xs then Ret (drop n xs) else Panic SliceIndex)"

lemma tcp_write_ok:
  "(WriteOk amt, ws') = tcp_write bs ws \<Longrightarrow>
     amt \<le> length bs \<and> (length ws' < length ws \<or> ws' = ws \<and> amt = length bs)"
  by (cases "(bs, ws)" rule: tcp_write.cases) auto

lemma tcp_write_block: "(WriteBlock, ws') = tcp_write bs ws \<Longrightarrow> length ws' < length ws"
  by (cases "(bs, ws)" rule: tcp_write.cases) auto

lemma slice_from_iff [outcome_split]:
  "slice_from n xs = Ret ys \<longleftrightarrow> n \<le> length xs \<and> ys = drop n xs"
  by (auto simp: slice_from_def)

text \<open>
  The loop of \<open>TcpWrapper::send\<close>: write the bytes that are not sent yet, again after a short
  write or (after a sleep) when the socket would block.
\<close>

function tcp_send_loop :: "u8 list \<Rightarrow> nat \<Rightarrow> tcp_stream \<Rightarrow> tcp_stream outcome" where
  "tcp_send_loop bytes sent s =
     (if sent = length bytes then Ret s
      else obind (slice_from sent bytes) (\<lambda>rest.
        case tcp_write rest (writes s) of (r, ws) \<Rightarrow>
          (case r of
             WriteOk amt \<Rightarrow>
               tcp_send_loop bytes (sent + amt)
                 (s\<lparr>writes := ws, outbox := outbox s @ take amt rest\<rparr>)
           | WriteBlock \<Rightarrow> tcp_send_loop bytes sent (s\<lparr>writes := ws\<rparr>)
           | WriteErr \<Rightarrow> Panic SocketError
           | WriteNever \<Rightarrow> Blocked)))"
  by pat_completeness auto
termination
  by (relation "measure (\<lambda>(bytes, sent, s). length (writes s) + (length bytes - sent))")
    (auto simp: slice_from_iff dest!: tcp_write_block dest: tcp_write_ok)

declare tcp_send_loop.simps [simp del]

definition TcpWrapper_send :: "wrapper \<Rightarrow> tcp_stream \<Rightarrow> PDU \<Rightarrow> tcp_stream outcome" where
  "TcpWrapper_send w socket pdu = tcp_send_loop (to_bytes pdu) 0 socket"

lemma udp_send_block: "(SendBlock, ss') = udp_send_to bs ss \<Longrightarrow> length ss' < length ss"
  by (cases "(bs, ss)" rule: udp_send_to.cases) auto

text \<open>
  The loop of \<open>UdpWrapper::send\<close>: one datagram, tried again (after a sleep) when the socket
  would block; a datagram that is sent only in part is a panic.
\<close>

function udp_send_loop :: "u8 list \<Rightarrow> socket_addr \<Rightarrow> udp_socket \<Rightarrow> udp_socket outcome" where
  "udp_send_loop bytes rec u =
     (case udp_send_to bytes (sends u) of (r, ss) \<Rightarrow>
       (case r of
          SendOk amt \<Rightarrow>
            if amt \<noteq> length bytes then Panic (ShortDatagram amt (length bytes))
            else Ret (u\<lparr>sends := ss, sent_datagrams := sent_datagrams u @ [(rec, bytes)]\<rparr>)
        | SendBlock \<Rightarrow> udp_send_loop bytes rec (u\<lparr>sends := ss\<rparr>)
        | SendErr \<Rightarrow> Panic SocketError
        | SendNever \<Rightarrow> Blocked))"
  by pat_completeness auto
termination
  by (relation "measure (\<lambda>(bytes, rec, u). length (sends u))") (auto dest: udp_send_block)

declare udp_send_loop.simps [simp del]

definition UdpWrapper_send :: "wrapper \<Rightarrow> udp_socket \<Rightarrow> PDU \<Rightarrow> socket_addr \<Rightarrow> udp_socket outcome" where
  "UdpWrapper_send w socket pdu rec = udp_send_loop (to_bytes pdu) rec socket"

section \<open>Receiving\<close>

text \<open>\<open>buffer.copy_within(start..stop, 0)\<close>.\<close>

definition copy_within0 :: "nat \<Rightarrow> nat \<Rightarrow> 'a list \<Rightarrow> 'a list outcome" where
  "copy_within0 start stop buf =
     (if start \<le> stop \<and> stop \<le> length buf
      then Ret (take (stop - start) (drop start buf) @ drop (stop - start) buf)
      else Panic SliceIndex)"

text \<open>What a read of \<open>bs\<close> into \<open>buf[fill..]\<close> leaves in the buffer.\<close>

definition overwrite :: "'a list \<Rightarrow> nat \<Rightarrow> 'a list \<Rightarrow> 'a list" where
  "overwrite buf fill bs = take fill buf @ bs @ drop (fill + length bs) buf"

text \<open>
  The parse loop of \<open>try_read\<close>, the same text in both wrappers: while the filled part of the
  buffer starts with a PDU, queue it with its sender and move the rest of the buffer to the
  front.  \<open>sender\<close> is \<open>peer_addr().unwrap()\<close> of a stream, the source of a datagram.
\<close>

function parse_loop :: "socket_addr outcome \<Rightarrow> wrapper \<Rightarrow> wrapper outcome" where
  "parse_loop sender w =
     obind (slice_to (buffer_fill w) (buffer w)) (\<lambda>filled.
     obind (parse_pdu filled) (\<lambda>r.
       case r of
         None \<Rightarrow> Ret w
       | Some (pdu, used) \<Rightarrow>
           obind sender (\<lambda>src.
           obind (copy_within0 used (buffer_fill w) (buffer w)) (\<lambda>buf.
           parse_loop sender
             (w\<lparr>incoming_queue := incoming_queue w @ [(pdu, src)], buffer := buf,
                buffer_fill := buffer_fill w - used\<rparr>)))))"
  by pat_completeness auto
termination
  by (relation "measure (\<lambda>(sender, w). buffer_fill w)")
    (auto simp: slice_to_def split: if_splits dest!: wire.dec_used)

declare parse_loop.simps [simp del]

function tcp_read_loop :: "wrapper \<Rightarrow> rd list \<Rightarrow> (wrapper \<times> rd list \<times> bool) outcome" where
  "tcp_read_loop w rs =
     obind (slice_from (buffer_fill w) (buffer w)) (\<lambda>space.
       case tcp_read (length space) rs of (r, rs') \<Rightarrow>
         (case r of
            ReadOk bs \<Rightarrow>
              if length bs = 0 then Ret (w, rs', True)
              else tcp_read_loop
                (w\<lparr>buffer := overwrite (buffer w) (buffer_fill w) bs,
                   buffer_fill := buffer_fill w + length bs\<rparr>) rs'
          | ReadBlock \<Rightarrow> Ret (w, rs', False)
          | ReadErr \<Rightarrow> Panic SocketError))"
  by pat_completeness auto
termination
  by (relation "measure (\<lambda>(w, rs). length (pending rs))")
    (auto dest!: sym [of "(ReadOk _, _)"] dest: tcp_read_less)

declare tcp_read_loop.simps [simp del]

definition unwrap_io :: "'a option \<Rightarrow> 'a outcome" where
  "unwrap_io r = (case r of None \<Rightarrow> Panic UnwrapErr | Some x \<Rightarrow> Ret x)"

definition TcpWrapper_try_read :: "wrapper \<Rightarrow> tcp_stream \<Rightarrow> (wrapper \<times> tcp_stream \<times> bool) outcome" where
  "TcpWrapper_try_read w socket =
     obind (tcp_read_loop w (inbox socket)) (\<lambda>(w, rs, closed).
     obind (parse_loop (unwrap_io (peer_addr socket)) w) (\<lambda>w.
     Ret (w, socket\<lparr>inbox := rs\<rparr>, closed)))"

function udp_read_loop :: "wrapper \<Rightarrow> dgram list \<Rightarrow> (wrapper \<times> dgram list) outcome" where
  "udp_read_loop w ds =
     obind (slice_from (buffer_fill w) (buffer w)) (\<lambda>space.
       case udp_recv_from (length space) ds of (r, ds') \<Rightarrow>
         (case r of
            RecvOk bs src \<Rightarrow>
              obind (parse_loop (Ret src)
                (w\<lparr>buffer := overwrite (buffer w) (buffer_fill w) bs,
                   buffer_fill := buffer_fill w + length bs\<rparr>)) (\<lambda>w.
              udp_read_loop w ds')
          | RecvBlock \<Rightarrow> Ret (w, ds')
          | RecvErr \<Rightarrow> Panic SocketError))"
  by pat_completeness auto
termination
  by (relation "measure (\<lambda>(w, ds). length ds)")
    (auto dest!: sym [of "(RecvOk _ _, _)"] dest: udp_recv_less)

declare udp_read_loop.simps [simp del]

definition UdpWrapper_try_read :: "wrapper \<Rightarrow> udp_socket \<Rightarrow> (wrapper \<times> udp_socket) outcome" where
  "UdpWrapper_try_read w socket =
     obind (udp_read_loop w (arrivals socket)) (\<lambda>(w, ds). Ret (w, socket\<lparr>arrivals := ds\<rparr>))"

end
