(* ===== verification/Wrapper_Facts.thy ===== *)
theory Wrapper_Facts
  imports Socket_Wrapper
begin

text \<open>
  What the socket wrappers guarantee: their buffer never overflows, sending writes exactly
  the bytes of the PDU whatever the short writes, and receiving queues exactly the frames of
  the bytes that arrived, in order, however the bytes were cut into reads.
\<close>

section \<open>The buffer invariant\<close>

definition wf_wrapper :: "wrapper \<Rightarrow> bool" where
  "wf_wrapper w \<longleftrightarrow> length (buffer w) = BUFFER_SIZE \<and> buffer_fill w \<le> BUFFER_SIZE"

text \<open>The received bytes that are not parsed yet.\<close>

definition buffered :: "wrapper \<Rightarrow> u8 list" where
  "buffered w = take (buffer_fill w) (buffer w)"

definition free_space :: "wrapper \<Rightarrow> nat" where
  "free_space w = BUFFER_SIZE - buffer_fill w"

lemma TcpWrapper_new_facts [simp]:
  "wf_wrapper TcpWrapper_new" "buffered TcpWrapper_new = []" "incoming_queue TcpWrapper_new = []"
  "free_space TcpWrapper_new = BUFFER_SIZE"
  by (simp_all add: TcpWrapper_new_def wf_wrapper_def buffered_def free_space_def)

lemma UdpWrapper_new_facts [simp]:
  "wf_wrapper UdpWrapper_new" "buffered UdpWrapper_new = []" "incoming_queue UdpWrapper_new = []"
  "free_space UdpWrapper_new = BUFFER_SIZE"
  by (simp_all add: UdpWrapper_new_def wf_wrapper_def buffered_def free_space_def)

lemma length_buffered [simp]: "wf_wrapper w \<Longrightarrow> length (buffered w) = buffer_fill w"
  by (simp add: wf_wrapper_def buffered_def)

text \<open>Reading into the free part of the buffer appends to the buffered bytes.\<close>

definition filled :: "wrapper \<Rightarrow> u8 list \<Rightarrow> wrapper" where
  "filled w bs = w\<lparr>buffer := overwrite (buffer w) (buffer_fill w) bs,
     buffer_fill := buffer_fill w + length bs\<rparr>"

lemma filled_facts:
  assumes "wf_wrapper w" "length bs \<le> free_space w"
  shows "wf_wrapper (filled w bs)" "buffered (filled w bs) = buffered w @ bs"
    "incoming_queue (filled w bs) = incoming_queue w"
    "free_space (filled w bs) = free_space w - length bs"
  using assms
  by (auto simp: wf_wrapper_def free_space_def buffered_def filled_def overwrite_def)

text \<open>Taking a frame off the front removes its bytes from the buffered ones.\<close>

definition taken :: "wrapper \<Rightarrow> PDU \<Rightarrow> socket_addr \<Rightarrow> nat \<Rightarrow> wrapper" where
  "taken w p a n = w\<lparr>incoming_queue := incoming_queue w @ [(p, a)],
     buffer := take (buffer_fill w - n) (drop n (buffer w)) @ drop (buffer_fill w - n) (buffer w),
     buffer_fill := buffer_fill w - n\<rparr>"

lemma taken_facts:
  assumes "wf_wrapper w" "n \<le> buffer_fill w"
  shows "wf_wrapper (taken w p a n)" "buffered (taken w p a n) = drop n (buffered w)"
    "incoming_queue (taken w p a n) = incoming_queue w @ [(p, a)]"
  using assms by (auto simp: taken_def wf_wrapper_def buffered_def drop_take)

section \<open>The parse loop queues the frames\<close>

lemmas wire_done = frames_done [where dec = parse_pdu]
lemmas wire_more = frames_more [where dec = parse_pdu]

lemma parse_loop_eq:
  assumes "wf_wrapper w"
  shows "parse_loop sender w = obind (parse_pdu (buffered w)) (\<lambda>r. case r of
      None \<Rightarrow> Ret w
    | Some (p, n) \<Rightarrow> obind sender (\<lambda>a. parse_loop sender (taken w p a n)))"
proof -
  have b: "slice_to (buffer_fill w) (buffer w) = Ret (buffered w)"
    using assms by (simp add: slice_to_def wf_wrapper_def buffered_def)
  have c: "copy_within0 n (buffer_fill w) (buffer w) =
      Ret (take (buffer_fill w - n) (drop n (buffer w)) @ drop (buffer_fill w - n) (buffer w))"
    if "parse_pdu (buffered w) = Ret (Some (p, n))" for p n
    using wire.dec_used [OF that] assms by (simp add: copy_within0_def) (simp add: wf_wrapper_def)
  show ?thesis
    by (subst parse_loop.simps)
      (cases "parse_pdu (buffered w)", auto simp: b c taken_def split: option.split)
qed

lemma parse_loop_frames:
  assumes "frames parse_pdu b ps r" "wf_wrapper w" "b = buffered w"
  shows "\<exists>w'. parse_loop (Ret a) w = Ret w' \<and> wf_wrapper w' \<and> buffered w' = r \<and>
    incoming_queue w' = incoming_queue w @ map (\<lambda>p. (p, a)) ps"
  using assms
proof (induction arbitrary: w rule: frames.induct)
  case (frames_done b)
  then show ?case
    by (subst parse_loop_eq [OF frames_done.prems(1)]) simp
next
  case (frames_more b p n ps r)
  have n: "n \<le> buffer_fill w"
    using wire.dec_used [OF frames_more.hyps(1)] frames_more.prems by simp
  note t = taken_facts [OF frames_more.prems(1) n, of p a]
  have "parse_loop (Ret a) w = parse_loop (Ret a) (taken w p a n)"
    by (subst parse_loop_eq [OF frames_more.prems(1)])
      (use frames_more.hyps(1) frames_more.prems(2) in simp)
  moreover obtain w' where "parse_loop (Ret a) (taken w p a n) = Ret w'" "wf_wrapper w'"
    "buffered w' = r"
    "incoming_queue w' = incoming_queue (taken w p a n) @ map (\<lambda>p. (p, a)) ps"
    using frames_more.IH [OF t(1)] t(2) frames_more.prems(2) by auto
  ultimately show ?case using t(3) by simp
qed

lemma parse_loop_SomeD:
  assumes "parse_loop sender w = Ret w'" "wf_wrapper w" "parse_pdu (buffered w) = Ret (Some (p, n))"
  shows "\<exists>a. sender = Ret a \<and> parse_loop sender (taken w p a n) = Ret w'"
  using assms(1) unfolding parse_loop_eq [OF assms(2)] assms(3) by (simp add: obind_eq_Ret)

lemma parse_loop_returns:
  assumes "parse_loop sender w = Ret w'" "wf_wrapper w"
  shows "\<exists>ps r. frames parse_pdu (buffered w) ps r \<and> (ps \<noteq> [] \<longrightarrow> (\<exists>a. sender = Ret a))"
  using assms
proof (induction "buffer_fill w" arbitrary: w rule: less_induct)
  case less
  from less.prems obtain x where x: "parse_pdu (buffered w) = Ret x"
    using parse_loop_eq [OF less.prems(2), of sender] by (auto simp: outcome_split)
  show ?case
  proof (cases x)
    case None
    then show ?thesis using wire_done x by blast
  next
    case (Some pn)
    obtain p n where pn: "x = Some (p, n)" using Some by (cases pn) auto
    have n: "0 < n" "n \<le> buffer_fill w"
      using wire.dec_used x pn less.prems(2) by fastforce+
    obtain a where a: "sender = Ret a" "parse_loop sender (taken w p a n) = Ret w'"
      using parse_loop_SomeD [OF less.prems x [unfolded pn]] by blast
    have "buffer_fill (taken w p a n) < buffer_fill w"
      using n by (simp add: taken_def)
    from less.hyps [OF this a(2) taken_facts(1) [OF less.prems(2) n(2)]]
    obtain ps r where "frames parse_pdu (drop n (buffered w)) ps r"
      unfolding taken_facts(2) [OF less.prems(2) n(2)] by blast
    then show ?thesis
      using wire_more [OF x [unfolded pn]] a(1) by blast
  qed
qed

lemma parse_loop_Ret:
  assumes "parse_loop (Ret a) w = Ret w'" "wf_wrapper w"
  obtains ps where "frames parse_pdu (buffered w) ps (buffered w')" "wf_wrapper w'"
    "incoming_queue w' = incoming_queue w @ map (\<lambda>p. (p, a)) ps"
proof -
  obtain ps r where f: "frames parse_pdu (buffered w) ps r"
    using parse_loop_returns [OF assms] by blast
  with parse_loop_frames [OF f assms(2) refl, of a] assms(1) that show ?thesis by auto
qed

section \<open>Reading a stream\<close>

text \<open>
  As long as the pending bytes leave room in the buffer, reading takes in all bytes up to
  the end of the script, a \<open>WouldBlock\<close> or the end of the stream.
\<close>

lemma tcp_read_loop_eq:
  assumes "wf_wrapper w"
  shows "tcp_read_loop w rs = (case tcp_read (free_space w) rs of (r, rs') \<Rightarrow>
    (case r of
       ReadOk bs \<Rightarrow> if bs = [] then Ret (w, rs', True) else tcp_read_loop (filled w bs) rs'
     | ReadBlock \<Rightarrow> Ret (w, rs', False)
     | ReadErr \<Rightarrow> Panic SocketError))"
proof -
  have "slice_from (buffer_fill w) (buffer w) = Ret (drop (buffer_fill w) (buffer w))"
    and "length (drop (buffer_fill w) (buffer w)) = free_space w"
    using assms by (simp_all add: slice_from_def wf_wrapper_def free_space_def)
  then show ?thesis
    by (subst tcp_read_loop.simps)
      (simp add: filled_def split: prod.splits read_result.splits)
qed

lemma tcp_read_loop_wf:
  assumes "tcp_read_loop w rs = Ret (w', rs', c)" "wf_wrapper w"
  shows "wf_wrapper w' \<and> incoming_queue w' = incoming_queue w \<and>
    (\<exists>bs. buffered w' = buffered w @ bs \<and> pending rs = bs @ pending rs')"
  using assms
proof (induction "length (pending rs)" arbitrary: w rs rule: less_induct)
  case less
  obtain r rs1 where r: "tcp_read (free_space w) rs = (r, rs1)" by fastforce
  show ?case
  proof (cases r)
    case (ReadOk bs)
    note p = tcp_read_pending [OF r [unfolded ReadOk]]
    show ?thesis
    proof (cases "bs = []")
      case True
      then show ?thesis
        using less.prems p tcp_read_loop_eq [OF less.prems(2), of rs] r ReadOk by simp
    next
      case False
      note f = filled_facts [OF less.prems(2), of bs]
      have "tcp_read_loop (filled w bs) rs1 = Ret (w', rs', c)"
        using less.prems(1) tcp_read_loop_eq [OF less.prems(2), of rs] r ReadOk False by simp
      then obtain cs where "wf_wrapper w'" "incoming_queue w' = incoming_queue w"
        "buffered w' = (buffered w @ bs) @ cs" "pending rs1 = cs @ pending rs'"
        using less.hyps [of rs1 "filled w bs"] tcp_read_less r ReadOk False f p by auto
      then show ?thesis using p by auto
    qed
  next
    case ReadBlock
    have "pending rs = pending rs1"
      using r ReadBlock by (induction "free_space w" rs rule: tcp_read.induct) auto
    then show ?thesis
      using less.prems tcp_read_loop_eq [OF less.prems(2), of rs] r ReadBlock by simp
  next
    case ReadErr
    then show ?thesis
      using less.prems tcp_read_loop_eq [OF less.prems(2), of rs] r by simp
  qed
qed

lemma tcp_read_loop_skip: "wf_wrapper w \<Longrightarrow> tcp_read_loop w (RData [] # rs) = tcp_read_loop w rs"
  by (simp add: tcp_read_loop_eq [of w "RData [] # rs"] tcp_read_loop_eq [of w rs])

text \<open>A burst of chunks, in any cut, that fits in the buffer is taken in completely.\<close>

lemma tcp_read_loop_chunks:
  assumes "wf_wrapper w" "length (concat cs) \<le> free_space w" "rs = [] \<or> (\<exists>rs'. rs = RWouldBlock # rs')"
  shows "\<exists>w'. tcp_read_loop w (map RData cs @ rs) = Ret (w', tl rs, False) \<and> wf_wrapper w' \<and>
    buffered w' = buffered w @ concat cs \<and> incoming_queue w' = incoming_queue w"
  using assms(1,2)
proof (induction cs arbitrary: w)
  case Nil
  then show ?case using assms(3) by (auto simp: tcp_read_loop_eq)
next
  case (Cons c cs)
  show ?case
  proof (cases c)
    case Nil
    then show ?thesis using Cons by (simp add: tcp_read_loop_skip)
  next
    case (Cons x c')
    have len: "length c \<le> free_space w" using Cons.prems by simp
    note f = filled_facts [OF Cons.prems(1) len]
    have "tcp_read_loop w (map RData (c # cs) @ rs) = tcp_read_loop (filled w c) (map RData cs @ rs)"
      by (subst tcp_read_loop_eq [OF Cons.prems(1)]) (use len Cons in simp)
    then show ?thesis using Cons.IH [OF f(1)] f Cons.prems by auto
  qed
qed

lemma TcpWrapper_try_read_chunks:
  assumes "wf_wrapper w" "length (buffered w @ concat cs) \<le> BUFFER_SIZE"
    and "inbox s = map RData cs @ rs" "rs = [] \<or> (\<exists>rs'. rs = RWouldBlock # rs')"
    and "peer_addr s = Some a" "frames parse_pdu (buffered w @ concat cs) ps r"
  shows "\<exists>w'. TcpWrapper_try_read w s = Ret (w', s\<lparr>inbox := tl rs\<rparr>, False) \<and> wf_wrapper w' \<and>
    buffered w' = r \<and> incoming_queue w' = incoming_queue w @ map (\<lambda>p. (p, a)) ps"
proof -
  have "length (concat cs) \<le> free_space w"
    using assms(1,2) by (simp add: free_space_def)
  then obtain w1 where w1: "tcp_read_loop w (inbox s) = Ret (w1, tl rs, False)" "wf_wrapper w1"
    "buffered w1 = buffered w @ concat cs" "incoming_queue w1 = incoming_queue w"
    using tcp_read_loop_chunks [OF assms(1) _ assms(4)] assms(3) by metis
  with parse_loop_frames [OF assms(6) w1(2), of a] show ?thesis
    by (auto simp: TcpWrapper_try_read_def unwrap_io_def assms(5))
qed

text \<open>
  \<open>try_read\<close> keeps the invariant and changes nothing of the socket but its inbox; what it
  takes from the inbox is queued as frames or stays buffered.
\<close>

lemma TcpWrapper_try_read_facts:
  assumes "TcpWrapper_try_read w s = Ret (w', s', c)" "wf_wrapper w"
  shows "wf_wrapper w' \<and> s' = s\<lparr>inbox := inbox s'\<rparr> \<and>
    (\<exists>bs ps ms. pending (inbox s) = bs @ pending (inbox s') \<and>
      frames parse_pdu (buffered w @ bs) ps (buffered w') \<and>
      incoming_queue w' = incoming_queue w @ ms \<and> map fst ms = ps)"
proof -
  from assms(1) obtain w1 rs where 1: "tcp_read_loop w (inbox s) = Ret (w1, rs, c)"
    and 2: "parse_loop (unwrap_io (peer_addr s)) w1 = Ret w'" and s': "s' = s\<lparr>inbox := rs\<rparr>"
    by (auto simp: TcpWrapper_try_read_def obind_eq_Ret)
  from tcp_read_loop_wf [OF 1 assms(2)] obtain bs where w1: "wf_wrapper w1"
    "incoming_queue w1 = incoming_queue w" "buffered w1 = buffered w @ bs"
    "pending (inbox s) = bs @ pending rs" by blast
  from parse_loop_returns [OF 2 w1(1)] obtain ps r where
    f: "frames parse_pdu (buffered w1) ps r" "ps \<noteq> [] \<longrightarrow> (\<exists>a. unwrap_io (peer_addr s) = Ret a)"
    by blast
  show ?thesis
  proof (cases "ps = []")
    case True
    then have "parse_pdu (buffered w1) = Ret None" "r = buffered w1"
      using f(1) by (auto elim: frames.cases)
    then have "w' = w1"
      using 2 by (simp add: parse_loop_eq [OF w1(1)])
    then show ?thesis using w1 f(1) True \<open>r = _\<close> s' by auto
  next
    case False
    then obtain a where "unwrap_io (peer_addr s) = Ret a" using f(2) by blast
    with parse_loop_frames [OF f(1) w1(1) refl, of a] 2
    have "wf_wrapper w'" "buffered w' = r" "incoming_queue w' = incoming_queue w1 @ map (\<lambda>p. (p, a)) ps"
      by auto
    then show ?thesis using w1 f(1) s'
      by (auto intro!: exI [of _ bs] exI [of _ "map (\<lambda>p. (p, a)) ps"] simp: comp_def)
  qed
qed

text \<open>
  When more bytes are waiting than the buffer has room for, the buffer fills up, the next
  read gets an empty slice and returns 0, and the stream is taken for closed.
\<close>

lemma tcp_read_loop_full:
  assumes "wf_wrapper w" "free_space w < length (concat cs)"
  shows "\<exists>w' rs. tcp_read_loop w (map RData cs) = Ret (w', rs, True) \<and>
    pending rs \<noteq> [] \<and> free_space w' = 0"
  using assms
proof (induction cs arbitrary: w)
  case Nil
  then show ?case by simp
next
  case (Cons c cs)
  show ?case
  proof (cases "length c \<le> free_space w")
    case True
    note f = filled_facts [OF Cons.prems(1) True]
    have "tcp_read_loop w (map RData (c # cs)) = tcp_read_loop (filled w c) (map RData cs)"
    proof (cases c)
      case Nil
      then have "filled w c = w" by (simp add: filled_def overwrite_def)
      then show ?thesis using Nil tcp_read_loop_skip [OF Cons.prems(1)] by simp
    next
      case (Cons x c')
      then show ?thesis using True by (subst tcp_read_loop_eq [OF \<open>wf_wrapper w\<close>]) simp
    qed
    moreover have "free_space (filled w c) < length (concat cs)"
      using f(4) Cons.prems(2) True by simp
    ultimately show ?thesis using Cons.IH [OF f(1)] by simp
  next
    case False
    let ?t = "take (free_space w) c" and ?d = "drop (free_space w) c"
    have f: "wf_wrapper (filled w ?t)" "free_space (filled w ?t) = 0"
      using filled_facts [OF Cons.prems(1), of ?t] False by auto
    obtain x d where d: "?d = x # d" using False by (cases ?d) auto
    have "tcp_read_loop w (map RData (c # cs)) = tcp_read_loop (filled w ?t) (RData ?d # map RData cs)"
    proof (cases "?t = []")
      case True
      then have "free_space w = 0" using False by auto
      then show ?thesis using True d by (simp add: filled_def overwrite_def)
    next
      case False': False
      then show ?thesis using False
        by (subst tcp_read_loop_eq [OF Cons.prems(1)]) (cases c, auto)
    qed
    moreover have "tcp_read_loop (filled w ?t) (RData ?d # map RData cs) =
        Ret (filled w ?t, RData ?d # map RData cs, True)"
      by (subst tcp_read_loop_eq [OF f(1)]) (simp add: f(2) d)
    ultimately show ?thesis using f d by auto
  qed
qed

section \<open>Sending on a stream\<close>

text \<open>A script on which every write eventually succeeds.\<close>

definition writable :: "tcp_stream \<Rightarrow> bool" where
  "writable s \<longleftrightarrow> WError \<notin> set (writes s) \<and> WStall \<notin> set (writes s)"

lemma tcp_send_loop_facts:
  assumes "tcp_send_loop bytes sent s = Ret s'" "sent \<le> length bytes"
  shows "s' = s\<lparr>writes := writes s', outbox := outbox s @ drop sent bytes\<rparr> \<and>
    (\<exists>ws. writes s = ws @ writes s')"
  using assms
proof (induction bytes sent s rule: tcp_send_loop.induct)
  case (1 bytes sent s)
  show ?case
  proof (cases "sent = length bytes")
    case True
    then show ?thesis using "1.prems"(1) tcp_send_loop.simps [of bytes sent s] by simp
  next
    case False
    then have sl: "slice_from sent bytes = Ret (drop sent bytes)"
      using "1.prems" by (simp add: slice_from_def)
    obtain r ws where w: "tcp_write (drop sent bytes) (writes s) = (r, ws)" by fastforce
    have pre: "\<exists>vs. writes s = vs @ ws"
      using w by (cases "(drop sent bytes, writes s)" rule: tcp_write.cases) auto
    show ?thesis
    proof (cases r)
      case (WriteOk amt)
      have amt: "amt \<le> length (drop sent bytes)"
        using tcp_write_ok [of amt ws "drop sent bytes" "writes s"] w WriteOk by simp
      have "tcp_send_loop bytes (sent + amt)
          (s\<lparr>writes := ws, outbox := outbox s @ take amt (drop sent bytes)\<rparr>) = Ret s'"
        using "1.prems" False sl w WriteOk by (simp add: tcp_send_loop.simps [of bytes sent s])
      from "1.IH"(1) [OF False sl w [symmetric] WriteOk this] amt "1.prems"(2)
      have IH: "s' = s\<lparr>writes := writes s',
          outbox := outbox s @ take amt (drop sent bytes) @ drop (sent + amt) bytes\<rparr>"
        and ws: "\<exists>us. ws = us @ writes s'" by simp_all
      have "take amt (drop sent bytes) @ drop (sent + amt) bytes = drop sent bytes"
        by (metis append_take_drop_id drop_drop add.commute)
      with IH ws pre show ?thesis by auto
    next
      case WriteBlock
      have "tcp_send_loop bytes sent (s\<lparr>writes := ws\<rparr>) = Ret s'"
        using "1.prems" False sl w WriteBlock by (simp add: tcp_send_loop.simps [of bytes sent s])
      from "1.IH"(2) [OF False sl w [symmetric] WriteBlock this] "1.prems"(2) pre
      show ?thesis by auto
    next
      case WriteErr
      then show ?thesis using "1.prems" False sl w by (simp add: tcp_send_loop.simps [of bytes sent s])
    next
      case WriteNever
      then show ?thesis using "1.prems" False sl w by (simp add: tcp_send_loop.simps [of bytes sent s])
    qed
  qed
qed

lemma tcp_send_loop_writable:
  assumes "writable s" "sent \<le> length bytes"
  shows "\<exists>s'. tcp_send_loop bytes sent s = Ret s'"
  using assms
proof (induction bytes sent s rule: tcp_send_loop.induct)
  case (1 bytes sent s)
  show ?case
  proof (cases "sent = length bytes")
    case True
    then show ?thesis using tcp_send_loop.simps [of bytes sent s] by simp
  next
    case False
    then have sl: "slice_from sent bytes = Ret (drop sent bytes)"
      using "1.prems" by (simp add: slice_from_def)
    obtain r ws where w: "tcp_write (drop sent bytes) (writes s) = (r, ws)" by fastforce
    have ws: "set ws \<subseteq> set (writes s)" "r \<noteq> WriteErr" "r \<noteq> WriteNever"
      using w "1.prems"(1)
      by (cases "(drop sent bytes, writes s)" rule: tcp_write.cases; auto simp: writable_def)+
    show ?thesis
    proof (cases r)
      case (WriteOk amt)
      have "amt \<le> length (drop sent bytes)"
        using tcp_write_ok [of amt ws "drop sent bytes" "writes s"] w WriteOk by simp
      then have "sent + amt \<le> length bytes" using "1.prems"(2) by simp
      with "1.IH"(1) [OF False sl w [symmetric] WriteOk] "1.prems"(1) ws(1) show ?thesis
        using False sl w WriteOk by (auto simp: tcp_send_loop.simps [of bytes sent s] writable_def)
    next
      case WriteBlock
      with "1.IH"(2) [OF False sl w [symmetric] WriteBlock] "1.prems" ws(1) show ?thesis
        using False sl w by (auto simp: tcp_send_loop.simps [of bytes sent s] writable_def)
    qed (use ws in auto)
  qed
qed

lemma TcpWrapper_send_facts:
  "TcpWrapper_send w s p = Ret s' \<Longrightarrow> s' = s\<lparr>writes := writes s', outbox := outbox s @ to_bytes p\<rparr>"
  using tcp_send_loop_facts [of "to_bytes p" 0 s s'] by (simp add: TcpWrapper_send_def)

lemma TcpWrapper_send_writable:
  assumes "writable s"
  shows "\<exists>s'. TcpWrapper_send w s p = Ret s' \<and> writable s'"
proof -
  obtain s' where s': "tcp_send_loop (to_bytes p) 0 s = Ret s'"
    using tcp_send_loop_writable [OF assms, of 0] by auto
  then have "\<exists>ws. writes s = ws @ writes s'"
    using tcp_send_loop_facts [OF s'] by simp
  then have "writable s'" using assms by (auto simp: writable_def)
  with s' show ?thesis by (simp add: TcpWrapper_send_def)
qed

section \<open>A stream from end to end\<close>

text \<open>
  Rounds of \<open>try_read\<close>: before each one the network delivers some more chunks.
\<close>

fun tcp_receive_rounds :: "wrapper \<Rightarrow> tcp_stream \<Rightarrow> u8 list list list \<Rightarrow> (wrapper \<times> tcp_stream) outcome"
  where
  "tcp_receive_rounds w s [] = Ret (w, s)"
| "tcp_receive_rounds w s (cs # css) =
     obind (TcpWrapper_try_read w (s\<lparr>inbox := inbox s @ map RData cs\<rparr>)) (\<lambda>(w, s, closed).
     tcp_receive_rounds w s css)"

text \<open>
  The cut of the bytes into rounds is harmless when no round ends where the parser panics
  and no round brings more than the buffer holds beside an incomplete frame.
\<close>

definition clean_rounds :: "u8 list \<Rightarrow> u8 list list list \<Rightarrow> bool" where
  "clean_rounds b css \<longleftrightarrow>
     (\<forall>i \<le> length css. \<exists>ps r. frames parse_pdu (b @ concat (concat (take i css))) ps r) \<and>
     (\<forall>cs \<in> set css. length (concat cs) + 525 \<le> BUFFER_SIZE)"

lemma clean_rounds_Cons:
  assumes "clean_rounds b (cs # css)" "frames parse_pdu (b @ concat cs) ps r"
  shows "clean_rounds r css"
  unfolding clean_rounds_def
proof (intro conjI allI impI)
  fix i assume "i \<le> length css"
  then obtain us s where "frames parse_pdu ((b @ concat cs) @ concat (concat (take i css))) us s"
    using assms(1) unfolding clean_rounds_def
    by (metis append.assoc concat.simps(2) concat_append length_Cons not_less_eq_eq take_Suc_Cons)
  from wire.frames_split [OF assms(2) this]
  show "\<exists>ps s. frames parse_pdu (r @ concat (concat (take i css))) ps s" by blast
next
  show "\<forall>cs \<in> set css. length (concat cs) + 525 \<le> BUFFER_SIZE"
    using assms(1) by (simp add: clean_rounds_def)
qed

lemma tcp_receive_rounds_frames:
  assumes "wf_wrapper w" "inbox s = []" "peer_addr s = Some a"
    and "clean_rounds (buffered w) css" "parse_pdu (buffered w) = Ret None"
  shows "\<exists>w' us. tcp_receive_rounds w s css = Ret (w', s) \<and> wf_wrapper w' \<and>
    frames parse_pdu (buffered w @ concat (concat css)) us (buffered w') \<and>
    incoming_queue w' = incoming_queue w @ map (\<lambda>p. (p, a)) us"
  using assms(1,4,5)
proof (induction css arbitrary: w)
  case Nil
  then show ?case using wire_done by (auto intro!: exI [of _ "[]"])
next
  case (Cons cs css)
  obtain ps r where f: "frames parse_pdu (buffered w @ concat cs) ps r"
    using Cons.prems(2) by (force simp: clean_rounds_def dest: spec [of _ 1])
  let ?s = "s\<lparr>inbox := inbox s @ map RData cs\<rparr>"
  have "length (buffered w @ concat cs) \<le> BUFFER_SIZE"
    using parse_pdu_None_bound [OF Cons.prems(3)] Cons.prems(2) by (simp add: clean_rounds_def)
  then obtain w1 where w1: "TcpWrapper_try_read w ?s = Ret (w1, s, False)" "wf_wrapper w1"
    "buffered w1 = r" "incoming_queue w1 = incoming_queue w @ map (\<lambda>p. (p, a)) ps"
    using TcpWrapper_try_read_chunks [OF Cons.prems(1) _ _ _ _ f, of ?s "[]" a] assms(2,3) by auto
  have "clean_rounds (buffered w1) css" "parse_pdu (buffered w1) = Ret None"
    using clean_rounds_Cons [OF Cons.prems(2) f] frames_rest [OF f] w1(3) by simp_all
  from Cons.IH [OF w1(2) this] obtain w' us where w': "tcp_receive_rounds w1 s css = Ret (w', s)"
    "wf_wrapper w'" "frames parse_pdu (r @ concat (concat css)) us (buffered w')"
    "incoming_queue w' = incoming_queue w1 @ map (\<lambda>p. (p, a)) us"
    using w1(3) by blast
  have "frames parse_pdu (buffered w @ concat (concat (cs # css))) (ps @ us) (buffered w')"
    using wire.frames_append [OF f w'(3)] by simp
  then show ?case using w1 w' by auto
qed

text \<open>The sender's side: a sequence of PDUs on one stream.\<close>

fun tcp_send_all :: "wrapper \<Rightarrow> tcp_stream \<Rightarrow> PDU list \<Rightarrow> tcp_stream outcome" where
  "tcp_send_all w s [] = Ret s"
| "tcp_send_all w s (p # ps) = obind (TcpWrapper_send w s p) (\<lambda>s. tcp_send_all w s ps)"

lemma tcp_send_all_writable:
  assumes "writable s"
  shows "\<exists>s'. tcp_send_all w s ps = Ret s' \<and> outbox s' = outbox s @ concat (map to_bytes ps)"
  using assms
proof (induction ps arbitrary: s)
  case Nil
  then show ?case by simp
next
  case (Cons p ps)
  from TcpWrapper_send_writable [OF Cons.prems] obtain s1
    where s1: "TcpWrapper_send w s p = Ret s1" "writable s1" by blast
  have "outbox s1 = outbox s @ to_bytes p"
    using arg_cong [where f = outbox, OF TcpWrapper_send_facts [OF s1(1)]] by simp
  with Cons.IH [OF s1(2)] s1(1) show ?case by auto
qed

section \<open>Datagrams\<close>

lemma udp_send_loop_facts:
  "udp_send_loop bytes rec u = Ret u' \<Longrightarrow>
     u' = u\<lparr>sends := sends u', sent_datagrams := sent_datagrams u @ [(rec, bytes)]\<rparr>"
proof (induction bytes rec u rule: udp_send_loop.induct)
  case (1 bytes rec u)
  obtain r ss where r: "udp_send_to bytes (sends u) = (r, ss)" by fastforce
  show ?case
  proof (cases r)
    case SendBlock
    then have "udp_send_loop bytes rec (u\<lparr>sends := ss\<rparr>) = Ret u'"
      using "1.prems" r by (simp add: udp_send_loop.simps [of bytes rec u])
    from "1.IH" [OF r [symmetric] SendBlock this] show ?thesis by simp
  qed (use "1.prems" r in \<open>auto simp: udp_send_loop.simps [of bytes rec u] split: if_splits\<close>)
qed

lemma UdpWrapper_send_facts:
  "UdpWrapper_send w u p rec = Ret u' \<Longrightarrow>
     u' = u\<lparr>sends := sends u', sent_datagrams := sent_datagrams u @ [(rec, to_bytes p)]\<rparr>"
  by (simp add: UdpWrapper_send_def udp_send_loop_facts)

lemma UdpWrapper_send_ready [simp]:
  "sends u = [] \<Longrightarrow> UdpWrapper_send w u p rec =
     Ret (u\<lparr>sent_datagrams := sent_datagrams u @ [(rec, to_bytes p)]\<rparr>)"
  by (simp add: UdpWrapper_send_def udp_send_loop.simps)

lemma udp_read_loop_eq:
  assumes "wf_wrapper w"
  shows "udp_read_loop w ds = (case udp_recv_from (free_space w) ds of (r, ds') \<Rightarrow>
    (case r of
       RecvOk bs src \<Rightarrow> obind (parse_loop (Ret src) (filled w bs)) (\<lambda>w. udp_read_loop w ds')
     | RecvBlock \<Rightarrow> Ret (w, ds')
     | RecvErr \<Rightarrow> Panic SocketError))"
proof -
  have "slice_from (buffer_fill w) (buffer w) = Ret (drop (buffer_fill w) (buffer w))"
    and "length (drop (buffer_fill w) (buffer w)) = free_space w"
    using assms by (simp_all add: slice_from_def wf_wrapper_def free_space_def)
  then show ?thesis
    by (subst udp_read_loop.simps)
      (simp add: filled_def split: prod.splits recv_result.splits)
qed

text \<open>
  A datagram is parsed behind whatever is still buffered, and every frame that completes is
  attributed to the source of this datagram.
\<close>

lemma udp_read_loop_datagram:
  assumes "wf_wrapper w" "length bs \<le> free_space w" "frames parse_pdu (buffered w @ bs) ps r"
  shows "\<exists>w1. wf_wrapper w1 \<and> buffered w1 = r \<and>
    incoming_queue w1 = incoming_queue w @ map (\<lambda>p. (p, src)) ps \<and>
    udp_read_loop w (Datagram bs src # ds) = udp_read_loop w1 ds"
proof -
  note f = filled_facts [OF assms(1,2)]
  from parse_loop_frames [OF assms(3) f(1), of src] f obtain w1 where
    "parse_loop (Ret src) (filled w bs) = Ret w1" "wf_wrapper w1" "buffered w1 = r"
    "incoming_queue w1 = incoming_queue w @ map (\<lambda>p. (p, src)) ps" by auto
  then show ?thesis
    using assms(2) by (auto simp: udp_read_loop_eq [OF assms(1), of "Datagram bs src # ds"])
qed

lemma UdpWrapper_try_read_wf:
  assumes "UdpWrapper_try_read w u = Ret (w', u')" "wf_wrapper w"
  shows "wf_wrapper w' \<and> u' = u\<lparr>arrivals := arrivals u'\<rparr>"
proof -
  have "udp_read_loop w ds = Ret (w', ds') \<Longrightarrow> wf_wrapper w \<Longrightarrow> wf_wrapper w'" for ds ds'
  proof (induction "length ds" arbitrary: w ds rule: less_induct)
    case less
    obtain r ds1 where r: "udp_recv_from (free_space w) ds = (r, ds1)" by fastforce
    show ?case
    proof (cases r)
      case (RecvOk bs src)
      have "length bs \<le> free_space w"
        using r RecvOk by (cases "(free_space w, ds)" rule: udp_recv_from.cases) auto
      then have wf: "wf_wrapper (filled w bs)" using filled_facts less.prems(2) by blast
      obtain w1 where w1: "parse_loop (Ret src) (filled w bs) = Ret w1"
        "udp_read_loop w1 ds1 = Ret (w', ds')"
        using less.prems r RecvOk by (auto simp: udp_read_loop_eq [of w ds] obind_eq_Ret)
      then show ?thesis
        using less.hyps [OF udp_recv_less [OF r [unfolded RecvOk]] w1(2)] parse_loop_Ret [OF w1(1) wf]
        by blast
    qed (use less.prems r in \<open>auto simp: udp_read_loop_eq [of w ds]\<close>)
  qed
  then show ?thesis using assms by (auto simp: UdpWrapper_try_read_def obind_eq_Ret)
qed

end
