(* ===== verification/Udp_Facts.thy ===== *)
theory Udp_Facts
  imports Wrapper_Facts
begin

text \<open>
  What the node, the tracker and the client share about datagrams: sends that nothing
  hinders, and a round of \<open>try_read\<close> over datagrams that each hold one PDU.
\<close>

section \<open>Sending\<close>

definition udp_ready :: "udp_socket \<Rightarrow> bool" where
  "udp_ready u \<longleftrightarrow> set (sends u) \<subseteq> {SWouldBlock}"

lemma udp_send_loop_ready:
  "udp_ready u \<Longrightarrow> \<exists>ss. set ss \<subseteq> {SWouldBlock} \<and> udp_send_loop bs rec u =
     Ret (u\<lparr>sends := ss, sent_datagrams := sent_datagrams u @ [(rec, bs)]\<rparr>)"
proof (induction "sends u" arbitrary: u)
  case Nil
  then show ?case by (intro exI [of _ "[]"]) (simp add: udp_send_loop.simps [of bs rec u])
next
  case (Cons x xs)
  have x: "x = SWouldBlock" using Cons.prems Cons.hyps(2) by (auto simp: udp_ready_def dest: sym)
  have "udp_ready (u\<lparr>sends := xs\<rparr>)"
    using Cons.prems Cons.hyps(2) [symmetric] by (auto simp: udp_ready_def)
  from Cons.hyps(1) [OF _ this] show ?case
    using Cons.hyps(2) [symmetric] x by (simp add: udp_send_loop.simps [of bs rec u])
qed

lemma UdpWrapper_sends:
  assumes "udp_ready u"
  shows "\<exists>u'. UdpWrapper_send w u p a = Ret u' \<and> udp_ready u' \<and> arrivals u' = arrivals u \<and>
    sent_datagrams u' = sent_datagrams u @ [(a, to_bytes p)]"
  using udp_send_loop_ready [OF assms, of "to_bytes p" a]
  by (auto simp: UdpWrapper_send_def udp_ready_def)

lemma UdpWrapper_send_sent:
  assumes "UdpWrapper_send w u p a = Ret u'"
  shows "arrivals u' = arrivals u \<and> sent_datagrams u' = sent_datagrams u @ [(a, to_bytes p)]"
proof -
  obtain ss where "u' = u\<lparr>sends := ss, sent_datagrams := sent_datagrams u @ [(a, to_bytes p)]\<rparr>"
    using UdpWrapper_send_facts [OF assms] by blast
  then show ?thesis by simp
qed

section \<open>Receiving\<close>

text \<open>Each message in a datagram of its own.\<close>

definition datagrams :: "message list \<Rightarrow> dgram list" where
  "datagrams ms = map (\<lambda>(p, a). Datagram (to_bytes p) a) ms"

definition sendable :: "PDU \<Rightarrow> bool" where
  "sendable p \<longleftrightarrow> wf_pdu p \<and> length (to_bytes p) \<le> BUFFER_SIZE"

abbreviation received :: "message list \<Rightarrow> message list" where
  "received ms \<equiv> map (\<lambda>(p, a). (norm_pdu p, a)) ms"

lemma udp_read_many:
  assumes "wf_wrapper w" "buffered w = []" "list_all (sendable \<circ> fst) ms"
  shows "\<exists>w'. udp_read_loop w (datagrams ms @ ds) = udp_read_loop w' ds \<and> wf_wrapper w' \<and>
    buffered w' = [] \<and> incoming_queue w' = incoming_queue w @ received ms"
  using assms
proof (induction ms arbitrary: w)
  case Nil
  then show ?case by (auto simp: datagrams_def)
next
  case (Cons m ms)
  obtain p a where m: "m = (p, a)" by fastforce
  have p: "wf_pdu p" "length (to_bytes p) \<le> BUFFER_SIZE" using Cons.prems(3) m by (auto simp: sendable_def)
  have "free_space w = BUFFER_SIZE"
    using length_buffered [OF Cons.prems(1)] Cons.prems(2) by (simp add: free_space_def)
  moreover have "frames parse_pdu (to_bytes p) [norm_pdu p] []"
    using wire.frames_concat [of "[p]" "[]" "[]" "[]"] wire_done [of "[]"] p(1) by simp
  ultimately obtain w1 where w1: "wf_wrapper w1" "buffered w1 = []"
    "incoming_queue w1 = incoming_queue w @ [(norm_pdu p, a)]"
    "udp_read_loop w (Datagram (to_bytes p) a # datagrams ms @ ds) = udp_read_loop w1 (datagrams ms @ ds)"
    using udp_read_loop_datagram [OF Cons.prems(1), of "to_bytes p" "[norm_pdu p]" "[]" a] p(2) Cons.prems(2)
    by auto
  then show ?case using Cons.IH [OF w1(1,2)] Cons.prems(3) m by (auto simp: datagrams_def)
qed

text \<open>A round that ends because nothing more has arrived.\<close>

definition round_ends :: "dgram list \<Rightarrow> dgram list \<Rightarrow> bool" where
  "round_ends ds ds' \<longleftrightarrow> ds = DWouldBlock # ds' \<or> ds = [] \<and> ds' = []"

lemma UdpWrapper_reads:
  assumes "wf_wrapper w" "buffered w = []" "list_all (sendable \<circ> fst) ms"
    and "arrivals u = datagrams ms @ ds" "round_ends ds ds'"
  shows "\<exists>w'. UdpWrapper_try_read w u = Ret (w', u\<lparr>arrivals := ds'\<rparr>) \<and> wf_wrapper w' \<and>
    buffered w' = [] \<and> incoming_queue w' = incoming_queue w @ received ms"
proof -
  obtain w' where w': "udp_read_loop w (arrivals u) = udp_read_loop w' ds" "wf_wrapper w'"
    "buffered w' = []" "incoming_queue w' = incoming_queue w @ received ms"
    using udp_read_many [OF assms(1-3), of ds] assms(4) by auto
  have "udp_read_loop w' ds = Ret (w', ds')"
    using assms(5) by (auto simp: udp_read_loop_eq [OF w'(2)] round_ends_def)
  then show ?thesis using w' by (simp add: UdpWrapper_try_read_def)
qed

lemma udp_read_one:
  assumes "wf_wrapper w" "buffered w = []" "wf_pdu p" "length (to_bytes p) \<le> BUFFER_SIZE"
    and "arrivals u = Datagram (to_bytes p) a # DWouldBlock # ds"
  shows "\<exists>w'. UdpWrapper_try_read w u = Ret (w', u\<lparr>arrivals := ds\<rparr>) \<and> wf_wrapper w' \<and>
    buffered w' = [] \<and> incoming_queue w' = incoming_queue w @ [(norm_pdu p, a)]"
  using UdpWrapper_reads [of w "[(p, a)]" u "DWouldBlock # ds" ds] assms
  by (simp add: datagrams_def sendable_def round_ends_def)

text \<open>A round that returns has taken something off the script, if there was something.\<close>

lemma udp_read_loop_consumes:
  "udp_read_loop w ds = Ret (w', ds') \<Longrightarrow> ds \<noteq> [] \<Longrightarrow> length ds' < length ds"
proof (induction w ds rule: udp_read_loop.induct)
  case (1 w ds)
  obtain space where sp: "slice_from (buffer_fill w) (buffer w) = Ret space"
    using "1.prems"(1) udp_read_loop.simps [of w ds] by (auto simp: obind_eq_Ret)
  obtain r ds1 where r: "udp_recv_from (length space) ds = (r, ds1)" by fastforce
  have less: "r \<noteq> RecvErr \<Longrightarrow> length ds1 < length ds"
    using r "1.prems"(2) by (cases "(length space, ds)" rule: udp_recv_from.cases) auto
  show ?case
  proof (cases r)
    case (RecvOk bs src)
    then obtain w1 where p: "parse_loop (Ret src)
        (w\<lparr>buffer := overwrite (buffer w) (buffer_fill w) bs,
           buffer_fill := buffer_fill w + length bs\<rparr>) = Ret w1"
      and u: "udp_read_loop w1 ds1 = Ret (w', ds')"
      using "1.prems"(1) udp_read_loop.simps [of w ds] sp r by (auto simp: obind_eq_Ret)
    show ?thesis
    proof (cases "ds1 = []")
      case True
      then have "ds' = []" using u udp_read_loop.simps [of w1 "[]"] by (auto simp: obind_eq_Ret)
      then show ?thesis using "1.prems"(2) by simp
    next
      case False
      then show ?thesis using "1.IH" [OF sp r [symmetric] RecvOk p u] less RecvOk by simp
    qed
  next
    case RecvBlock
    then show ?thesis using "1.prems"(1) udp_read_loop.simps [of w ds] sp r less by auto
  next
    case RecvErr
    then show ?thesis using "1.prems"(1) udp_read_loop.simps [of w ds] sp r by auto
  qed
qed

section \<open>The answers of the tracker on the wire\<close>

lemma StunResponse_wire: "wf_pdu (StunResponse (StunResponsePdu_new a))"
  "norm_pdu (StunResponse (StunResponsePdu_new a)) = StunResponse (StunResponsePdu_new a)"
  "length (to_bytes (StunResponse (StunResponsePdu_new a))) \<le> BUFFER_SIZE"
  by (simp_all add: wf_pdu_def StunResponsePdu_new_def StunResponsePdu_to_vec_def BUFFER_SIZE_def)

lemma NetGetNodeResponse_wire: "wf_pdu (NetGetNodeResponse (NetGetNodeResponsePdu_new a p))"
  "norm_pdu (NetGetNodeResponse (NetGetNodeResponsePdu_new a p)) = NetGetNodeResponse (NetGetNodeResponsePdu_new a p)"
  "length (to_bytes (NetGetNodeResponse (NetGetNodeResponsePdu_new a p))) \<le> BUFFER_SIZE"
  by (simp_all add: wf_pdu_def NetGetNodeResponsePdu_new_def NetGetNodeResponsePdu_to_vec_def BUFFER_SIZE_def)

end
