(* ===== verification/Entry_Store.thy ===== *)
theory Entry_Store
  imports Dht_Prelude
begin

text \<open>
  \<open>Entry\<close> of \<^verbatim>\<open>resources/TestNode/src/bin/node.rs\<close>, its hash, and the operations the node
  performs on its vector of entries, with the contract they keep.
\<close>

section \<open>Entries and their hash\<close>

record entry =
  e_ssn :: rstring
  e_name :: rstring
  e_email :: rstring

definition Entry_new :: "rstring \<Rightarrow> rstring \<Rightarrow> rstring \<Rightarrow> entry" where
  "Entry_new ssn name email = \<lparr>e_ssn = ssn, e_name = name, e_email = email\<rparr>"

text \<open>Shifts drop the bits above the word and \<open>overflowing_add(..).0\<close> wraps around.\<close>

definition hash_ssn :: "rstring \<Rightarrow> u8" where
  "hash_ssn ssn =
     (let hash = foldl (\<lambda>hash c. (push_bit 5 hash + hash) + c) (5381 :: u32) ssn
      in ucast (hash mod 256))"

definition entry_hash :: "entry \<Rightarrow> u8" where
  "entry_hash e = hash_ssn (e_ssn e)"

text \<open>The same hash over unbounded numbers, with one reduction at the end.\<close>

definition djb2 :: "rstring \<Rightarrow> nat" where
  "djb2 ssn = foldl (\<lambda>h c. 33 * h + unat c) 5381 ssn"

lemma hash_step_mod:
  "unat ((push_bit 5 h + h) + c :: u32) mod 256 = (33 * (unat h mod 256) + unat c) mod 256"
proof -
  have "push_bit 5 h + h = 33 * h"
    by (simp add: push_bit_eq_mult)
  then have "unat ((push_bit 5 h + h) + c) = (33 * unat h + unat c) mod 2 ^ 32"
    by (simp add: unat_word_ariths mod_add_left_eq)
  moreover have "(33 * unat h + unat c) mod 2 ^ 32 mod 256 = (33 * unat h + unat c) mod 256"
    by (rule mod_mod_cancel) simp
  ultimately show ?thesis
    by (metis mod_add_left_eq mod_mult_right_eq)
qed

lemma hash_fold_mod:
  "unat (foldl (\<lambda>hash c. (push_bit 5 hash + hash) + c) (h :: u32) ssn) mod 256 =
     foldl (\<lambda>h c. 33 * h + unat c) m ssn mod 256"
  if "unat h mod 256 = m mod 256"
  using that
proof (induction ssn arbitrary: h m)
  case Nil
  then show ?case by simp
next
  case (Cons c ssn)
  have "unat ((push_bit 5 h + h) + c) mod 256 = (33 * m + unat c) mod 256"
    unfolding hash_step_mod Cons.prems by (metis mod_add_left_eq mod_mult_right_eq)
  from Cons.IH [OF this] show ?case by simp
qed

lemma unat_hash_ssn: "unat (hash_ssn ssn) = djb2 ssn mod 256"
proof -
  have "unat (hash_ssn ssn) = unat (foldl (\<lambda>hash c. (push_bit 5 hash + hash) + c) (5381 :: u32) ssn) mod 256"
    by (simp add: hash_ssn_def unsigned_ucast_eq unat_mod take_bit_eq_mod)
  also have "\<dots> = djb2 ssn mod 256"
    unfolding djb2_def by (rule hash_fold_mod) simp
  finally show ?thesis .
qed

section \<open>The contract of a store\<close>

text \<open>
  What the node relies on: an insertion never changes what is already found under a key, a
  removal takes away everything under its key and nothing else.
\<close>

locale entry_store =
  fixes add :: "'e \<Rightarrow> 's \<Rightarrow> 's" and del :: "'k \<Rightarrow> 's \<Rightarrow> 's"
    and lookup :: "'k \<Rightarrow> 's \<Rightarrow> 'e option" and key :: "'e \<Rightarrow> 'k"
  assumes lookup_add: "lookup k (add e s) =
      (case lookup k s of Some x \<Rightarrow> Some x | None \<Rightarrow> if key e = k then Some e else None)"
    and lookup_del: "lookup k (del j s) = (if k = j then None else lookup k s)"
begin

lemma lookup_add_same: "lookup (key e) s = None \<Longrightarrow> lookup (key e) (add e s) = Some e"
  by (simp add: lookup_add)

lemma lookup_add_other: "key e \<noteq> k \<Longrightarrow> lookup k (add e s) = lookup k s"
  by (simp add: lookup_add split: option.splits)

text \<open>A second insertion under a key is invisible until the key is removed.\<close>

lemma first_add_wins: "lookup (key e) s = Some x \<Longrightarrow> lookup (key e) (add e s) = Some x"
  by (simp add: lookup_add)

lemma del_add: "lookup k (add e (del (key e) s)) = (if k = key e then Some e else lookup k s)"
  by (simp add: lookup_add lookup_del split: option.splits)

lemma add_del: "lookup k (del (key e) (add e s)) = lookup k (del (key e) s)"
  by (simp add: lookup_add lookup_del split: option.splits)

end

section \<open>The vector of entries\<close>

text \<open>
  \<open>push\<close>, \<open>retain(|x| x.ssn != ssn)\<close>, and the \<open>for\<close> loop of the lookup, which stops at the
  first entry with the number.
\<close>

definition push_entry :: "entry \<Rightarrow> entry list \<Rightarrow> entry list" where
  "push_entry e vs = vs @ [e]"

definition retain_other :: "rstring \<Rightarrow> entry list \<Rightarrow> entry list" where
  "retain_other ssn vs = filter (\<lambda>x. e_ssn x \<noteq> ssn) vs"

fun first_entry :: "rstring \<Rightarrow> entry list \<Rightarrow> entry option" where
  "first_entry ssn [] = None"
| "first_entry ssn (e # es) = (if e_ssn e = ssn then Some e else first_entry ssn es)"

lemma first_entry_append:
  "first_entry ssn (xs @ ys) =
     (case first_entry ssn xs of Some e \<Rightarrow> Some e | None \<Rightarrow> first_entry ssn ys)"
  by (induction xs) auto

lemma first_entry_retain:
  "first_entry ssn (retain_other other vs) = (if ssn = other then None else first_entry ssn vs)"
  by (induction vs) (auto simp: retain_other_def)

lemma first_entry_None_iff: "first_entry ssn vs = None \<longleftrightarrow> (\<forall>e \<in> set vs. e_ssn e \<noteq> ssn)"
  by (induction vs) auto

lemma first_entry_Some: "first_entry ssn vs = Some e \<Longrightarrow> e \<in> set vs \<and> e_ssn e = ssn"
  by (induction vs) (auto split: if_splits)

lemma first_entry_filter:
  "(\<And>e. e_ssn e = ssn \<Longrightarrow> P e) \<Longrightarrow> first_entry ssn (filter P vs) = first_entry ssn vs"
  by (induction vs) auto

interpretation entries: entry_store push_entry retain_other first_entry e_ssn
  by unfold_locales
    (auto simp: push_entry_def first_entry_append first_entry_retain split: option.splits)

section \<open>Entries of a hash range\<close>

definition in_hash_range :: "u8 \<Rightarrow> u8 \<Rightarrow> u8 \<Rightarrow> bool" where
  "in_hash_range lo hi h \<longleftrightarrow> lo \<le> h \<and> h \<le> hi"

definition range_set :: "u8 \<times> u8 \<Rightarrow> u8 set" where
  "range_set r = {fst r .. snd r}"

lemma in_hash_range_set: "in_hash_range lo hi h \<longleftrightarrow> h \<in> range_set (lo, hi)"
  by (simp add: in_hash_range_def range_set_def)

end
