(* ===== verification/Node_Base.thy ===== *)
theory Node_Base
  imports Udp_Facts Entry_Store
begin

text \<open>
  The struct \<open>Node\<close> of \<^verbatim>\<open>resources/TestNode/src/bin/node.rs\<close> and its util functions.  The
  record holds the struct's fields, in the order of the source, and behind them the parts of
  the operating system the node calls: the clock, the results of the system calls whose
  \<open>Result\<close> is unwrapped, the results of \<open>connect\<close>, and the streams the node has dropped
  (dropping a stream closes the connection).  Log output (\<open>println!\<close>) is left out.
\<close>

section \<open>State\<close>

datatype node_state =
  Q1 | Q2 | Q3 | Q4 | Q5 | Q6 | Q7 | Q8 | Q9 | Q10 | Q11 | Q12 | Q13 | Q14 | Q15 | Q16 | Q17 | Q18

datatype source = SrcUDP socket_addr | SrcPredecessor socket_addr | SrcSuccessor socket_addr

text \<open>The tokens of the three polled sockets.\<close>

definition UDP :: nat where "UDP = 0"
definition SUCCESSOR :: nat where "SUCCESSOR = 1"
definition PREDECESSOR :: nat where "PREDECESSOR = 2"

record node =
  state :: node_state
  own_address :: "ipv4_addr option"
  stored :: "entry list"
  hash_range :: "u8 \<times> u8"
  last_alive :: instant
  last_pdu :: "PDU option"
  successor_listen :: "socket_addr option"
  should_close :: bool
  running :: bool
  tracker_addr :: socket_addr
  udp_wrapper :: wrapper
  udp_sock :: udp_socket
  successor_wrapper :: wrapper
  successor :: "tcp_stream option"
  predecessor_wrapper :: wrapper
  predecessor :: "tcp_stream option"
  listen_socket :: tcp_listener
  now :: instant
  syscalls :: "bool list"
  connects :: "tcp_stream option list"
  dropped :: "tcp_stream list"

section \<open>System calls\<close>

text \<open>
  \<open>.unwrap()\<close> or \<open>.expect(..)\<close> on the result of a system call takes the next result off the
  script; an exhausted script means success.
\<close>

definition sys_unwrap :: "node \<Rightarrow> node outcome" where
  "sys_unwrap n = (case syscalls n of
     [] \<Rightarrow> Ret n
   | ok # oks \<Rightarrow> if ok then Ret (n\<lparr>syscalls := oks\<rparr>) else Panic UnwrapErr)"

text \<open>\<open>.ok()\<close> on a result ignores the error.\<close>

definition sys_ignore :: "node \<Rightarrow> node" where
  "sys_ignore n = n\<lparr>syscalls := tl (syscalls n)\<rparr>"

text \<open>Assigning to \<open>self.successor\<close> or \<open>self.predecessor\<close> drops the stream that was there.\<close>

definition assign_successor :: "tcp_stream option \<Rightarrow> node \<Rightarrow> node" where
  "assign_successor x n = n\<lparr>successor := x, dropped := dropped n @
     (case successor n of None \<Rightarrow> [] | Some s \<Rightarrow> [s])\<rparr>"

definition assign_predecessor :: "tcp_stream option \<Rightarrow> node \<Rightarrow> node" where
  "assign_predecessor x n = n\<lparr>predecessor := x, dropped := dropped n @
     (case predecessor n of None \<Rightarrow> [] | Some s \<Rightarrow> [s])\<rparr>"

text \<open>
  \<open>flush\<close> of a TCP stream does nothing and succeeds; \<open>shutdown(Both).unwrap()\<close> closes both
  directions.
\<close>

definition shutdown_stream :: "tcp_stream \<Rightarrow> tcp_stream outcome" where
  "shutdown_stream s = (if shutdown_ok s then Ret (s\<lparr>is_shut := True\<rparr>) else Panic UnwrapErr)"

text \<open>\<open>as_mut().unwrap()\<close>, and \<open>match .. { Some(s) => s, _ => panic!(..) }\<close>.\<close>

definition expect_socket :: "tcp_stream option \<Rightarrow> tcp_stream outcome" where
  "expect_socket s = (case s of None \<Rightarrow> Panic MissingSocket | Some s \<Rightarrow> Ret s)"

definition take_last_pdu :: "node \<Rightarrow> PDU option \<times> node" where
  "take_last_pdu n = (last_pdu n, n\<lparr>last_pdu := None\<rparr>)"

section \<open>Util functions\<close>

definition split_range :: "build \<Rightarrow> node \<Rightarrow> ((u8 \<times> u8) \<times> node) outcome" where
  "split_range bld n =
     (let (rmin, rmax) = hash_range n in
      obind (sub_u8 bld rmax rmin) (\<lambda>span.
      obind (add_u8 bld (span div 2) rmin) (\<lambda>maxp.
      let minp = rmin in
      obind (add_u8 bld maxp 1) (\<lambda>mins.
      let maxs = rmax in
      Ret ((mins, maxs), n\<lparr>hash_range := (minp, maxp)\<rparr>)))))"

definition peer_addr_v4 :: "tcp_stream option \<Rightarrow> socket_addr_v4 outcome" where
  "peer_addr_v4 s =
     obind (unwrap s) (\<lambda>s. obind (unwrap_io (peer_addr s)) (\<lambda>a.
       case a of V4 a \<Rightarrow> Ret a | V6 _ _ _ _ \<Rightarrow> Panic NotIpv4))"

definition get_successor_addr :: "node \<Rightarrow> socket_addr_v4 outcome" where
  "get_successor_addr n = peer_addr_v4 (successor n)"

definition get_predecessor_addr :: "node \<Rightarrow> socket_addr_v4 outcome" where
  "get_predecessor_addr n = peer_addr_v4 (predecessor n)"

definition get_listen_addr :: "node \<Rightarrow> socket_addr_v4 outcome" where
  "get_listen_addr n = obind (unwrap_io (local_addr (listen_socket n))) (\<lambda>a.
     case a of V4 a \<Rightarrow> Ret a | V6 _ _ _ _ \<Rightarrow> Panic NotIpv4)"

text \<open>
  \<open>transfer\<close> sends every stored entry of a hash range as a \<open>VAL_INSERT\<close> and then forgets
  those entries.  (It sends with the successor's wrapper on either socket; a wrapper's
  \<open>send\<close> does not look at the wrapper.)
\<close>

fun transfer_loop :: "wrapper \<Rightarrow> tcp_stream \<Rightarrow> entry list \<Rightarrow> tcp_stream outcome" where
  "transfer_loop w socket [] = Ret socket"
| "transfer_loop w socket (e # es) =
     (let insert = ValInsertPdu_new (e_ssn e) (e_name e) (e_email e) in
      obind (TcpWrapper_send w socket (ValInsert insert)) (\<lambda>socket. transfer_loop w socket es))"

definition transfer :: "bool \<Rightarrow> u8 \<Rightarrow> u8 \<Rightarrow> node \<Rightarrow> node outcome" where
  "transfer to_successor range_start range_end n =
     obind (unwrap (if to_successor then successor n else predecessor n)) (\<lambda>socket.
     obind (transfer_loop (successor_wrapper n) socket
       (filter (\<lambda>x. range_start \<le> entry_hash x \<and> entry_hash x \<le> range_end) (stored n)))
       (\<lambda>socket.
     let n = (if to_successor then n\<lparr>successor := Some socket\<rparr> else n\<lparr>predecessor := Some socket\<rparr>)
     in Ret (n\<lparr>stored :=
       filter (\<lambda>x. entry_hash x < range_start \<or> range_end < entry_hash x) (stored n)\<rparr>)))"

definition send_udp :: "PDU \<Rightarrow> socket_addr \<Rightarrow> node \<Rightarrow> node outcome" where
  "send_udp pdu rec n =
     obind (UdpWrapper_send (udp_wrapper n) (udp_sock n) pdu rec) (\<lambda>u. Ret (n\<lparr>udp_sock := u\<rparr>))"

definition send_alive :: "node \<Rightarrow> node outcome" where
  "send_alive n =
     (if elapsed_secs (now n) (last_alive n) > 10 then
        let n = n\<lparr>last_alive := now n\<rparr>; alive = NetAlivePdu_new
        in send_udp (NetAlive alive) (tracker_addr n) n
      else Ret n)"

text \<open>
  \<open>await_pdu_udp\<close>: poll, read everything that has arrived, and stop when a PDU is queued.
  The poll has no timeout, so it waits for ever when nothing more arrives.
\<close>

function await_pdu_udp_loop :: "node \<Rightarrow> (message \<times> node) outcome" where
  "await_pdu_udp_loop n =
     obind (sys_unwrap n) (\<lambda>n.
     if arrivals (udp_sock n) = [] then Blocked
     else
       obind (UdpWrapper_try_read (udp_wrapper n) (udp_sock n)) (\<lambda>(w, u).
       case UdpWrapper_next_pdu w of
         (Some x, w) \<Rightarrow> Ret (x, n\<lparr>udp_wrapper := w, udp_sock := u\<rparr>)
       | (None, w) \<Rightarrow> await_pdu_udp_loop (n\<lparr>udp_wrapper := w, udp_sock := u\<rparr>)))"
  by pat_completeness auto
termination
  by (relation "measure (\<lambda>n. length (arrivals (udp_sock n)))")
    (auto simp: sys_unwrap_def UdpWrapper_try_read_def obind_eq_Ret
      dest: udp_read_loop_consumes split: list.splits if_splits)

declare await_pdu_udp_loop.simps [simp del]

definition await_pdu_udp :: "node \<Rightarrow> (message \<times> node) outcome" where
  "await_pdu_udp n =
     obind (sys_unwrap n) (\<lambda>n.
     obind (sys_unwrap n) (\<lambda>n.
     obind (await_pdu_udp_loop n) (\<lambda>(x, n).
     obind (sys_unwrap n) (\<lambda>n. Ret (x, n)))))"

text \<open>
  \<open>await_pdu\<close> on the stream to the successor or from the predecessor.  A round of
  \<open>try_read\<close> that takes nothing off the inbox (the end of the stream was reached before, or
  the buffer is full) leaves the poll without a further event, so the call does not return.
\<close>

definition link_wrapper :: "bool \<Rightarrow> node \<Rightarrow> wrapper" where
  "link_wrapper succ n = (if succ then successor_wrapper n else predecessor_wrapper n)"

definition link_stream :: "bool \<Rightarrow> node \<Rightarrow> tcp_stream option" where
  "link_stream succ n = (if succ then successor n else predecessor n)"

definition set_link :: "bool \<Rightarrow> wrapper \<Rightarrow> tcp_stream \<Rightarrow> node \<Rightarrow> node" where
  "set_link succ w s n =
     (if succ then n\<lparr>successor_wrapper := w, successor := Some s\<rparr>
      else n\<lparr>predecessor_wrapper := w, predecessor := Some s\<rparr>)"

function await_pdu_loop :: "bool \<Rightarrow> node \<Rightarrow> (message \<times> node) outcome" where
  "await_pdu_loop succ n =
     obind (sys_unwrap n) (\<lambda>n.
     obind (unwrap (link_stream succ n)) (\<lambda>s.
     if inbox s = [] then Blocked
     else
       obind (TcpWrapper_try_read (link_wrapper succ n) s) (\<lambda>(w, s', closed).
       case TcpWrapper_next_pdu w of
         (Some x, w) \<Rightarrow> obind (sys_unwrap (set_link succ w s' n)) (\<lambda>n. Ret (x, n))
       | (None, w) \<Rightarrow>
           if rd_size (inbox s') < rd_size (inbox s) then await_pdu_loop succ (set_link succ w s' n)
           else Blocked)))"
  by pat_completeness auto
termination
  by (relation "measure (\<lambda>(succ, n). case link_stream succ n of None \<Rightarrow> 0 | Some s \<Rightarrow> rd_size (inbox s))")
    (auto simp: sys_unwrap_def link_stream_def set_link_def unwrap_eq_Ret
      split: list.splits if_splits)

declare await_pdu_loop.simps [simp del]

definition await_pdu :: "bool \<Rightarrow> node \<Rightarrow> (message \<times> node) outcome" where
  "await_pdu succ n =
     obind (sys_unwrap n) (\<lambda>n.
     obind (unwrap (link_stream succ n)) (\<lambda>_.
     obind (sys_unwrap n) (\<lambda>n. await_pdu_loop succ n)))"

definition accept_predecessor :: "node \<Rightarrow> node outcome" where
  "accept_predecessor n =
     (case accepts (listen_socket n) of
        [] \<Rightarrow> Blocked
      | None # _ \<Rightarrow> Panic UnwrapErr
      | Some socket # rest \<Rightarrow>
          obind (sys_unwrap (n\<lparr>listen_socket := (listen_socket n)\<lparr>accepts := rest\<rparr>\<rparr>)) (\<lambda>n.
          Ret (assign_predecessor (Some socket) n)))"

definition in_my_range :: "node \<Rightarrow> rstring \<Rightarrow> bool" where
  "in_my_range n ssn =
     (let (rmin, rmax) = hash_range n; ssn_hash = hash_ssn ssn
      in rmin \<le> ssn_hash \<and> ssn_hash \<le> rmax)"

text \<open>
  A connection that is made has the address it was made to as its peer; \<open>peer_addr\<close> can
  still fail, when the peer resets it at once.
\<close>

definition connect_to_successor :: "socket_addr \<Rightarrow> node \<Rightarrow> (tcp_stream \<times> node) outcome" where
  "connect_to_successor addr n =
     (case connects n of
        [] \<Rightarrow> Blocked
      | None # _ \<Rightarrow> Panic UnwrapErr
      | Some socket # rest \<Rightarrow>
          let n = n\<lparr>connects := rest, successor_listen := Some addr\<rparr> in
          obind (unwrap_io (peer_addr socket)) (\<lambda>_.
          obind (sys_unwrap n) (\<lambda>n. Ret (socket\<lparr>peer_addr := Some addr\<rparr>, n))))"

end
