(* ===== verification/Node_Values.thy ===== *)
theory Node_Values
  imports Node_Base
begin

text \<open>
  What a node does with the three value PDUs: \<open>handle_val_insert\<close>, \<open>handle_val_lookup\<close>,
  \<open>handle_val_remove\<close> and the state \<open>q9\<close> that dispatches to them.  Each looks at the hash of
  the number: inside the node's range it works on the entries, outside it passes the PDU on
  to the successor.
\<close>

section \<open>Handlers\<close>

text \<open>The \<open>else\<close> branch the three handlers have in common.\<close>

definition forward_to_successor :: "PDU \<Rightarrow> node \<Rightarrow> node outcome" where
  "forward_to_successor pdu n =
     (case successor n of
        Some socket \<Rightarrow>
          obind (TcpWrapper_send (successor_wrapper n) socket pdu) (\<lambda>socket.
          Ret (n\<lparr>successor := Some socket\<rparr>))
      | None \<Rightarrow> Panic MissingSocket)"

definition handle_val_insert :: "ValInsertPdu \<Rightarrow> node \<Rightarrow> node outcome" where
  "handle_val_insert pdu n =
     (if in_my_range n (vi_ssn pdu) then
        let e = Entry_new (vi_ssn pdu) (vi_name pdu) (vi_email pdu)
        in Ret (n\<lparr>stored := push_entry e (stored n)\<rparr>)
      else forward_to_successor (ValInsert pdu) n)"

definition handle_val_lookup :: "ValLookupPdu \<Rightarrow> node \<Rightarrow> node outcome" where
  "handle_val_lookup pdu n =
     (if in_my_range n (vl_ssn pdu) then
        let addr = V4 (vl_sender_address pdu, vl_sender_port pdu) in
        (case first_entry (vl_ssn pdu) (stored n) of
           Some entry \<Rightarrow>
             let pdu_response = ValLookupResponsePdu_new (e_ssn entry) (e_name entry) (e_email entry)
             in send_udp (ValLookupResponse pdu_response) addr n
         | None \<Rightarrow>
             let pdu_response = ValLookupResponsePdu_new (replicate 12 48) [] []
             in send_udp (ValLookupResponse pdu_response) addr n)
      else forward_to_successor (ValLookup pdu) n)"

definition handle_val_remove :: "ValRemovePdu \<Rightarrow> node \<Rightarrow> node outcome" where
  "handle_val_remove pdu n =
     (if in_my_range n (vr_ssn pdu) then
        Ret (n\<lparr>stored := retain_other (vr_ssn pdu) (stored n)\<rparr>)
      else forward_to_successor (ValRemove pdu) n)"

definition q9 :: "node \<Rightarrow> node outcome" where
  "q9 n =
     (case take_last_pdu n of (taken_pdu, n) \<Rightarrow>
      obind (unwrap taken_pdu) (\<lambda>pdu.
      obind (case pdu of
           ValInsert p \<Rightarrow> handle_val_insert p n
         | ValRemove p \<Rightarrow> handle_val_remove p n
         | ValLookup p \<Rightarrow> handle_val_lookup p n
         | _ \<Rightarrow> Panic UnexpectedPdu) (\<lambda>n.
      Ret (n\<lparr>state := Q6\<rparr>))))"

section \<open>What the handlers change\<close>

text \<open>The abstract reading of a node's store: what a lookup of a number finds.\<close>

definition store_of :: "node \<Rightarrow> rstring \<Rightarrow> entry option" where
  "store_of n ssn = first_entry ssn (stored n)"

definition owned :: "node \<Rightarrow> u8 set" where
  "owned n = range_set (hash_range n)"

lemma in_my_range_iff: "in_my_range n ssn \<longleftrightarrow> hash_ssn ssn \<in> owned n"
  by (cases "hash_range n") (simp add: in_my_range_def owned_def range_set_def Let_def)

text \<open>A finished call changed nothing outside the listed fields.\<close>

lemma send_udp_frame: "send_udp p a n = Ret n' \<Longrightarrow>
    n' = n\<lparr>udp_sock := (udp_sock n)\<lparr>sends := sends (udp_sock n'),
      sent_datagrams := sent_datagrams (udp_sock n) @ [(a, to_bytes p)]\<rparr>\<rparr>"
  by (auto simp: send_udp_def obind_eq_Ret dest: UdpWrapper_send_facts)

lemma forward_frame: "forward_to_successor p n = Ret n' \<Longrightarrow>
    \<exists>s s'. successor n = Some s \<and> n' = n\<lparr>successor := Some s'\<rparr> \<and>
      s' = s\<lparr>writes := writes s', outbox := outbox s @ to_bytes p\<rparr>"
  by (auto simp: forward_to_successor_def obind_eq_Ret split: option.splits dest: TcpWrapper_send_facts)

lemma forward_writable:
  "successor n = Some s \<Longrightarrow> writable s \<Longrightarrow> \<exists>n'. forward_to_successor p n = Ret n'"
  using TcpWrapper_send_writable [of s "successor_wrapper n" p] by (auto simp: forward_to_successor_def)

text \<open>\<open>val_step\<close>: what every value handler may change.\<close>

definition val_step :: "node \<Rightarrow> node \<Rightarrow> bool" where
  "val_step n n' \<longleftrightarrow> n' = n\<lparr>stored := stored n', successor := successor n', udp_sock := udp_sock n'\<rparr> \<and>
     (successor n' = None \<longleftrightarrow> successor n = None) \<and>
     udp_sock n' = (udp_sock n)\<lparr>sends := sends (udp_sock n'), sent_datagrams := sent_datagrams (udp_sock n')\<rparr>"

lemma send_udp_val_step:
  assumes "send_udp p a n = Ret n'"
  shows "val_step n n'"
proof -
  obtain u where u: "UdpWrapper_send (udp_wrapper n) (udp_sock n) p a = Ret u"
    and n': "n' = n\<lparr>udp_sock := u\<rparr>"
    using assms by (auto simp: send_udp_def obind_eq_Ret)
  obtain x y where "u = (udp_sock n)\<lparr>sends := x, sent_datagrams := y\<rparr>"
    using UdpWrapper_send_facts [OF u] by blast
  then have "u = (udp_sock n)\<lparr>sends := sends u, sent_datagrams := sent_datagrams u\<rparr>"
    by simp
  then show ?thesis unfolding val_step_def n' by simp
qed

lemma forward_val_step:
  assumes "forward_to_successor p n = Ret n'"
  shows "val_step n n'"
proof -
  obtain s s' where "successor n = Some s" "n' = n\<lparr>successor := Some s'\<rparr>"
    using forward_frame [OF assms] by blast
  then show ?thesis unfolding val_step_def by simp
qed

lemma handle_val_insert_step: "handle_val_insert p n = Ret n' \<Longrightarrow> val_step n n'"
  using forward_val_step [of "ValInsert p" n n']
  by (cases "in_my_range n (vi_ssn p)") (auto simp: handle_val_insert_def Let_def val_step_def)

lemma handle_val_remove_step: "handle_val_remove p n = Ret n' \<Longrightarrow> val_step n n'"
  using forward_val_step [of "ValRemove p" n n']
  by (cases "in_my_range n (vr_ssn p)") (auto simp: handle_val_remove_def val_step_def)

lemma handle_val_lookup_step: "handle_val_lookup p n = Ret n' \<Longrightarrow> val_step n n'"
  by (auto simp: handle_val_lookup_def Let_def intro: forward_val_step send_udp_val_step
      split: if_splits option.splits)

lemmas val_steps = handle_val_insert_step handle_val_remove_step handle_val_lookup_step

end
