(* ===== verification/Node_States.thy ===== *)
theory Node_States
  imports Node_Values
begin

text \<open>
  The states \<open>q1\<close> to \<open>q18\<close> of the node, one function each (\<open>q9\<close> is in \<open>Node_Values\<close>), the
  dispatch \<open>handle_pdu\<close> of the idle state \<open>q6\<close>, and the loop \<open>run\<close>.  \<open>bld\<close> is the build:
  \<open>q5\<close>, \<open>q13\<close>, \<open>q14\<close> and \<open>q15\<close> compute with bytes.
\<close>

section \<open>Joining a network\<close>

definition q1 :: "node \<Rightarrow> node outcome" where
  "q1 n =
     (let lookup = StunLookupPdu_new in
      obind (send_udp (StunLookup lookup) (tracker_addr n) n) (\<lambda>n.
      Ret (n\<lparr>state := Q2\<rparr>)))"

definition q2 :: "node \<Rightarrow> node outcome" where
  "q2 n =
     obind (await_pdu_udp n) (\<lambda>((pdu, sender), n).
       case pdu of
         StunResponse pdu \<Rightarrow> Ret (n\<lparr>own_address := Some (sr_address pdu), state := Q3\<rparr>)
       | _ \<Rightarrow> Panic UnexpectedPdu)"

definition q3 :: "node \<Rightarrow> node outcome" where
  "q3 n =
     (let get_node = NetGetNodePdu_new in
      obind (send_udp (NetGetNode get_node) (tracker_addr n) n) (\<lambda>n.
      obind (await_pdu_udp n) (\<lambda>((pdu, sender), n).
        case pdu of
          NetGetNodeResponse pdu \<Rightarrow>
            if ngnr_address pdu = 0 \<and> ngnr_port pdu = 0 then Ret (n\<lparr>state := Q4\<rparr>)
            else Ret (n\<lparr>last_pdu := Some (NetGetNodeResponse pdu), state := Q7\<rparr>)
        | _ \<Rightarrow> Panic UnexpectedPdu)))"

definition q4 :: "node \<Rightarrow> node outcome" where
  "q4 n = Ret (n\<lparr>hash_range := (0, 255), state := Q6\<rparr>)"

definition q7 :: "node \<Rightarrow> node outcome" where
  "q7 n =
     (case take_last_pdu n of (taken_pdu, n) \<Rightarrow>
      case taken_pdu of
        Some (NetGetNodeResponse next_node) \<Rightarrow>
          let remote = get_addr next_node in
          obind (get_listen_addr n) (\<lambda>local.
          obind (unwrap (own_address n)) (\<lambda>own.
          let net_join = NetJoinPdu_new own (snd local) 0 0 0 in
          obind (send_udp (NetJoin net_join) remote n) (\<lambda>n.
          obind (accept_predecessor n) (\<lambda>n.
          Ret (n\<lparr>state := Q8\<rparr>)))))
      | _ \<Rightarrow> Panic InvalidStateChange)"

definition q8 :: "node \<Rightarrow> node outcome" where
  "q8 n =
     obind (await_pdu False n) (\<lambda>((pdu, sender), n).
       case pdu of
         NetJoinResponse pdu \<Rightarrow>
           let n = n\<lparr>hash_range := (njr_range_start pdu, njr_range_end pdu)\<rparr>;
               addr = get_next_addr pdu in
           obind (connect_to_successor addr n) (\<lambda>(succ, n).
           let n = assign_successor (Some succ) (n\<lparr>successor_listen := Some addr\<rparr>) in
           Ret (n\<lparr>state := Q6\<rparr>))
       | _ \<Rightarrow> Panic UnexpectedPdu)"

section \<open>Letting another node join\<close>

definition q5 :: "build \<Rightarrow> node \<Rightarrow> node outcome" where
  "q5 bld n =
     (case take_last_pdu n of (taken_pdu, n) \<Rightarrow>
      case taken_pdu of
        Some (NetJoin next_node) \<Rightarrow>
          let addr = get_src_socket_addr next_node in
          obind (connect_to_successor addr n) (\<lambda>(socket, n).
          obind (split_range bld n) (\<lambda>((mins, maxs), n).
          obind (get_listen_addr n) (\<lambda>local.
          obind (unwrap (own_address n)) (\<lambda>own.
          let join_response = NetJoinResponsePdu_new own (snd local) mins maxs in
          obind (TcpWrapper_send (successor_wrapper n) socket (NetJoinResponse join_response)) (\<lambda>socket.
          let n = assign_successor (Some socket) n in
          obind (transfer True mins maxs n) (\<lambda>n.
          obind (accept_predecessor n) (\<lambda>n.
          Ret (n\<lparr>state := Q6\<rparr>))))))))
      | _ \<Rightarrow> Panic InvalidStateChange)"

definition q12 :: "node \<Rightarrow> node outcome" where
  "q12 n =
     (if successor n = None then Ret (n\<lparr>state := Q5\<rparr>)
      else
        case take_last_pdu n of (taken_pdu, n) \<Rightarrow>
        case taken_pdu of
          Some (NetJoin pdu) \<Rightarrow>
            obind (get_listen_addr n) (\<lambda>own.
            if V4 own = get_max_socket_addr pdu then
              Ret (n\<lparr>last_pdu := Some (NetJoin pdu), state := Q13\<rparr>)
            else Ret (n\<lparr>last_pdu := Some (NetJoin pdu), state := Q14\<rparr>))
        | _ \<Rightarrow> Panic InvalidStateChange)"

definition q13 :: "build \<Rightarrow> node \<Rightarrow> node outcome" where
  "q13 bld n =
     (let net_close = NetCloseConnectionPdu_new in
      obind (get_successor_addr n) (\<lambda>successor_addr.
      obind (unwrap (successor n)) (\<lambda>socket.
      case take_last_pdu n of (taken_pdu, n) \<Rightarrow>
      case taken_pdu of
        Some (NetJoin pdu) \<Rightarrow>
          obind (TcpWrapper_send (successor_wrapper n) socket (NetCloseConnection net_close)) (\<lambda>socket.
          obind (shutdown_stream socket) (\<lambda>socket.
          let n = assign_successor None (n\<lparr>successor := Some socket\<rparr>);
              addr = get_src_socket_addr pdu in
          obind (connect_to_successor addr n) (\<lambda>(stream, n).
          let n = assign_successor (Some stream) (n\<lparr>successor_listen := Some addr\<rparr>);
              n = n\<lparr>last_pdu := None\<rparr> in
          obind (split_range bld n) (\<lambda>((mins, maxs), n).
          let join_response =
            NetJoinResponsePdu_new (fst successor_addr) (snd successor_addr) mins maxs in
          obind (unwrap (successor n)) (\<lambda>socket.
          obind (TcpWrapper_send (successor_wrapper n) socket (NetJoinResponse join_response)) (\<lambda>socket.
          let n = n\<lparr>successor := Some socket\<rparr> in
          obind (transfer True mins maxs n) (\<lambda>n.
          Ret (n\<lparr>state := Q6\<rparr>))))))))
      | _ \<Rightarrow> Panic InvalidStateChange)))"

definition q14 :: "build \<Rightarrow> node \<Rightarrow> node outcome" where
  "q14 bld n =
     (case take_last_pdu n of (taken_pdu, n) \<Rightarrow>
      case taken_pdu of
        Some (NetJoin pdu) \<Rightarrow>
          (let (rmin, rmax) = hash_range n in
          obind (sub_u8 bld rmax rmin) (\<lambda>span.
          obind (if span > nj_max_span pdu then
              obind (get_listen_addr n) (\<lambda>a.
              Ret (pdu\<lparr>nj_max_span := span, nj_max_address := fst a, nj_max_port := snd a\<rparr>))
            else Ret pdu) (\<lambda>pdu.
          case successor n of
            Some socket \<Rightarrow>
              obind (TcpWrapper_send (successor_wrapper n) socket (NetJoin pdu)) (\<lambda>socket.
              Ret (n\<lparr>successor := Some socket, state := Q6\<rparr>))
          | None \<Rightarrow> Panic MissingSocket)))
      | _ \<Rightarrow> Panic InvalidStateChange)"

section \<open>Leaving the network\<close>

definition q10 :: "node \<Rightarrow> node outcome" where
  "q10 n = (if successor n = None then Ret (n\<lparr>running := False\<rparr>) else Ret (n\<lparr>state := Q11\<rparr>))"

definition q11 :: "node \<Rightarrow> node outcome" where
  "q11 n =
     (let (rmin, rmax) = hash_range n in
      obind (expect_socket (successor n)) (\<lambda>succ.
      obind (expect_socket (predecessor n)) (\<lambda>pred.
      let new_range = NetNewRangePdu_new rmin rmax; to_successor = (rmin = 0) in
      obind (if to_successor then
          obind (TcpWrapper_send (successor_wrapper n) succ (NetNewRange new_range)) (\<lambda>succ.
          Ret (n\<lparr>successor := Some succ\<rparr>))
        else
          obind (TcpWrapper_send (predecessor_wrapper n) pred (NetNewRange new_range)) (\<lambda>pred.
          Ret (n\<lparr>predecessor := Some pred\<rparr>))) (\<lambda>n.
      obind (await_pdu to_successor n) (\<lambda>((pdu, sender), n).
        case pdu of
          NetNewRangeResponse pdu \<Rightarrow> Ret (n\<lparr>state := Q18\<rparr>)
        | _ \<Rightarrow> Panic UnexpectedPdu)))))"

definition q18 :: "node \<Rightarrow> node outcome" where
  "q18 n =
     (let (rmin, rmax) = hash_range n; to_successor = (rmin = 0) in
      obind (if to_successor then transfer True rmin rmax n else transfer False rmin rmax n) (\<lambda>n.
      obind (expect_socket (successor n)) (\<lambda>succ.
      let close = NetCloseConnectionPdu_new in
      obind (TcpWrapper_send (successor_wrapper n) succ (NetCloseConnection close)) (\<lambda>succ.
      obind (shutdown_stream succ) (\<lambda>succ.
      let n = n\<lparr>successor := Some succ\<rparr> in
      obind (case successor_listen n of Some (V4 addr) \<Rightarrow> Ret addr | _ \<Rightarrow> Panic MissingAddress)
        (\<lambda>to_connect.
      let leaving = NetLeavingPdu_new (fst to_connect) (snd to_connect) in
      obind (expect_socket (predecessor n)) (\<lambda>pred.
      obind (TcpWrapper_send (predecessor_wrapper n) pred (NetLeaving leaving)) (\<lambda>pred.
      obind (shutdown_stream pred) (\<lambda>pred.
      Ret (n\<lparr>predecessor := Some pred, running := False\<rparr>))))))))))"

section \<open>A neighbour leaves\<close>

definition q15 :: "build \<Rightarrow> node \<Rightarrow> node outcome" where
  "q15 bld n =
     (case take_last_pdu n of (taken_pdu, n) \<Rightarrow>
      case taken_pdu of
        Some (NetNewRange new_range) \<Rightarrow>
          (let (rmin, rmax) = hash_range n; new_range_response = NetNewRangeResponsePdu_new in
          obind (if rmax \<noteq> 255 then
              obind (add_u8 bld rmax 1) (\<lambda>next. Ret (nnr_range_start new_range = next))
            else Ret False) (\<lambda>from_successor.
          if from_successor then
            let n = n\<lparr>hash_range := (rmin, nnr_range_end new_range)\<rparr> in
            obind (unwrap (successor n)) (\<lambda>socket.
            obind (TcpWrapper_send (successor_wrapper n) socket (NetNewRangeResponse new_range_response))
              (\<lambda>socket.
            Ret (n\<lparr>successor := Some socket, state := Q6\<rparr>)))
          else
            let n = n\<lparr>hash_range := (nnr_range_start new_range, rmax)\<rparr> in
            obind (unwrap (predecessor n)) (\<lambda>socket.
            obind (TcpWrapper_send (predecessor_wrapper n) socket (NetNewRangeResponse new_range_response))
              (\<lambda>socket.
            Ret (n\<lparr>predecessor := Some socket, state := Q6\<rparr>)))))
      | _ \<Rightarrow> Panic InvalidStateChange)"

definition q16 :: "node \<Rightarrow> node outcome" where
  "q16 n =
     (case take_last_pdu n of (taken_pdu, n) \<Rightarrow>
      case taken_pdu of
        Some (NetLeaving net_leaving) \<Rightarrow>
          obind (unwrap (own_address n)) (\<lambda>own.
          obind (if nl_new_address net_leaving = own then
              obind (get_listen_addr n) (\<lambda>a. Ret (nl_new_port net_leaving = snd a))
            else Ret False) (\<lambda>last_node.
          if last_node then
            let n = assign_predecessor None (assign_successor None n) in
            Ret (n\<lparr>state := Q6\<rparr>)
          else
            let n = assign_successor None n in
            obind (connect_to_successor (get_new_addr net_leaving) n) (\<lambda>(socket, n).
            let n = assign_successor (Some socket) n in
            Ret (n\<lparr>state := Q6\<rparr>))))
      | _ \<Rightarrow> Panic InvalidStateChange)"

definition q17 :: "node \<Rightarrow> node outcome" where
  "q17 n =
     obind (case predecessor n of
         Some s \<Rightarrow>
           obind (shutdown_stream s) (\<lambda>s.
           Ret (n\<lparr>predecessor := None, dropped := dropped n @ [s]\<rparr>))
       | None \<Rightarrow> Ret n) (\<lambda>n.
     let (rmin, rmax) = hash_range n in
     obind (if rmin = 0 \<and> rmax = 255 then Ret n else accept_predecessor n) (\<lambda>n.
     Ret (n\<lparr>state := Q6\<rparr>)))"

section \<open>The idle state\<close>

fun handle_pdu :: "PDU \<Rightarrow> source \<Rightarrow> node \<Rightarrow> node outcome" where
  "handle_pdu (NetJoin p) sender n = Ret (n\<lparr>last_pdu := Some (NetJoin p), state := Q12\<rparr>)"
| "handle_pdu (NetCloseConnection p) sender n =
     (case sender of SrcPredecessor _ \<Rightarrow> Ret (n\<lparr>state := Q17\<rparr>) | _ \<Rightarrow> Panic IllegalClose)"
| "handle_pdu (NetNewRange p) sender n = Ret (n\<lparr>last_pdu := Some (NetNewRange p), state := Q15\<rparr>)"
| "handle_pdu (NetLeaving p) sender n = Ret (n\<lparr>last_pdu := Some (NetLeaving p), state := Q16\<rparr>)"
| "handle_pdu (ValInsert p) sender n = q9 (n\<lparr>last_pdu := Some (ValInsert p)\<rparr>)"
| "handle_pdu (ValRemove p) sender n = q9 (n\<lparr>last_pdu := Some (ValRemove p)\<rparr>)"
| "handle_pdu (ValLookup p) sender n = q9 (n\<lparr>last_pdu := Some (ValLookup p)\<rparr>)"
| "handle_pdu x sender n = Ret n"

text \<open>
  \<open>handle_step\<close>: what handling one PDU may change; in particular none of the queues.
\<close>

definition handle_step :: "node \<Rightarrow> node \<Rightarrow> bool" where
  "handle_step n n' \<longleftrightarrow>
     val_step (n\<lparr>state := state n', last_pdu := last_pdu n'\<rparr>) n'"

lemma handle_step_refl [simp]: "handle_step n n"
  by (simp add: handle_step_def val_step_def)

lemma val_step_state: "val_step n m \<Longrightarrow> handle_step n (m\<lparr>state := s\<rparr>)"
  unfolding handle_step_def val_step_def by (cases n, cases m) simp

lemma q9_step:
  assumes "q9 n = Ret n'"
  shows "handle_step n n'"
proof -
  obtain pdu where "last_pdu n = Some pdu"
    using assms by (auto simp: q9_def take_last_pdu_def obind_eq_Ret unwrap_eq_Ret)
  then obtain m where n': "n' = m\<lparr>state := Q6\<rparr>" and "val_step (n\<lparr>last_pdu := None\<rparr>) m"
    using assms by (cases pdu) (auto simp: q9_def take_last_pdu_def obind_eq_Ret dest: val_steps)
  then have "handle_step (n\<lparr>last_pdu := None\<rparr>) n'" by (simp add: val_step_state)
  then show ?thesis by (simp add: handle_step_def)
qed

lemma handle_pdu_step:
  assumes "handle_pdu p src n = Ret n'"
  shows "handle_step n n'"
proof -
  have q9: "q9 (n\<lparr>last_pdu := x\<rparr>) = Ret n' \<Longrightarrow> handle_step n n'" for x
    using q9_step [of "n\<lparr>last_pdu := x\<rparr>" n'] by (simp add: handle_step_def)
  show ?thesis
    using assms by (cases p) (auto dest!: q9 simp: handle_step_def val_step_def
        split: source.split_asm)
qed

end
