(* ===== verification/Node_Run.thy ===== *)
theory Node_Run
  imports Node_States
begin

text \<open>
  The event loop of the node: the idle state \<open>q6\<close>, \<open>run\<close>, \<open>Node::new\<close> and \<open>main\<close>.

  One pass of the \<open>while\<close> loop of \<open>run\<close> is \<open>node_step\<close>; it takes a \<open>tick\<close>, which only \<open>q6\<close>
  looks at: the time that passed, the tokens of the events \<open>poll\<close> reports (none after a
  timeout or an interrupt), and whether a SIGINT was handled by the end of the pass.
  \<open>run_node\<close> makes one pass per tick, so a theorem about every list of ticks is one about
  every prefix of every run.
\<close>

section \<open>The idle state\<close>

record tick =
  tick_elapsed :: int
  tick_events :: "nat list"
  tick_signal :: bool

text \<open>\<open>next_pdu\<close> of the wrapper an event belongs to, with the source the loop tags it with.\<close>

definition next_message :: "nat \<Rightarrow> node \<Rightarrow> (PDU \<times> source) option \<times> node" where
  "next_message token n =
     (if token = UDP then
        (case UdpWrapper_next_pdu (udp_wrapper n) of (m, w) \<Rightarrow>
           (map_option (map_prod id SrcUDP) m, n\<lparr>udp_wrapper := w\<rparr>))
      else if token = SUCCESSOR then
        (case TcpWrapper_next_pdu (successor_wrapper n) of (m, w) \<Rightarrow>
           (map_option (map_prod id SrcSuccessor) m, n\<lparr>successor_wrapper := w\<rparr>))
      else
        (case TcpWrapper_next_pdu (predecessor_wrapper n) of (m, w) \<Rightarrow>
           (map_option (map_prod id SrcPredecessor) m, n\<lparr>predecessor_wrapper := w\<rparr>)))"

definition wrapper_of :: "nat \<Rightarrow> node \<Rightarrow> wrapper" where
  "wrapper_of token n =
     (if token = UDP then udp_wrapper n else if token = SUCCESSOR then successor_wrapper n
      else predecessor_wrapper n)"

lemma next_message_shrinks:
  "next_message token n = (Some m, n') \<Longrightarrow>
     length (incoming_queue (wrapper_of token n')) < length (incoming_queue (wrapper_of token n))"
  by (auto simp: next_message_def wrapper_of_def UdpWrapper_next_pdu_def TcpWrapper_next_pdu_def
      split: if_splits list.splits)

lemma handle_step_wrapper: "handle_step n n' \<Longrightarrow> wrapper_of token n' = wrapper_of token n"
  by (auto simp: handle_step_def val_step_def wrapper_of_def dest: arg_cong [where f = udp_wrapper]
      arg_cong [where f = successor_wrapper] arg_cong [where f = predecessor_wrapper])

lemma handled_message_shrinks:
  assumes "(Some m, n1) = next_message token n" "handle_pdu p src n1 = Ret n2"
  shows "length (incoming_queue (wrapper_of token n2)) < length (incoming_queue (wrapper_of token n))"
  using next_message_shrinks [OF assms(1) [symmetric]]
    handle_step_wrapper [OF handle_pdu_step [OF assms(2)], of token] by simp

text \<open>\<open>while let Some((pdu, sender)) = wrapper.next_pdu() { self.handle_pdu(..) }\<close>.\<close>

function drain :: "nat \<Rightarrow> node \<Rightarrow> node outcome" where
  "drain token n =
     (case next_message token n of
        (None, n) \<Rightarrow> Ret n
      | (Some (pdu, sender), n) \<Rightarrow> obind (handle_pdu pdu sender n) (\<lambda>n. drain token n))"
  by pat_completeness auto
termination
  by (relation "measure (\<lambda>(token, n). length (incoming_queue (wrapper_of token n)))")
    (auto intro: handled_message_shrinks)

declare drain.simps [simp del]

definition handle_event :: "nat \<Rightarrow> node \<Rightarrow> node outcome" where
  "handle_event token n =
     (if token = UDP then
        obind (UdpWrapper_try_read (udp_wrapper n) (udp_sock n)) (\<lambda>(w, u).
        drain UDP (n\<lparr>udp_wrapper := w, udp_sock := u\<rparr>))
      else if token = SUCCESSOR then
        (case successor n of
           None \<Rightarrow> Ret n
         | Some suc \<Rightarrow>
             obind (TcpWrapper_try_read (successor_wrapper n) suc) (\<lambda>(w, suc, closed).
             let n = n\<lparr>successor_wrapper := w, successor := Some suc\<rparr>;
                 n = (if closed then assign_successor None n else n)
             in drain SUCCESSOR n))
      else if token = PREDECESSOR then
        (case predecessor n of
           None \<Rightarrow> Ret n
         | Some pred \<Rightarrow>
             obind (TcpWrapper_try_read (predecessor_wrapper n) pred) (\<lambda>(w, pred, closed).
             let n = n\<lparr>predecessor_wrapper := w, predecessor := Some pred\<rparr>
             in drain PREDECESSOR n))
      else Panic UnknownToken)"

fun handle_events :: "nat list \<Rightarrow> node \<Rightarrow> node outcome" where
  "handle_events [] n = Ret n"
| "handle_events (token # tokens) n = obind (handle_event token n) (\<lambda>n. handle_events tokens n)"

text \<open>\<open>register(..).unwrap()\<close> and \<open>deregister(..).unwrap()\<close> of the streams that are there.\<close>

definition sys_unwrap_if :: "tcp_stream option \<Rightarrow> node \<Rightarrow> node outcome" where
  "sys_unwrap_if s n = (case s of None \<Rightarrow> Ret n | Some _ \<Rightarrow> sys_unwrap n)"

definition q6 :: "tick \<Rightarrow> node \<Rightarrow> node outcome" where
  "q6 t n =
     (let n = n\<lparr>now := now n + tick_elapsed t\<rparr> in
      obind (send_alive n) (\<lambda>n.
      obind (sys_unwrap n) (\<lambda>n.
      obind (sys_unwrap_if (successor n) n) (\<lambda>n.
      obind (sys_unwrap_if (predecessor n) n) (\<lambda>n.
      obind (sys_unwrap n) (\<lambda>n.
      let n = sys_ignore n in
      obind (handle_events (tick_events t) n) (\<lambda>n.
      obind (sys_unwrap n) (\<lambda>n.
      obind (sys_unwrap_if (successor n) n) (\<lambda>n.
      obind (sys_unwrap_if (predecessor n) n) (\<lambda>n.
      let n = n\<lparr>should_close := should_close n \<or> tick_signal t\<rparr> in
      Ret (if should_close n then n\<lparr>state := Q10\<rparr> else n)))))))))))"

section \<open>The loop\<close>

definition node_step :: "build \<Rightarrow> tick \<Rightarrow> node \<Rightarrow> node outcome" where
  "node_step bld t n =
     (case state n of
        Q1 \<Rightarrow> q1 n | Q2 \<Rightarrow> q2 n | Q3 \<Rightarrow> q3 n | Q4 \<Rightarrow> q4 n | Q5 \<Rightarrow> q5 bld n | Q6 \<Rightarrow> q6 t n
      | Q7 \<Rightarrow> q7 n | Q8 \<Rightarrow> q8 n | Q9 \<Rightarrow> q9 n | Q10 \<Rightarrow> q10 n | Q11 \<Rightarrow> q11 n | Q12 \<Rightarrow> q12 n
      | Q13 \<Rightarrow> q13 bld n | Q14 \<Rightarrow> q14 bld n | Q15 \<Rightarrow> q15 bld n | Q16 \<Rightarrow> q16 n | Q17 \<Rightarrow> q17 n
      | Q18 \<Rightarrow> q18 n)"

fun run_node :: "build \<Rightarrow> tick list \<Rightarrow> node \<Rightarrow> node outcome" where
  "run_node bld [] n = Ret n"
| "run_node bld (t # ts) n =
     (if running n then obind (node_step bld t n) (\<lambda>n. run_node bld ts n) else Ret n)"

text \<open>
  What the operating system gives a new node: whether the signal handler could be set, the
  two sockets it binds (\<open>None\<close>: the bind failed), and the scripts of its later calls.
\<close>

record node_env =
  env_handler_ok :: bool
  env_udp :: "udp_socket option"
  env_listener :: "tcp_listener option"
  env_now :: instant
  env_syscalls :: "bool list"
  env_connects :: "tcp_stream option list"

definition Node_new :: "node_env \<Rightarrow> socket_addr \<Rightarrow> node outcome" where
  "Node_new e tracker =
     (if \<not> env_handler_ok e then Panic UnwrapErr
      else
        obind (unwrap_io (env_udp e)) (\<lambda>udp.
        obind (unwrap_io (env_listener e)) (\<lambda>listener.
        let n = \<lparr>state = Q1, own_address = None, stored = [], hash_range = (0, 0),
              last_alive = env_now e - secs 100, last_pdu = None, successor_listen = None,
              should_close = False, running = True, tracker_addr = tracker,
              udp_wrapper = UdpWrapper_new, udp_sock = udp,
              successor_wrapper = TcpWrapper_new, successor = None,
              predecessor_wrapper = TcpWrapper_new, predecessor = None,
              listen_socket = listener, now = env_now e, syscalls = env_syscalls e,
              connects = env_connects e, dropped = []\<rparr> in
        obind (unwrap_io (udp_local (udp_sock n))) (\<lambda>_.
        obind (get_listen_addr n) (\<lambda>_. Ret n)))))"

definition node_main :: "build \<Rightarrow> tick list \<Rightarrow> node_env \<Rightarrow> ipv4_addr \<times> u16 \<Rightarrow> node outcome" where
  "node_main bld ts e tracker =
     obind (Node_new e (V4 tracker)) (\<lambda>n. run_node bld ts n)"

end
