(* ===== verification/Node_Safety.thy ===== *)
theory Node_Safety
  imports Node_Run
begin

text \<open>
  Which panics a node can run into, and the invariant that excludes the others: the buffers
  of the wrappers are never indexed out of bounds, a state that takes \<open>last_pdu\<close> always
  finds the PDU it needs there, the addresses the node asks for are always IPv4.
\<close>

section \<open>Panics that do not happen\<close>

definition never :: "panic set" where
  "never = {InvalidStateChange, SliceIndex, UnknownToken, MissingAddress, NotIpv4, UnwrapNone}
     \<union> range InvalidId"

lemma never_iff: "B \<subseteq> never \<Longrightarrow> e \<notin> never \<Longrightarrow> e \<notin> B"
  by blast

lemma not_never [simp]:
  "UnwrapErr \<notin> never" "SocketError \<notin> never" "ShortDatagram i j \<notin> never" "SplitAtMid \<notin> never"
  "InvalidPdu b \<notin> never" "MissingSocket \<notin> never" "UnexpectedPdu \<notin> never"
  "ArithOverflow \<notin> never" "IllegalClose \<notin> never"
  by (auto simp: never_def)

section \<open>Rules for the sockets\<close>

lemma tcp_send_loop_safe:
  assumes "B \<subseteq> never" "sent \<le> length bytes" "tcp_send_loop bytes sent s = Panic e"
  shows "e \<notin> B"
  using assms(2,3)
proof (induction bytes sent s rule: tcp_send_loop.induct)
  case (1 bytes sent s)
  show ?case
  proof (cases "sent = length bytes")
    case True
    then show ?thesis using "1.prems" by (simp add: tcp_send_loop.simps)
  next
    case False
    have sl: "slice_from sent bytes = Ret (drop sent bytes)"
      using "1.prems"(1) by (simp add: slice_from_def)
    obtain r ws where w: "tcp_write (drop sent bytes) (writes s) = (r, ws)" by fastforce
    note unf = tcp_send_loop.simps [of bytes sent s]
    show ?thesis
    proof (cases r)
      case (WriteOk amt)
      have "amt \<le> length bytes - sent" using tcp_write_ok [of amt ws "drop sent bytes" "writes s"] w WriteOk by simp
      then show ?thesis
        using "1.IH"(1) [OF False sl w [symmetric] WriteOk] "1.prems" False sl w WriteOk unf by simp
    next
      case WriteBlock
      then show ?thesis
        using "1.IH"(2) [OF False sl w [symmetric]] "1.prems" False sl w unf by simp
    next
      case WriteErr
      then show ?thesis using "1.prems" False sl w unf assms(1) by (auto intro: never_iff)
    next
      case WriteNever
      then show ?thesis using "1.prems" False sl w unf by simp
    qed
  qed
qed

lemma safe_TcpWrapper_send [safe_intro]:
  assumes "B \<subseteq> never" "\<And>ws bs. Q (s\<lparr>writes := ws, outbox := bs\<rparr>)"
  shows "safe B Q (TcpWrapper_send w s p)"
proof (rule safeI)
  fix s' assume "TcpWrapper_send w s p = Ret s'"
  from TcpWrapper_send_facts [OF this] assms(2) show "Q s'" by metis
next
  fix e assume "TcpWrapper_send w s p = Panic e"
  then show "e \<notin> B" using tcp_send_loop_safe [OF assms(1), of 0 "to_bytes p" s e]
    by (simp add: TcpWrapper_send_def)
qed

lemma udp_send_loop_safe: "B \<subseteq> never \<Longrightarrow> udp_send_loop bytes rec u = Panic e \<Longrightarrow> e \<notin> B"
proof (induction bytes rec u rule: udp_send_loop.induct)
  case (1 bytes rec u)
  then show ?case
    using udp_send_loop.simps [of bytes rec u]
    by (auto split: prod.splits send_result.splits if_splits intro: never_iff)
qed

lemma safe_UdpWrapper_send [safe_intro]:
  assumes "B \<subseteq> never" "\<And>ss ds. Q (u\<lparr>sends := ss, sent_datagrams := ds\<rparr>)"
  shows "safe B Q (UdpWrapper_send w u p a)"
proof (rule safeI)
  fix u' assume "UdpWrapper_send w u p a = Ret u'"
  from UdpWrapper_send_facts [OF this] assms(2) show "Q u'" by metis
next
  fix e assume "UdpWrapper_send w u p a = Panic e"
  then show "e \<notin> B" using udp_send_loop_safe [OF assms(1)] by (simp add: UdpWrapper_send_def)
qed

lemma parse_loop_safe:
  assumes "B \<subseteq> never" "wf_wrapper w" "\<And>e. sender = Panic e \<Longrightarrow> e \<notin> B"
    and "parse_loop sender w = Panic e"
  shows "e \<notin> B"
  using assms(2,4)
proof (induction "buffer_fill w" arbitrary: w rule: less_induct)
  case less
  consider (here) "parse_pdu (buffered w) = Panic e"
    | (none) "parse_pdu (buffered w) = Ret None"
    | (some) p n where "parse_pdu (buffered w) = Ret (Some (p, n))"
      "obind sender (\<lambda>a. parse_loop sender (taken w p a n)) = Panic e"
    using less.prems(2) unfolding parse_loop_eq [OF less.prems(1)]
    by (auto simp: obind_eq_Panic split: option.splits)
  then show ?case
  proof cases
    case here
    then show ?thesis using assms(1) by (auto simp: parse_pdu_Panic_iff intro: never_iff)
  next
    case none
    then show ?thesis using less.prems(2) unfolding parse_loop_eq [OF less.prems(1)] by simp
  next
    case some
    have n: "0 < n" "n \<le> buffer_fill w"
      using wire.dec_used [of "buffered w" p n] some(1) less.prems(1) by auto
    have smaller: "buffer_fill (taken w p a n) < buffer_fill w" for a
      using n by (simp add: taken_def)
    show ?thesis
      using some(2) assms(3) less.hyps [OF smaller taken_facts(1) [OF less.prems(1) n(2)]]
      by (auto simp: obind_eq_Panic)
  qed
qed

lemma tcp_read_loop_safe:
  assumes "B \<subseteq> never" "wf_wrapper w" "tcp_read_loop w rs = Panic e"
  shows "e \<notin> B"
  using assms(2,3)
proof (induction "length (pending rs)" arbitrary: w rs rule: less_induct)
  case less
  obtain r rs' where r: "tcp_read (free_space w) rs = (r, rs')" by fastforce
  note unf = tcp_read_loop_eq [OF less.prems(1), of rs]
  show ?case
  proof (cases r)
    case (ReadOk bs)
    have bs: "length bs \<le> free_space w" "bs \<noteq> [] \<Longrightarrow> length (pending rs') < length (pending rs)"
      using tcp_read_pending [of "free_space w" rs bs rs'] r ReadOk by auto
    show ?thesis
      using less.hyps [OF bs(2) filled_facts(1) [OF less.prems(1) bs(1)]] less.prems(2) unf r ReadOk
      by (auto split: if_splits)
  next
    case ReadErr
    then show ?thesis using less.prems(2) unf r assms(1) by (auto intro: never_iff)
  qed (use less.prems(2) unf r in simp)
qed

lemma safe_TcpWrapper_try_read [safe_intro]:
  assumes "B \<subseteq> never" "wf_wrapper w" "\<And>w' rs c. wf_wrapper w' \<Longrightarrow> Q (w', s\<lparr>inbox := rs\<rparr>, c)"
  shows "safe B Q (TcpWrapper_try_read w s)"
proof (rule safeI)
  fix x assume x: "TcpWrapper_try_read w s = Ret x"
  obtain w' s' c where "x = (w', s', c)" by (cases x)
  then show "Q x" using TcpWrapper_try_read_facts [of w s w' s' c] x assms(2,3) by metis
next
  fix e assume "TcpWrapper_try_read w s = Panic e"
  then consider "tcp_read_loop w (inbox s) = Panic e"
    | w1 rs c where "tcp_read_loop w (inbox s) = Ret (w1, rs, c)"
      "parse_loop (unwrap_io (peer_addr s)) w1 = Panic e"
    by (auto simp: TcpWrapper_try_read_def obind_eq_Panic)
  then show "e \<notin> B"
  proof cases
    case 1
    then show ?thesis using tcp_read_loop_safe [OF assms(1,2)] by simp
  next
    case 2
    have "unwrap_io (peer_addr s) = Panic e' \<Longrightarrow> e' \<notin> B" for e'
      using assms(1) by (auto simp: unwrap_io_def intro: never_iff split: option.splits)
    then show ?thesis
      using parse_loop_safe [OF assms(1) _ _ 2(2)] tcp_read_loop_wf [OF 2(1) assms(2)] by simp
  qed
qed

lemma udp_read_loop_safe:
  assumes "B \<subseteq> never" "wf_wrapper w" "udp_read_loop w ds = Panic e"
  shows "e \<notin> B"
  using assms(2,3)
proof (induction "length ds" arbitrary: w ds rule: less_induct)
  case less
  obtain r ds' where r: "udp_recv_from (free_space w) ds = (r, ds')" by fastforce
  note unf = udp_read_loop_eq [OF less.prems(1), of ds]
  show ?case
  proof (cases r)
    case (RecvOk bs src)
    have bs: "length bs \<le> free_space w" "length ds' < length ds"
      using r RecvOk udp_recv_less [of "free_space w" ds bs src ds']
      by (cases "(free_space w, ds)" rule: udp_recv_from.cases; auto)+
    have wf1: "wf_wrapper (filled w bs)" using filled_facts(1) [OF less.prems(1) bs(1)] .
    have "parse_loop (Ret src) (filled w bs) = Panic e \<or>
        (\<exists>w1. parse_loop (Ret src) (filled w bs) = Ret w1 \<and> udp_read_loop w1 ds' = Panic e)"
      using less.prems(2) unf r RecvOk by (simp add: obind_eq_Panic)
    then show ?thesis
      using parse_loop_safe [OF assms(1) wf1, of "Ret src"] less.hyps [OF bs(2)]
        parse_loop_Ret [OF _ wf1] by (metis outcome.distinct(1))
  next
    case RecvErr
    then show ?thesis using less.prems(2) unf r assms(1) by (auto intro: never_iff)
  qed (use less.prems(2) unf r in simp)
qed

lemma safe_UdpWrapper_try_read [safe_intro]:
  assumes "B \<subseteq> never" "wf_wrapper w" "\<And>w' ds. wf_wrapper w' \<Longrightarrow> Q (w', u\<lparr>arrivals := ds\<rparr>)"
  shows "safe B Q (UdpWrapper_try_read w u)"
proof (rule safeI)
  fix x assume x: "UdpWrapper_try_read w u = Ret x"
  obtain w' u' where "x = (w', u')" by (cases x)
  then show "Q x" using UdpWrapper_try_read_wf [of w u w' u'] x assms(2,3) by metis
next
  fix e assume "UdpWrapper_try_read w u = Panic e"
  then show "e \<notin> B"
    using udp_read_loop_safe [OF assms(1,2)] by (auto simp: UdpWrapper_try_read_def obind_eq_Panic)
qed

section \<open>Rules for the node\<close>

lemma safe_obind_cases:
  "(\<And>e. m = Panic e \<Longrightarrow> e \<notin> B) \<Longrightarrow> (\<And>x. m = Ret x \<Longrightarrow> safe B Q (f x)) \<Longrightarrow> safe B Q (obind m f)"
  by (cases m) auto

lemma safe_sys_unwrap [safe_intro]:
  assumes "B \<subseteq> never" "\<And>ss. Q (n\<lparr>syscalls := ss\<rparr>)"
  shows "safe B Q (sys_unwrap n)"
proof -
  have "Q n" using assms(2) [of "syscalls n"] by simp
  then show ?thesis
    using assms unfolding sys_unwrap_def by (cases "syscalls n") (auto intro: never_iff)
qed

lemma safe_sys_unwrap_if [safe_intro]:
  assumes "B \<subseteq> never" "\<And>ss. Q (n\<lparr>syscalls := ss\<rparr>)"
  shows "safe B Q (sys_unwrap_if s n)"
proof -
  have "Q n" using assms(2) [of "syscalls n"] by simp
  then show ?thesis
    using assms unfolding sys_unwrap_if_def by (cases s) (auto intro: safe_sys_unwrap)
qed

lemma sys_unwrap_frame: "sys_unwrap n = Ret n' \<Longrightarrow> \<exists>ss. n' = n\<lparr>syscalls := ss\<rparr>"
  by (rule safe_RetD [where B = "{}", OF safe_sys_unwrap]) auto

lemma safe_send_udp [safe_intro]:
  assumes "B \<subseteq> never" "\<And>u. Q (n\<lparr>udp_sock := u\<rparr>)"
  shows "safe B Q (send_udp p a n)"
  unfolding send_udp_def by (intro safe_obind safe_UdpWrapper_send assms) (simp add: assms)

lemma safe_send_alive [safe_intro]:
  assumes "B \<subseteq> never" "\<And>t u. Q (n\<lparr>last_alive := t, udp_sock := u\<rparr>)"
  shows "safe B Q (send_alive n)"
  unfolding send_alive_def Let_def
  using assms(2) [where t = "last_alive n" and u = "udp_sock n"] assms(2) [where t = "now n"]
  by (auto intro!: safe_send_udp assms(1))

lemma safe_connect_to_successor [safe_intro]:
  assumes "B \<subseteq> never" "\<And>s cs ss. Q (s\<lparr>peer_addr := Some addr\<rparr>,
      n\<lparr>connects := cs, successor_listen := Some addr, syscalls := ss\<rparr>)"
  shows "safe B Q (connect_to_successor addr n)"
proof (cases "connects n")
  case (Cons x cs)
  show ?thesis
  proof (cases x)
    case (Some s)
    show ?thesis
      proof (cases "peer_addr s")
      case None
      then show ?thesis using Cons Some assms(1)
        by (auto simp: connect_to_successor_def unwrap_io_def Let_def intro: never_iff)
    next
      case (Some a)
      have "safe B Q (obind (sys_unwrap (n\<lparr>connects := cs, successor_listen := Some addr\<rparr>))
          (\<lambda>n. Ret (s\<lparr>peer_addr := Some addr\<rparr>, n)))"
        by (intro safe_obind safe_sys_unwrap assms(1)) (simp add: assms(2))
      then show ?thesis using Cons \<open>x = Some s\<close> Some
        by (simp add: connect_to_successor_def unwrap_io_def Let_def)
    qed
  qed (use Cons assms(1) in \<open>auto simp: connect_to_successor_def intro: never_iff\<close>)
qed (simp add: connect_to_successor_def)

lemma safe_accept_predecessor [safe_intro]:
  assumes "B \<subseteq> never" "\<And>s as ss d. Q (n\<lparr>listen_socket := (listen_socket n)\<lparr>accepts := as\<rparr>,
      syscalls := ss, predecessor := Some s, dropped := d\<rparr>)"
  shows "safe B Q (accept_predecessor n)"
proof (cases "accepts (listen_socket n)")
  case (Cons x rest)
  show ?thesis
  proof (cases x)
    case (Some s)
    show ?thesis
      unfolding accept_predecessor_def Cons Some list.case option.case
      by (intro safe_obind safe_sys_unwrap assms(1)) (simp add: assms(2) assign_predecessor_def)
  qed (use Cons assms(1) in \<open>auto simp: accept_predecessor_def intro: never_iff\<close>)
qed (simp add: accept_predecessor_def)

lemma safe_add_u8 [safe_intro]: "B \<subseteq> never \<Longrightarrow> (\<And>x. Q x) \<Longrightarrow> safe B Q (add_u8 bld a b)"
  by (auto simp: add_u8_def intro: never_iff)

lemma safe_sub_u8 [safe_intro]: "B \<subseteq> never \<Longrightarrow> (\<And>x. Q x) \<Longrightarrow> safe B Q (sub_u8 bld a b)"
  by (auto simp: sub_u8_def intro: never_iff)

lemma safe_split_range [safe_intro]:
  assumes "B \<subseteq> never" "\<And>x r. Q (x, n\<lparr>hash_range := r\<rparr>)"
  shows "safe B Q (split_range bld n)"
  unfolding split_range_def Let_def
  by (cases "hash_range n") (auto intro!: safe_obind safe_add_u8 safe_sub_u8 assms)

lemma safe_transfer_loop:
  assumes "B \<subseteq> never"
  shows "(\<And>ws bs. Q (s\<lparr>writes := ws, outbox := bs\<rparr>)) \<Longrightarrow> safe B Q (transfer_loop w s es)"
proof (induction es arbitrary: s)
  case Nil
  show ?case using Nil [of "outbox s" "writes s"] by simp
next
  case (Cons e es)
  show ?case
    unfolding transfer_loop.simps Let_def
    by (intro safe_obind safe_TcpWrapper_send assms Cons.IH) (simp add: Cons.prems)
qed

lemma safe_transfer [safe_intro]:
  assumes "B \<subseteq> never" "link_stream succ n \<noteq> None"
    and Q: "\<And>s ws bs vs. link_stream succ n = Some s \<Longrightarrow> Q ((if succ then n\<lparr>successor := Some (s\<lparr>writes := ws, outbox := bs\<rparr>)\<rparr>
      else n\<lparr>predecessor := Some (s\<lparr>writes := ws, outbox := bs\<rparr>)\<rparr>)\<lparr>stored := vs\<rparr>)"
  shows "safe B Q (transfer succ lo hi n)"
proof -
  obtain s where s: "link_stream succ n = Some s" using assms(2) by blast
  then have link: "(if succ then successor n else predecessor n) = Some s"
    by (simp add: link_stream_def)
  show ?thesis
    unfolding transfer_def link Let_def unwrap_simps obind.simps
    by (intro safe_obind safe_transfer_loop assms(1)) (use Q [OF s] in \<open>simp split: if_splits\<close>)
qed

lemma next_pdu_wf:
  "wf_wrapper w \<Longrightarrow> wf_wrapper (snd (UdpWrapper_next_pdu w))"
  "wf_wrapper w \<Longrightarrow> wf_wrapper (snd (TcpWrapper_next_pdu w))"
  by (auto simp: UdpWrapper_next_pdu_def TcpWrapper_next_pdu_def wf_wrapper_def split: list.splits)

lemma safe_await_pdu_udp_loop:
  assumes "B \<subseteq> never"
  shows "wf_wrapper (udp_wrapper n) \<Longrightarrow>
    (\<And>x w u ss. wf_wrapper w \<Longrightarrow> Q (x, n\<lparr>udp_wrapper := w, udp_sock := u, syscalls := ss\<rparr>)) \<Longrightarrow>
    safe B Q (await_pdu_udp_loop n)"
proof (induction n rule: await_pdu_udp_loop.induct)
  case (1 n)
  show ?case
    unfolding await_pdu_udp_loop.simps [of n]
  proof (intro safe_obind_cases)
    fix e assume "sys_unwrap n = Panic e"
    then show "e \<notin> B" by (rule safe_PanicD [OF safe_sys_unwrap [OF assms, where Q = "\<lambda>_. True"], rotated]) simp
  next
    fix n1 assume n1: "sys_unwrap n = Ret n1"
    obtain ss where ss: "n1 = n\<lparr>syscalls := ss\<rparr>" using sys_unwrap_frame [OF n1] by blast
    have wf1: "wf_wrapper (udp_wrapper n1)" using "1.prems"(1) ss by simp
    note reads = safe_UdpWrapper_try_read [OF assms wf1, where u = "udp_sock n1"]
    show "safe B Q (if arrivals (udp_sock n1) = [] then Blocked
       else obind (UdpWrapper_try_read (udp_wrapper n1) (udp_sock n1)) (\<lambda>(w, u).
         case UdpWrapper_next_pdu w of
           (None, w) \<Rightarrow> await_pdu_udp_loop (n1\<lparr>udp_wrapper := w, udp_sock := u\<rparr>)
         | (Some x, w) \<Rightarrow> Ret (x, n1\<lparr>udp_wrapper := w, udp_sock := u\<rparr>)))"
    proof (cases "arrivals (udp_sock n1) = []")
      case ne: False
      have "safe B Q (obind (UdpWrapper_try_read (udp_wrapper n1) (udp_sock n1)) (\<lambda>(w, u).
         case UdpWrapper_next_pdu w of
           (None, w) \<Rightarrow> await_pdu_udp_loop (n1\<lparr>udp_wrapper := w, udp_sock := u\<rparr>)
         | (Some x, w) \<Rightarrow> Ret (x, n1\<lparr>udp_wrapper := w, udp_sock := u\<rparr>)))"
      proof (intro safe_obind_cases)
        fix e assume "UdpWrapper_try_read (udp_wrapper n1) (udp_sock n1) = Panic e"
        then show "e \<notin> B" using safe_PanicD [OF reads [where Q = "\<lambda>_. True"]] by simp
      next
        fix wu assume wu: "UdpWrapper_try_read (udp_wrapper n1) (udp_sock n1) = Ret wu"
        obtain w u where p: "wu = (w, u)" by fastforce
        have wfw: "wf_wrapper w" using safe_RetD [OF reads [where Q = "\<lambda>(w, u). wf_wrapper w"] wu] p by simp
        obtain m w2 where nx: "UdpWrapper_next_pdu w = (m, w2)" by fastforce
        have wf2: "wf_wrapper w2" using next_pdu_wf(1) [OF wfw] nx by simp
        show "safe B Q (case wu of (w, u) \<Rightarrow> case UdpWrapper_next_pdu w of
           (None, w) \<Rightarrow> await_pdu_udp_loop (n1\<lparr>udp_wrapper := w, udp_sock := u\<rparr>)
         | (Some x, w) \<Rightarrow> Ret (x, n1\<lparr>udp_wrapper := w, udp_sock := u\<rparr>))"
        proof (cases m)
          case None
          have "safe B Q (await_pdu_udp_loop (n1\<lparr>udp_wrapper := w2, udp_sock := u\<rparr>))"
            by (rule "1.IH" [OF n1 ne wu p [symmetric] nx [symmetric] None])
              (use wf2 "1.prems"(2) ss in auto)
          then show ?thesis using p nx None by simp
        next
          case (Some x)
          have "n1\<lparr>udp_wrapper := w2, udp_sock := u\<rparr> = n\<lparr>udp_wrapper := w2, udp_sock := u, syscalls := ss\<rparr>"
            unfolding ss by (cases n) simp
          then show ?thesis using p nx Some "1.prems"(2) [OF wf2] by simp
        qed
      qed
      then show ?thesis using ne by simp
    qed simp
  qed
qed

lemma safe_await_pdu_udp [safe_intro]:
  assumes "B \<subseteq> never" "wf_wrapper (udp_wrapper n)"
    and "\<And>x w u ss. wf_wrapper w \<Longrightarrow> Q (x, n\<lparr>udp_wrapper := w, udp_sock := u, syscalls := ss\<rparr>)"
  shows "safe B Q (await_pdu_udp n)"
  unfolding await_pdu_udp_def
  by (intro safe_obind safe_sys_unwrap safe_await_pdu_udp_loop assms(1))
    (use assms(2,3) in \<open>auto intro!: safe_obind safe_sys_unwrap assms(1)\<close>)

text \<open>What \<open>await_pdu\<close> may change: the link it reads from, whose stream keeps its peer.\<close>

definition await_step :: "bool \<Rightarrow> node \<Rightarrow> node \<Rightarrow> bool" where
  "await_step succ n n' \<longleftrightarrow>
     (\<exists>w s rs ss. wf_wrapper w \<and> link_stream succ n = Some s \<and>
        n' = (set_link succ w (s\<lparr>inbox := rs\<rparr>) n)\<lparr>syscalls := ss\<rparr>)"

lemma await_step_trans:
  assumes "await_step succ n1 n2" "await_step succ n2 n3"
  shows "await_step succ n1 n3"
proof -
  obtain w s rs ss where 1: "link_stream succ n1 = Some s"
    "n2 = (set_link succ w (s\<lparr>inbox := rs\<rparr>) n1)\<lparr>syscalls := ss\<rparr>"
    using assms(1) by (auto simp: await_step_def)
  obtain w' s' rs' ss' where 2: "wf_wrapper w'" "link_stream succ n2 = Some s'"
    "n3 = (set_link succ w' (s'\<lparr>inbox := rs'\<rparr>) n2)\<lparr>syscalls := ss'\<rparr>"
    using assms(2) by (auto simp: await_step_def)
  have s': "s' = s\<lparr>inbox := rs\<rparr>"
    using 2(2) unfolding 1(2) by (auto simp: link_stream_def set_link_def split: if_splits)
  have "n3 = (set_link succ w' (s\<lparr>inbox := rs'\<rparr>) n1)\<lparr>syscalls := ss'\<rparr>"
    unfolding 2(3) 1(2) s' by (cases n1) (simp add: set_link_def)
  then show ?thesis unfolding await_step_def using 1(1) 2(1) by blast
qed

lemma await_step_syscalls:
  "await_step succ (n\<lparr>syscalls := ss\<rparr>) n' \<longleftrightarrow> await_step succ n n'"
  by (cases n) (auto simp: await_step_def set_link_def link_stream_def split: if_splits)

lemma safe_await_pdu_loop:
  assumes "B \<subseteq> never"
  shows "wf_wrapper (link_wrapper succ n) \<Longrightarrow> link_stream succ n \<noteq> None \<Longrightarrow>
    safe B (\<lambda>(x, n'). await_step succ n n') (await_pdu_loop succ n)"
proof (induction succ n rule: await_pdu_loop.induct)
  case (1 succ n)
  let ?Q = "\<lambda>(x, n'). await_step succ n n'"
  let ?f = "\<lambda>n s (w, s', closed). case TcpWrapper_next_pdu w of
         (None, w) \<Rightarrow>
           if rd_size (inbox s') < rd_size (inbox s) then await_pdu_loop succ (set_link succ w s' n)
           else Blocked
       | (Some x, w) \<Rightarrow> obind (sys_unwrap (set_link succ w s' n)) (\<lambda>n. Ret (x, n))"
  show ?case
    unfolding await_pdu_loop.simps [of succ n]
  proof (intro safe_obind_cases)
    fix e assume "sys_unwrap n = Panic e"
    then show "e \<notin> B" by (rule safe_PanicD [OF safe_sys_unwrap [OF assms, where Q = "\<lambda>_. True"], rotated]) simp
  next
    fix n1 e assume n1: "sys_unwrap n = Ret n1" and e: "unwrap (link_stream succ n1) = Panic e"
    obtain ss where ss: "n1 = n\<lparr>syscalls := ss\<rparr>" using sys_unwrap_frame [OF n1] by blast
    then show "e \<notin> B" using e "1.prems"(2) by (auto simp: link_stream_def split: if_splits)
  next
    fix n1 s assume n1: "sys_unwrap n = Ret n1" and s: "unwrap (link_stream succ n1) = Ret s"
    obtain ss where ss: "n1 = n\<lparr>syscalls := ss\<rparr>" using sys_unwrap_frame [OF n1] by blast
    have s': "link_stream succ n = Some s"
      using s ss by (auto simp: link_stream_def unwrap_eq_Ret)
    have wf1: "wf_wrapper (link_wrapper succ n1)" using "1.prems"(1) ss by (simp add: link_wrapper_def split: if_splits)
    note reads = safe_TcpWrapper_try_read [OF assms wf1, where s = s]
    have "safe B ?Q (obind (TcpWrapper_try_read (link_wrapper succ n1) s) (?f n1 s))" if ne: "inbox s \<noteq> []"
    proof (intro safe_obind_cases)
      fix e assume "TcpWrapper_try_read (link_wrapper succ n1) s = Panic e"
      then show "e \<notin> B" using safe_PanicD [OF reads [where Q = "\<lambda>_. True"]] by simp
    next
      fix wu assume wu: "TcpWrapper_try_read (link_wrapper succ n1) s = Ret wu"
      obtain w s2 c where p: "wu = (w, s2, c)" by (cases wu)
      have "wf_wrapper w \<and> (\<exists>rs. s2 = s\<lparr>inbox := rs\<rparr>)"
        using safe_RetD [OF reads [where Q = "\<lambda>(w, s2, c). wf_wrapper w \<and> (\<exists>rs. s2 = s\<lparr>inbox := rs\<rparr>)"] wu] p
        by auto
      then obtain rs where wfw: "wf_wrapper w" and s2: "s2 = s\<lparr>inbox := rs\<rparr>" by blast
      obtain m w2 where nx: "TcpWrapper_next_pdu w = (m, w2)" by fastforce
      have wf2: "wf_wrapper w2" using next_pdu_wf(2) [OF wfw] nx by simp
      have st: "await_step succ n ((set_link succ w2 s2 n1)\<lparr>syscalls := ss'\<rparr>)" for ss'
        unfolding await_step_def using wf2 s' s2 ss
        by (intro exI [of _ w2] exI [of _ s] exI [of _ rs] exI [of _ ss']) (simp add: set_link_def)
      show "safe B ?Q (?f n1 s wu)"
      proof (cases m)
        case None
        have "safe B ?Q (await_pdu_loop succ (set_link succ w2 s2 n1))"
          if less: "rd_size (inbox s2) < rd_size (inbox s)"
        proof (rule safe_mono)
          show "safe B (\<lambda>(x, n'). await_step succ (set_link succ w2 s2 n1) n')
              (await_pdu_loop succ (set_link succ w2 s2 n1))"
            by (rule "1.IH" [OF n1 s ne wu p [symmetric] refl nx [symmetric] None less])
              (use wf2 in \<open>simp_all add: link_wrapper_def link_stream_def set_link_def\<close>)
          fix x assume "case x of (x, n') \<Rightarrow> await_step succ (set_link succ w2 s2 n1) n'"
          then show "?Q x" using await_step_trans [OF st [of "syscalls (set_link succ w2 s2 n1)"]]
            by (auto split: prod.splits)
        qed
        then show ?thesis using p nx None by simp
      next
        case (Some x)
        have "safe B ?Q (obind (sys_unwrap (set_link succ w2 s2 n1)) (\<lambda>n. Ret (x, n)))"
          by (intro safe_obind safe_sys_unwrap assms) (simp add: st)
        then show ?thesis using p nx Some by simp
      qed
    qed
    then show "safe B ?Q (if inbox s = [] then Blocked
        else obind (TcpWrapper_try_read (link_wrapper succ n1) s) (?f n1 s))" by simp
  qed
qed

lemma safe_await_pdu_link:
  assumes "B \<subseteq> never" "wf_wrapper (link_wrapper succ n)" "link_stream succ n = Some s"
    and "\<And>x w rs ss. wf_wrapper w \<Longrightarrow> Q (x, (set_link succ w (s\<lparr>inbox := rs\<rparr>) n)\<lparr>syscalls := ss\<rparr>)"
  shows "safe B Q (await_pdu succ n)"
proof -
  have loop: "safe B Q (await_pdu_loop succ (n\<lparr>syscalls := ss\<rparr>))" for ss
  proof (rule safe_mono [OF safe_await_pdu_loop [OF assms(1)]])
    fix x :: "message \<times> node" assume "case x of (x, n') \<Rightarrow> await_step succ (n\<lparr>syscalls := ss\<rparr>) n'"
    then obtain y n' where "x = (y, n')" "await_step succ n n'"
      by (auto simp: await_step_syscalls split: prod.splits)
    then show "Q x" using assms(3,4) by (cases y) (auto simp: await_step_def)
  qed (use assms(2,3) in \<open>auto simp: link_wrapper_def link_stream_def split: if_splits\<close>)
  have sys: "safe B Q (obind (sys_unwrap (n\<lparr>syscalls := ss\<rparr>)) (await_pdu_loop succ))" for ss
    by (intro safe_obind safe_sys_unwrap assms(1)) (simp add: loop)
  show ?thesis
    unfolding await_pdu_def
  proof (intro safe_obind safe_sys_unwrap assms(1))
    fix ss
    have "unwrap (link_stream succ (n\<lparr>syscalls := ss\<rparr>)) = Ret s"
      using assms(3) by (simp add: link_stream_def split: if_splits)
    then show "safe B (\<lambda>_. safe B Q (obind (sys_unwrap (n\<lparr>syscalls := ss\<rparr>)) (await_pdu_loop succ)))
        (unwrap (link_stream succ (n\<lparr>syscalls := ss\<rparr>)))"
      by (simp add: sys)
  qed
qed

lemma safe_await_pdu [safe_intro]:
  assumes "B \<subseteq> never" "wf_wrapper (link_wrapper succ n)" "link_stream succ n \<noteq> None"
    and "\<And>x s w rs ss. link_stream succ n = Some s \<Longrightarrow> wf_wrapper w \<Longrightarrow>
      Q (x, (set_link succ w (s\<lparr>inbox := rs\<rparr>) n)\<lparr>syscalls := ss\<rparr>)"
  shows "safe B Q (await_pdu succ n)"
  using assms safe_await_pdu_link by (metis not_None_eq)

section \<open>The invariant\<close>

text \<open>
  \<open>links_ok\<close>: the wrappers are well formed, the listener has an IPv4 address, and a stream
  to a successor has the address it was connected to as its peer.  \<open>pending_ok\<close>: each state
  finds in \<open>last_pdu\<close>, \<open>own_address\<close> and the streams what it takes from them.
\<close>

definition links_ok :: "node \<Rightarrow> bool" where
  "links_ok n \<longleftrightarrow> wf_wrapper (udp_wrapper n) \<and> wf_wrapper (successor_wrapper n) \<and>
     wf_wrapper (predecessor_wrapper n) \<and> (\<exists>a. local_addr (listen_socket n) = Some (V4 a)) \<and>
     (\<forall>s. successor n = Some s \<longrightarrow>
        (\<exists>a. peer_addr s = Some (V4 a) \<and> successor_listen n = Some (V4 a)))"

definition awaits_join :: "PDU option \<Rightarrow> bool" where
  "awaits_join p = (case p of Some (NetJoin _) \<Rightarrow> True | _ \<Rightarrow> False)"

definition pending_ok :: "node \<Rightarrow> bool" where
  "pending_ok n \<longleftrightarrow> (state n \<notin> {Q1, Q2} \<longrightarrow> own_address n \<noteq> None) \<and>
     (case state n of
        Q5 \<Rightarrow> awaits_join (last_pdu n)
      | Q7 \<Rightarrow> (case last_pdu n of Some (NetGetNodeResponse _) \<Rightarrow> True | _ \<Rightarrow> False)
      | Q8 \<Rightarrow> predecessor n \<noteq> None
      | Q9 \<Rightarrow> False
      | Q11 \<Rightarrow> successor n \<noteq> None
      | Q12 \<Rightarrow> awaits_join (last_pdu n)
      | Q13 \<Rightarrow> awaits_join (last_pdu n) \<and> successor n \<noteq> None
      | Q14 \<Rightarrow> awaits_join (last_pdu n) \<and> successor n \<noteq> None
      | Q15 \<Rightarrow> (case last_pdu n of Some (NetNewRange _) \<Rightarrow> True | _ \<Rightarrow> False)
      | Q16 \<Rightarrow> (case last_pdu n of Some (NetLeaving _) \<Rightarrow> True | _ \<Rightarrow> False)
      | Q18 \<Rightarrow> successor n \<noteq> None \<and> predecessor n \<noteq> None
      | _ \<Rightarrow> True)"

definition node_inv :: "node \<Rightarrow> bool" where
  "node_inv n \<longleftrightarrow> links_ok n \<and> pending_ok n"

lemmas inv_defs = node_inv_def links_ok_def pending_ok_def awaits_join_def

lemma q1_safe: "state n = Q1 \<Longrightarrow> node_inv n \<Longrightarrow> safe never node_inv (q1 n)"
  unfolding q1_def Let_def
  by (intro safe_obind safe_intro order_refl) (simp add: inv_defs)

lemma q2_safe: "state n = Q2 \<Longrightarrow> node_inv n \<Longrightarrow> safe never node_inv (q2 n)"
  unfolding q2_def
  by (intro safe_obind safe_intro order_refl)
    (auto simp: inv_defs split: PDU.splits)

lemma q3_safe: "state n = Q3 \<Longrightarrow> node_inv n \<Longrightarrow> safe never node_inv (q3 n)"
  unfolding q3_def Let_def
  by (intro safe_obind safe_intro order_refl)
    (auto simp: inv_defs split: PDU.splits)

lemma q4_safe: "state n = Q4 \<Longrightarrow> node_inv n \<Longrightarrow> safe never node_inv (q4 n)"
  by (simp add: q4_def inv_defs)

lemma safe_get_listen_addr [safe_intro]:
  "\<exists>a. local_addr (listen_socket n) = Some (V4 a) \<Longrightarrow> (\<And>a. Q a) \<Longrightarrow> safe B Q (get_listen_addr n)"
  by (auto simp: get_listen_addr_def unwrap_io_def)

lemma safe_unwrap [safe_intro]:
  "x \<noteq> None \<Longrightarrow> (\<And>y. x = Some y \<Longrightarrow> Q y) \<Longrightarrow> safe B Q (unwrap x)"
  by (cases x) auto

lemma safe_expect_socket [safe_intro]:
  "B \<subseteq> never \<Longrightarrow> (\<And>y. x = Some y \<Longrightarrow> Q y) \<Longrightarrow> safe B Q (expect_socket x)"
  by (cases x) (auto simp: expect_socket_def intro: never_iff)

lemma safe_shutdown_stream [safe_intro]:
  "B \<subseteq> never \<Longrightarrow> Q (s\<lparr>is_shut := True\<rparr>) \<Longrightarrow> safe B Q (shutdown_stream s)"
  by (auto simp: shutdown_stream_def intro: never_iff)

lemma q7_safe: "state n = Q7 \<Longrightarrow> node_inv n \<Longrightarrow> safe never node_inv (q7 n)"
  unfolding q7_def Let_def take_last_pdu_def
  by (auto intro!: safe_obind safe_intro simp: inv_defs split: option.splits PDU.splits)

lemma q8_safe: "state n = Q8 \<Longrightarrow> node_inv n \<Longrightarrow> safe never node_inv (q8 n)"
  unfolding q8_def Let_def
  by (auto intro!: safe_obind safe_intro simp: inv_defs link_wrapper_def link_stream_def set_link_def
      get_next_addr_def assign_successor_def split: PDU.splits)

lemma q5_safe: "state n = Q5 \<Longrightarrow> node_inv n \<Longrightarrow> safe never node_inv (q5 bld n)"
  unfolding q5_def Let_def take_last_pdu_def
  by (auto intro!: safe_obind safe_intro simp: inv_defs link_wrapper_def link_stream_def
      get_src_socket_addr_def assign_successor_def split: option.splits PDU.splits)

lemma q12_safe: "state n = Q12 \<Longrightarrow> node_inv n \<Longrightarrow> safe never node_inv (q12 n)"
  unfolding q12_def Let_def take_last_pdu_def
  by (auto intro!: safe_obind safe_intro simp: inv_defs split: option.splits PDU.splits)

lemma q13_safe: "state n = Q13 \<Longrightarrow> node_inv n \<Longrightarrow> safe never node_inv (q13 bld n)"
  unfolding q13_def Let_def take_last_pdu_def
  by (auto intro!: safe_obind safe_intro simp: inv_defs link_wrapper_def link_stream_def
      get_successor_addr_def peer_addr_v4_def unwrap_io_def
      get_src_socket_addr_def assign_successor_def split: option.splits PDU.splits)

lemma q14_safe: "state n = Q14 \<Longrightarrow> node_inv n \<Longrightarrow> safe never node_inv (q14 bld n)"
  unfolding q14_def Let_def take_last_pdu_def
  by (cases "hash_range n")
    (auto intro!: safe_obind safe_intro simp: inv_defs split: option.splits PDU.splits)

lemma q10_safe: "state n = Q10 \<Longrightarrow> node_inv n \<Longrightarrow> safe never node_inv (q10 n)"
  by (simp add: q10_def inv_defs)

lemma q11_safe: "state n = Q11 \<Longrightarrow> node_inv n \<Longrightarrow> safe never node_inv (q11 n)"
  unfolding q11_def Let_def
  by (cases "hash_range n")
    (auto intro!: safe_obind safe_intro simp: inv_defs link_wrapper_def link_stream_def set_link_def
      split: PDU.splits)

lemma q18_safe: "state n = Q18 \<Longrightarrow> node_inv n \<Longrightarrow> safe never node_inv (q18 n)"
  unfolding q18_def Let_def
  by (cases "hash_range n")
    (auto intro!: safe_obind safe_intro simp: inv_defs link_wrapper_def link_stream_def
      split: PDU.splits)

lemma safe_unwrap_any:
  "UnwrapNone \<notin> B \<Longrightarrow> (\<And>y. x = Some y \<Longrightarrow> Q y) \<Longrightarrow> safe B Q (unwrap x)"
  by (cases x) auto

lemma q15_safe:
  "state n = Q15 \<Longrightarrow> node_inv n \<Longrightarrow> safe (never - {UnwrapNone}) node_inv (q15 bld n)"
  unfolding q15_def Let_def take_last_pdu_def
  by (cases "hash_range n")
    (auto intro!: safe_obind safe_unwrap_any safe_TcpWrapper_send safe_add_u8 simp: inv_defs link_wrapper_def link_stream_def
      split: option.splits PDU.splits)

lemma q16_safe: "state n = Q16 \<Longrightarrow> node_inv n \<Longrightarrow> safe never node_inv (q16 n)"
  unfolding q16_def Let_def take_last_pdu_def
  by (auto intro!: safe_obind safe_intro simp: inv_defs get_new_addr_def assign_successor_def
      assign_predecessor_def split: option.splits PDU.splits)

lemma q17_safe: "state n = Q17 \<Longrightarrow> node_inv n \<Longrightarrow> safe never node_inv (q17 n)"
  unfolding q17_def Let_def take_last_pdu_def
  by (cases "hash_range n")
    (auto intro!: safe_obind safe_intro simp: inv_defs split: option.splits PDU.splits)

text \<open>
  Inside \<open>q6\<close> the state is the one the last PDU of the batch asked for.
\<close>

definition batch_inv :: "node \<Rightarrow> bool" where
  "batch_inv n \<longleftrightarrow> node_inv n \<and> state n \<in> {Q6, Q12, Q15, Q16, Q17}"

lemma safe_forward [safe_intro]:
  assumes "B \<subseteq> never" "\<And>s ws bs. successor n = Some s \<Longrightarrow>
    Q (n\<lparr>successor := Some (s\<lparr>writes := ws, outbox := bs\<rparr>)\<rparr>)"
  shows "safe B Q (forward_to_successor p n)"
  unfolding forward_to_successor_def
  by (cases "successor n") (auto intro!: safe_obind safe_TcpWrapper_send assms dest: subsetD [OF assms(1)])

lemma q9_safe:
  assumes "links_ok n" "own_address n \<noteq> None"
    and "last_pdu n \<in> Some ` (range ValInsert \<union> range ValRemove \<union> range ValLookup)"
  shows "safe never batch_inv (q9 n)"
  using assms unfolding q9_def take_last_pdu_def
  by (auto intro!: safe_obind safe_intro simp: batch_inv_def inv_defs handle_val_insert_def
      handle_val_remove_def handle_val_lookup_def Let_def split: option.splits)

lemma handle_pdu_safe: "batch_inv n \<Longrightarrow> safe never batch_inv (handle_pdu p src n)"
proof (cases "p \<in> range ValInsert \<union> range ValRemove \<union> range ValLookup")
  case True
  assume inv: "batch_inv n"
  have "safe never batch_inv (q9 (n\<lparr>last_pdu := Some p\<rparr>))"
    by (rule q9_safe) (use True inv in \<open>auto simp: batch_inv_def inv_defs\<close>)
  then show ?thesis using True by auto
next
  case False
  assume "batch_inv n"
  then show ?thesis using False
    by (cases p) (auto simp: batch_inv_def inv_defs split: source.splits)
qed

lemma next_message_inv:
  assumes "batch_inv n" "next_message token n = (m, n')"
  shows "batch_inv n'"
proof -
  have wf: "wf_wrapper (udp_wrapper n)" "wf_wrapper (successor_wrapper n)" "wf_wrapper (predecessor_wrapper n)"
    using assms(1) by (auto simp: batch_inv_def inv_defs)
  consider (udp) "n' = n\<lparr>udp_wrapper := snd (UdpWrapper_next_pdu (udp_wrapper n))\<rparr>"
    | (suc) "n' = n\<lparr>successor_wrapper := snd (TcpWrapper_next_pdu (successor_wrapper n))\<rparr>"
    | (pre) "n' = n\<lparr>predecessor_wrapper := snd (TcpWrapper_next_pdu (predecessor_wrapper n))\<rparr>"
    using assms(2) by (auto simp: next_message_def split_beta split: if_splits)
  then show ?thesis
    using assms(1) next_pdu_wf(1) [OF wf(1)] next_pdu_wf(2) [OF wf(2)] next_pdu_wf(2) [OF wf(3)]
    by cases (auto simp: batch_inv_def inv_defs)
qed

text \<open>What every PDU and every \<open>next_pdu\<close> preserve, a drained batch preserves.\<close>

lemma drain_invariant:
  assumes "\<And>n p src. P n \<Longrightarrow> safe B P (handle_pdu p src n)"
    and "\<And>n m n1. P n \<Longrightarrow> next_message token n = (m, n1) \<Longrightarrow> P n1"
  shows "P n \<Longrightarrow> safe B P (drain token n)"
  using assms
proof (induction token n rule: drain.induct)
  case (1 token n)
  obtain m n1 where m: "next_message token n = (m, n1)" by fastforce
  have inv: "P n1" using "1.prems"(3) [OF "1.prems"(1) m] .
  note handle = "1.prems"(2) [OF inv]
  show ?case
  proof (cases m)
    case None
    then show ?thesis using m inv by (simp add: drain.simps [of token n])
  next
    case (Some ps)
    obtain p src where ps: "ps = (p, src)" by fastforce
    have "safe B P (obind (handle_pdu p src n1) (drain token))"
    proof (rule safe_obind_cases)
      show "handle_pdu p src n1 = Panic e \<Longrightarrow> e \<notin> B" for e
        using safe_PanicD [OF handle] .
      fix n2 assume n2: "handle_pdu p src n1 = Ret n2"
      show "safe B P (drain token n2)"
        by (rule "1.IH" [OF m [symmetric] Some ps [symmetric] n2 safe_RetD [OF handle n2]])
          (use "1.prems" in blast)+
    qed
    then show ?thesis using m Some ps by (simp add: drain.simps [of token n])
  qed
qed

lemma drain_safe: "batch_inv n \<Longrightarrow> safe never batch_inv (drain token n)"
  by (rule drain_invariant) (use handle_pdu_safe next_message_inv in blast)+

lemma handle_event_safe:
  assumes "batch_inv n" "token \<in> {UDP, SUCCESSOR, PREDECESSOR}"
  shows "safe never batch_inv (handle_event token n)"
  using assms unfolding handle_event_def Let_def
  by (auto intro!: safe_obind safe_intro drain_safe simp: batch_inv_def inv_defs assign_successor_def
      UDP_def SUCCESSOR_def PREDECESSOR_def split: option.splits)

lemma handle_events_safe:
  "batch_inv n \<Longrightarrow> set tokens \<subseteq> {UDP, SUCCESSOR, PREDECESSOR} \<Longrightarrow>
     safe never batch_inv (handle_events tokens n)"
proof (induction tokens arbitrary: n)
  case (Cons t ts)
  show ?case
    unfolding handle_events.simps
    by (intro safe_obind, rule safe_mono [OF handle_event_safe]) (use Cons in auto)
qed simp

lemma q6_batch:
  assumes "state n = Q6" "node_inv n" "set (tick_events t) \<subseteq> {UDP, SUCCESSOR, PREDECESSOR}"
  shows "safe never (\<lambda>n'. node_inv n' \<and> state n' \<in> {Q6, Q10, Q12, Q15, Q16, Q17}) (q6 t n)"
proof -
  let ?Q = "\<lambda>n'. node_inv n' \<and> state n' \<in> {Q6, Q10, Q12, Q15, Q16, Q17}"
  have finish: "safe never ?Q (obind (sys_unwrap n) (\<lambda>n.
      obind (sys_unwrap_if (successor n) n) (\<lambda>n.
      obind (sys_unwrap_if (predecessor n) n) (\<lambda>n.
      let n = n\<lparr>should_close := should_close n \<or> tick_signal t\<rparr> in
      Ret (if should_close n then n\<lparr>state := Q10\<rparr> else n)))))" if "batch_inv n" for n
    using that by (intro safe_obind safe_intro order_refl) (auto simp: batch_inv_def inv_defs Let_def)
  show ?thesis
    using assms(1,2) unfolding q6_def Let_def
    by (intro safe_obind safe_send_alive safe_sys_unwrap safe_sys_unwrap_if order_refl)
      (rule safe_mono [OF handle_events_safe], use finish assms(3) in
        \<open>auto simp: batch_inv_def inv_defs sys_ignore_def Let_def\<close>)
qed

lemma q6_safe:
  assumes "state n = Q6" "node_inv n" "set (tick_events t) \<subseteq> {UDP, SUCCESSOR, PREDECESSOR}"
  shows "safe never node_inv (q6 t n)"
  using safe_mono [OF q6_batch [OF assms]] by blast

text \<open>One pass of the loop, in any state.\<close>

definition forbidden :: "node \<Rightarrow> panic set" where
  "forbidden n = (if state n = Q15 then never - {UnwrapNone} else never)"

lemma node_step_safe:
  assumes "node_inv n" "set (tick_events t) \<subseteq> {UDP, SUCCESSOR, PREDECESSOR}"
  shows "safe (forbidden n) node_inv (node_step bld t n)"
proof (cases "state n")
  case Q9
  then show ?thesis using assms(1) by (simp add: inv_defs)
qed (use assms q1_safe q2_safe q3_safe q4_safe q5_safe q6_safe q7_safe q8_safe q10_safe q11_safe
    q12_safe q13_safe q14_safe q15_safe q16_safe q17_safe q18_safe in
    \<open>simp_all add: node_step_def forbidden_def\<close>)

lemma Node_new_inv: "Node_new e tracker = Ret n \<Longrightarrow> node_inv n \<and> state n = Q1"
  by (auto simp: Node_new_def obind_eq_Ret unwrap_io_def get_listen_addr_def inv_defs Let_def
      split: if_splits option.splits socket_addr.splits)

section \<open>Reachable states\<close>

definition known_tokens :: "tick \<Rightarrow> bool" where
  "known_tokens t = list_all (\<lambda>k. k = UDP \<or> k = SUCCESSOR \<or> k = PREDECESSOR) (tick_events t)"

inductive reachable :: "build \<Rightarrow> node \<Rightarrow> bool" for bld where
  reachable_new: "Node_new e tracker = Ret n \<Longrightarrow> reachable bld n"
| reachable_step: "reachable bld n \<Longrightarrow> running n \<Longrightarrow> known_tokens t \<Longrightarrow> node_step bld t n = Ret n'
    \<Longrightarrow> reachable bld n'"

lemma known_tokens_set: "known_tokens t \<Longrightarrow> set (tick_events t) \<subseteq> {UDP, SUCCESSOR, PREDECESSOR}"
  by (auto simp: known_tokens_def list_all_iff)

lemma reachable_inv: "reachable bld n \<Longrightarrow> node_inv n"
proof (induction rule: reachable.induct)
  case (reachable_new e tracker n)
  then show ?case using Node_new_inv by blast
next
  case (reachable_step n t n')
  show ?case
    by (rule safe_RetD [OF node_step_safe [OF reachable_step.IH known_tokens_set]])
      (use reachable_step.hyps in auto)
qed

lemma reachable_step_safe:
  "reachable bld n \<Longrightarrow> known_tokens t \<Longrightarrow> node_step bld t n = Panic e \<Longrightarrow> e \<notin> forbidden n"
  using safe_PanicD [OF node_step_safe [OF reachable_inv known_tokens_set]] .

lemma reachable_run:
  "reachable bld n \<Longrightarrow> list_all known_tokens ts \<Longrightarrow>
     safe (never - {UnwrapNone}) (reachable bld) (run_node bld ts n)"
proof (induction ts arbitrary: n)
  case (Cons t ts)
  show ?case
  proof (cases "running n")
    case True
    have "safe (never - {UnwrapNone}) (reachable bld) (obind (node_step bld t n) (run_node bld ts))"
    proof (rule safe_obind_cases)
      fix e assume "node_step bld t n = Panic e"
      then show "e \<notin> never - {UnwrapNone}"
        using reachable_step_safe [OF Cons.prems(1), of t e] Cons.prems(2)
          by (simp add: forbidden_def split: if_splits)
    next
      fix n1 assume "node_step bld t n = Ret n1"
      then have "reachable bld n1"
        using reachable_step [OF Cons.prems(1) True, of t n1] Cons.prems(2) by simp
      then show "safe (never - {UnwrapNone}) (reachable bld) (run_node bld ts n1)"
        using Cons by simp
    qed
    then show ?thesis using True by simp
  qed (use Cons in simp)
qed simp

end
