(* ===== verification/Node_Store.thy ===== *)
theory Node_Store
  imports Node_Run
begin

text \<open>
  The node as a store: an abstract service of value PDUs (a map from numbers to entries, the
  replies sent, the bytes forwarded), and the refinement that says the handlers implement it,
  for one PDU and for the batch a wrapper has queued.
\<close>

section \<open>The abstract service\<close>

record vals =
  v_store :: "rstring \<Rightarrow> entry option"
  v_replies :: "(socket_addr \<times> u8 list) list"
  v_forwarded :: "u8 list"

definition is_value :: "PDU \<Rightarrow> bool" where
  "is_value p = (case p of ValInsert _ \<Rightarrow> True | ValRemove _ \<Rightarrow> True | ValLookup _ \<Rightarrow> True | _ \<Rightarrow> False)"

text \<open>The reply to a lookup: the entry found, or twelve zeros and two empty strings.\<close>

definition lookup_reply :: "entry option \<Rightarrow> ValLookupResponsePdu" where
  "lookup_reply e = (case e of
     Some e \<Rightarrow> ValLookupResponsePdu_new (e_ssn e) (e_name e) (e_email e)
   | None \<Rightarrow> ValLookupResponsePdu_new (replicate 12 48) [] [])"

fun value_ssn :: "PDU \<Rightarrow> rstring" where
  "value_ssn (ValInsert p) = vi_ssn p"
| "value_ssn (ValRemove p) = vr_ssn p"
| "value_ssn (ValLookup p) = vl_ssn p"
| "value_ssn _ = []"

fun serve_value :: "PDU \<Rightarrow> vals \<Rightarrow> vals" where
  "serve_value (ValInsert p) v =
     (case v_store v (vi_ssn p) of
        Some _ \<Rightarrow> v
      | None \<Rightarrow> v\<lparr>v_store := (v_store v)(vi_ssn p \<mapsto> Entry_new (vi_ssn p) (vi_name p) (vi_email p))\<rparr>)"
| "serve_value (ValRemove p) v = v\<lparr>v_store := (v_store v)(vr_ssn p := None)\<rparr>"
| "serve_value (ValLookup p) v = v\<lparr>v_replies := v_replies v @
     [(V4 (vl_sender_address p, vl_sender_port p),
       to_bytes (ValLookupResponse (lookup_reply (v_store v (vl_ssn p)))))]\<rparr>"
| "serve_value _ v = v"

definition val_spec :: "u8 set \<Rightarrow> PDU \<Rightarrow> vals \<Rightarrow> vals" where
  "val_spec own p v =
     (if hash_ssn (value_ssn p) \<in> own then serve_value p v
      else v\<lparr>v_forwarded := v_forwarded v @ to_bytes p\<rparr>)"

definition abs_node :: "node \<Rightarrow> vals" where
  "abs_node n = \<lparr>v_store = store_of n, v_replies = sent_datagrams (udp_sock n),
     v_forwarded = (case successor n of None \<Rightarrow> [] | Some s \<Rightarrow> outbox s)\<rparr>"

section \<open>Sockets that take what is sent\<close>

text \<open>A node that owns every hash needs no successor.\<close>

definition can_send :: "node \<Rightarrow> bool" where
  "can_send n \<longleftrightarrow> udp_ready (udp_sock n) \<and>
     (owned n = UNIV \<or> (\<exists>s. successor n = Some s \<and> writable s))"

lemma send_udp_ready:
  assumes "udp_ready (udp_sock n)"
  shows "\<exists>u. send_udp p a n = Ret (n\<lparr>udp_sock := u\<rparr>) \<and> udp_ready u \<and>
    sent_datagrams u = sent_datagrams (udp_sock n) @ [(a, to_bytes p)]"
  using UdpWrapper_sends [OF assms, of "udp_wrapper n" p a] by (auto simp: send_udp_def)

lemma forward_ready:
  assumes "successor n = Some s" "writable s"
  shows "\<exists>s'. forward_to_successor p n = Ret (n\<lparr>successor := Some s'\<rparr>) \<and> writable s' \<and>
    outbox s' = outbox s @ to_bytes p"
proof -
  obtain s' where s': "TcpWrapper_send (successor_wrapper n) s p = Ret s'" "writable s'"
    using TcpWrapper_send_writable [OF assms(2)] by blast
  have "outbox s' = outbox s @ to_bytes p"
    using arg_cong [OF TcpWrapper_send_facts [OF s'(1)], of outbox] by simp
  then show ?thesis using assms(1) s' by (intro exI [of _ s']) (simp add: forward_to_successor_def)
qed

section \<open>Refinement\<close>

lemma store_of_eq: "store_of n = (\<lambda>ssn. first_entry ssn (stored n))"
  by (rule ext) (simp add: store_of_def)

text \<open>
  \<open>serves n p n'\<close>: the step from \<open>n\<close> to \<open>n'\<close> does what the service does for \<open>p\<close> and leaves
  the range, the successor's presence and the queues alone.
\<close>

definition keeps :: "node \<Rightarrow> node \<Rightarrow> bool" where
  "keeps n n' \<longleftrightarrow> hash_range n' = hash_range n \<and> udp_wrapper n' = udp_wrapper n \<and>
     successor_wrapper n' = successor_wrapper n \<and> predecessor_wrapper n' = predecessor_wrapper n \<and>
     predecessor n' = predecessor n"

lemma store_of_push:
  "store_of (n\<lparr>stored := push_entry e (stored n)\<rparr>) =
     (case store_of n (e_ssn e) of Some _ \<Rightarrow> store_of n | None \<Rightarrow> (store_of n)(e_ssn e \<mapsto> e))"
  by (rule ext) (auto simp: store_of_def entries.lookup_add split: option.splits)

lemma store_of_retain:
  "store_of (n\<lparr>stored := retain_other ssn (stored n)\<rparr>) = (store_of n)(ssn := None)"
  by (rule ext) (auto simp: store_of_def entries.lookup_del)

lemma forward_refines:
  assumes "can_send n" "hash_ssn (value_ssn p) \<notin> owned n"
  shows "\<exists>n'. forward_to_successor p n = Ret n' \<and> abs_node n' = val_spec (owned n) p (abs_node n) \<and>
    can_send n' \<and> keeps n n'"
proof -
  obtain s where s: "successor n = Some s" "writable s" using assms by (auto simp: can_send_def)
  obtain s' where s': "forward_to_successor p n = Ret (n\<lparr>successor := Some s'\<rparr>)" "writable s'"
    "outbox s' = outbox s @ to_bytes p" using forward_ready [OF s] by blast
  have "abs_node (n\<lparr>successor := Some s'\<rparr>) = val_spec (owned n) p (abs_node n)"
    using assms(2) s s' by (simp add: abs_node_def val_spec_def store_of_eq)
  then show ?thesis using s' assms(1) by (simp add: can_send_def owned_def keeps_def)
qed

lemma handle_val_insert_refines:
  assumes "can_send n"
  shows "\<exists>n'. handle_val_insert p n = Ret n' \<and>
    abs_node n' = val_spec (owned n) (ValInsert p) (abs_node n) \<and> can_send n' \<and> keeps n n'"
proof (cases "hash_ssn (vi_ssn p) \<in> owned n")
  case True
  let ?e = "Entry_new (vi_ssn p) (vi_name p) (vi_email p)"
  have "abs_node (n\<lparr>stored := push_entry ?e (stored n)\<rparr>) = val_spec (owned n) (ValInsert p) (abs_node n)"
    using True unfolding abs_node_def store_of_push val_spec_def
    by (simp add: Entry_new_def split: option.splits)
  then show ?thesis
    using True assms by (simp add: handle_val_insert_def in_my_range_iff Let_def can_send_def owned_def keeps_def)
next
  case False
  then show ?thesis
    using forward_refines [OF assms, of "ValInsert p"] by (simp add: handle_val_insert_def in_my_range_iff)
qed

lemma handle_val_remove_refines:
  assumes "can_send n"
  shows "\<exists>n'. handle_val_remove p n = Ret n' \<and>
    abs_node n' = val_spec (owned n) (ValRemove p) (abs_node n) \<and> can_send n' \<and> keeps n n'"
proof (cases "hash_ssn (vr_ssn p) \<in> owned n")
  case True
  have "abs_node (n\<lparr>stored := retain_other (vr_ssn p) (stored n)\<rparr>) =
      val_spec (owned n) (ValRemove p) (abs_node n)"
    using True unfolding abs_node_def store_of_retain val_spec_def by simp
  then show ?thesis
    using True assms by (simp add: handle_val_remove_def in_my_range_iff can_send_def owned_def keeps_def)
next
  case False
  then show ?thesis
    using forward_refines [OF assms, of "ValRemove p"] by (simp add: handle_val_remove_def in_my_range_iff)
qed

lemma handle_val_lookup_refines:
  assumes "can_send n"
  shows "\<exists>n'. handle_val_lookup p n = Ret n' \<and>
    abs_node n' = val_spec (owned n) (ValLookup p) (abs_node n) \<and> can_send n' \<and> keeps n n'"
proof (cases "hash_ssn (vl_ssn p) \<in> owned n")
  case True
  let ?r = "ValLookupResponse (lookup_reply (store_of n (vl_ssn p)))"
  let ?a = "V4 (vl_sender_address p, vl_sender_port p)"
  have eq: "handle_val_lookup p n = send_udp ?r ?a n"
    using True by (simp add: handle_val_lookup_def in_my_range_iff Let_def lookup_reply_def
        store_of_eq split: option.splits)
  obtain u where u: "send_udp ?r ?a n = Ret (n\<lparr>udp_sock := u\<rparr>)" "udp_ready u"
    "sent_datagrams u = sent_datagrams (udp_sock n) @ [(?a, to_bytes ?r)]"
    using send_udp_ready assms unfolding can_send_def by blast
  have "abs_node (n\<lparr>udp_sock := u\<rparr>) = val_spec (owned n) (ValLookup p) (abs_node n)"
    using True u(3) by (simp add: abs_node_def val_spec_def store_of_eq)
  then show ?thesis using eq u assms by (simp add: can_send_def owned_def keeps_def)
next
  case False
  then show ?thesis
    using forward_refines [OF assms, of "ValLookup p"] by (simp add: handle_val_lookup_def in_my_range_iff)
qed

lemma handle_pdu_refines:
  assumes "can_send n" "is_value p"
  shows "\<exists>n'. handle_pdu p src n = Ret n' \<and> abs_node n' = val_spec (owned n) p (abs_node n) \<and>
    can_send n' \<and> keeps n n' \<and> state n' = Q6 \<and> last_pdu n' = None"
proof -
  let ?n = "n\<lparr>last_pdu := None\<rparr>"
  have n: "can_send ?n" "owned ?n = owned n" "abs_node ?n = abs_node n" "\<And>m. keeps ?n m = keeps n m"
    using assms(1) by (simp_all add: can_send_def owned_def abs_node_def store_of_eq keeps_def)
  have post: "abs_node (m\<lparr>state := Q6\<rparr>) = abs_node m" "can_send (m\<lparr>state := Q6\<rparr>) = can_send m"
    "keeps n (m\<lparr>state := Q6\<rparr>) = keeps n m" for m
    by (simp_all add: can_send_def owned_def abs_node_def store_of_eq keeps_def)
  have step: "val_step ?n m \<Longrightarrow> last_pdu m = None" for m
  proof -
    assume "val_step ?n m"
    then obtain x y z where "m = ?n\<lparr>stored := x, successor := y, udp_sock := z\<rparr>"
      unfolding val_step_def by blast
    then show ?thesis by simp
  qed
  have fin: ?thesis if eq: "handle_pdu p src n = obind H (\<lambda>n. Ret (n\<lparr>state := Q6\<rparr>))"
    and H: "\<exists>m. H = Ret m \<and> abs_node m = val_spec (owned ?n) p (abs_node ?n) \<and> can_send m \<and> keeps ?n m"
    and st: "\<And>m. H = Ret m \<Longrightarrow> val_step ?n m" for H
  proof -
    obtain m where m: "H = Ret m" "abs_node m = val_spec (owned n) p (abs_node n)" "can_send m" "keeps n m"
      using H unfolding n by blast
    show ?thesis
      by (rule exI [of _ "m\<lparr>state := Q6\<rparr>"]) (use eq m post step [OF st [OF m(1)]] in simp)
  qed
  show ?thesis
  proof (cases p)
    case (ValInsert q)
    show ?thesis
      by (rule fin [of "handle_val_insert q ?n"])
        (use ValInsert handle_val_insert_refines [OF n(1)] val_steps in
          \<open>simp_all add: q9_def take_last_pdu_def\<close>)
  next
    case (ValRemove q)
    show ?thesis
      by (rule fin [of "handle_val_remove q ?n"])
        (use ValRemove handle_val_remove_refines [OF n(1)] val_steps in
          \<open>simp_all add: q9_def take_last_pdu_def\<close>)
  next
    case (ValLookup q)
    show ?thesis
      by (rule fin [of "handle_val_lookup q ?n"])
        (use ValLookup handle_val_lookup_refines [OF n(1)] val_steps in
          \<open>simp_all add: q9_def take_last_pdu_def\<close>)
  qed (use assms(2) in \<open>simp_all add: is_value_def\<close>)
qed

section \<open>A batch of PDUs\<close>

text \<open>The messages queued for an event, and the node without the first of them.\<close>

definition queue_of :: "nat \<Rightarrow> node \<Rightarrow> message list" where
  "queue_of token n = incoming_queue (wrapper_of token n)"

lemma next_message_None: "queue_of token n = [] \<Longrightarrow> next_message token n = (None, n)"
  by (simp add: queue_of_def wrapper_of_def next_message_def UdpWrapper_next_pdu_def
      TcpWrapper_next_pdu_def split: if_splits)

lemma next_message_Some:
  assumes "queue_of token n = (p, a) # ms"
  shows "\<exists>src n1. next_message token n = (Some (p, src), n1) \<and> queue_of token n1 = ms \<and>
    abs_node n1 = abs_node n \<and> can_send n1 = can_send n \<and> hash_range n1 = hash_range n \<and>
    state n1 = state n \<and> last_pdu n1 = last_pdu n \<and> predecessor n1 = predecessor n \<and>
    (token = UDP \<longrightarrow> src = SrcUDP a)"
proof (cases "token = UDP")
  case True
  let ?n = "n\<lparr>udp_wrapper := (udp_wrapper n)\<lparr>incoming_queue := ms\<rparr>\<rparr>"
  have "next_message token n = (Some (p, SrcUDP a), ?n)" "queue_of token ?n = ms"
    using assms True
    by (simp_all add: queue_of_def wrapper_of_def next_message_def UdpWrapper_next_pdu_def)
  then show ?thesis using True by (simp add: abs_node_def can_send_def owned_def store_of_eq)
next
  case False
  note udp = False
  show ?thesis
  proof (cases "token = SUCCESSOR")
    case True
    let ?n = "n\<lparr>successor_wrapper := (successor_wrapper n)\<lparr>incoming_queue := ms\<rparr>\<rparr>"
    have "next_message token n = (Some (p, SrcSuccessor a), ?n)" "queue_of token ?n = ms"
      using assms True udp
      by (simp_all add: queue_of_def wrapper_of_def next_message_def TcpWrapper_next_pdu_def)
    then show ?thesis using udp by (simp add: abs_node_def can_send_def owned_def store_of_eq)
  next
    case False
    let ?n = "n\<lparr>predecessor_wrapper := (predecessor_wrapper n)\<lparr>incoming_queue := ms\<rparr>\<rparr>"
    have "next_message token n = (Some (p, SrcPredecessor a), ?n)" "queue_of token ?n = ms"
      using assms False udp
      by (simp_all add: queue_of_def wrapper_of_def next_message_def TcpWrapper_next_pdu_def)
    then show ?thesis using udp by (simp add: abs_node_def can_send_def owned_def store_of_eq)
  qed
qed

lemma keeps_queue: "keeps n n' \<Longrightarrow> queue_of token n' = queue_of token n"
  by (simp add: keeps_def queue_of_def wrapper_of_def)

text \<open>The values at the head of a queue are served before anything behind them is looked at.\<close>

lemma drain_values_first:
  assumes "can_send n" "list_all (is_value \<circ> fst) vs" "queue_of token n = vs @ ms"
  shows "\<exists>n'. drain token n = drain token n' \<and> queue_of token n' = ms \<and>
    abs_node n' = fold (val_spec (owned n)) (map fst vs) (abs_node n) \<and>
    can_send n' \<and> hash_range n' = hash_range n \<and> predecessor n' = predecessor n \<and>
    (vs \<noteq> [] \<longrightarrow> state n' = Q6 \<and> last_pdu n' = None)"
  using assms
proof (induction vs arbitrary: n)
  case Nil
  then show ?case by auto
next
  case (Cons v vs)
  obtain p a where v: "v = (p, a)" by fastforce
  obtain src n1 where n1: "next_message token n = (Some (p, src), n1)" "queue_of token n1 = vs @ ms"
    "abs_node n1 = abs_node n" "can_send n1" "hash_range n1 = hash_range n" "predecessor n1 = predecessor n"
    using next_message_Some [of token n p a "vs @ ms"] Cons.prems v by auto
  have val: "is_value p" "list_all (is_value \<circ> fst) vs" using Cons.prems(2) v by (simp_all add: comp_def)
  obtain n2 where n2: "handle_pdu p src n1 = Ret n2" "abs_node n2 = val_spec (owned n1) p (abs_node n1)"
    "can_send n2" "keeps n1 n2" "state n2 = Q6 \<and> last_pdu n2 = None"
    using handle_pdu_refines [OF n1(4) val(1), of src] by blast
  have "queue_of token n2 = vs @ ms" using keeps_queue [OF n2(4)] n1(2) by simp
  from Cons.IH [OF n2(3) val(2) this] obtain n3 where n3: "drain token n2 = drain token n3"
    "queue_of token n3 = ms" "abs_node n3 = fold (val_spec (owned n2)) (map fst vs) (abs_node n2)"
    "can_send n3" "hash_range n3 = hash_range n2" "predecessor n3 = predecessor n2"
    "vs \<noteq> [] \<longrightarrow> state n3 = Q6 \<and> last_pdu n3 = None" by blast
  have own: "owned n1 = owned n" "owned n2 = owned n"
    using n1(5) n2(4) by (simp_all add: owned_def keeps_def)
  have step: "drain token n = drain token n2"
    using n1(1) n2(1) by (simp add: drain.simps [of token n])
  show ?case
  proof (cases "vs = []")
    case True
    then show ?thesis
      using step n1 n2 own v \<open>queue_of token n2 = vs @ ms\<close> by (intro exI [of _ n2]) (simp add: keeps_def)
  next
    case False
    then show ?thesis
      using step n1 n2 n3 own v by (intro exI [of _ n3]) (simp add: keeps_def)
  qed
qed

lemma drain_empty: "queue_of token n = [] \<Longrightarrow> drain token n = Ret n"
  using next_message_None [of token n] by (simp add: drain.simps [of token n])

lemma drain_refines:
  assumes "can_send n" "list_all (is_value \<circ> fst) (queue_of token n)"
  shows "\<exists>n'. drain token n = Ret n' \<and> queue_of token n' = [] \<and>
    abs_node n' = fold (val_spec (owned n)) (map fst (queue_of token n)) (abs_node n) \<and>
    can_send n' \<and> hash_range n' = hash_range n \<and> predecessor n' = predecessor n \<and>
    (queue_of token n \<noteq> [] \<longrightarrow> state n' = Q6 \<and> last_pdu n' = None)"
  using drain_values_first [OF assms, where ms = "[]"] drain_empty by fastforce

end
