(* ===== verification/Node_Ranges.thy ===== *)
theory Node_Ranges
  imports Node_Safety Node_Store "HOL-Library.Multiset"
begin

text \<open>
  Hash ranges and the entries in them: \<open>split_range\<close> cuts a range in two halves, \<open>q15\<close> puts a
  neighbour's range back, \<open>transfer\<close> moves exactly the entries of a range, and a node never
  stores an entry outside its range.
\<close>

section \<open>Splitting\<close>

text \<open>The upper end of the lower half.\<close>

definition split_point :: "u8 \<Rightarrow> u8 \<Rightarrow> u8" where
  "split_point lo hi = (hi - lo) div 2 + lo"

lemma split_range_Release:
  "hash_range n = (lo, hi) \<Longrightarrow> split_range Release n =
     Ret ((split_point lo hi + 1, hi), n\<lparr>hash_range := (lo, split_point lo hi)\<rparr>)"
  by (simp add: split_range_def split_point_def sub_u8_def add_u8_def)

lemma split_range_Ret:
  "split_range bld n = Ret (x, n') \<Longrightarrow> hash_range n = (lo, hi) \<Longrightarrow>
     x = (split_point lo hi + 1, hi) \<and> n' = n\<lparr>hash_range := (lo, split_point lo hi)\<rparr>"
  by (auto simp: split_range_def split_point_def sub_u8_def add_u8_def obind_eq_Ret Let_def
      split: if_splits)

lemma unat_split_point:
  assumes "lo \<le> hi"
  shows "unat (split_point lo hi) = (unat hi - unat lo) div 2 + unat lo"
proof -
  have d: "unat (hi - lo) = unat hi - unat lo" using assms by (simp add: unat_sub)
  have q: "unat ((hi - lo) div 2) = (unat hi - unat lo) div 2" by (simp add: unat_div d)
  have "(unat hi - unat lo) div 2 + unat lo \<le> unat hi" using assms by (simp add: word_le_nat_alt)
  then have "(unat hi - unat lo) div 2 + unat lo < 256" using unat_u8_less [of hi] by linarith
  then show ?thesis unfolding split_point_def by (simp add: unat_word_ariths(1) q)
qed

lemma split_point_bounds:
  assumes "lo \<le> hi"
  shows "lo \<le> split_point lo hi" "split_point lo hi \<le> hi" "lo < hi \<Longrightarrow> split_point lo hi < hi"
  using assms by (auto simp: word_le_nat_alt word_less_nat_alt unat_split_point)

lemma u8_top: "x = (255 :: u8) \<longleftrightarrow> unat x = 255"
  by (simp add: word_unat_eq_iff)

lemma unat_Suc_u8: "x \<noteq> 255 \<Longrightarrow> unat (x + 1 :: u8) = unat x + 1"
proof -
  assume "x \<noteq> 255"
  then have "unat x \<noteq> 255" by (simp add: u8_top)
  then have "unat x + 1 < 256" using unat_u8_less [of x] by simp
  then show ?thesis by (simp add: unat_word_ariths)
qed

lemma range_set_split:
  assumes "lo \<le> m" "m < hi"
  shows "range_set (lo, hi) = range_set (lo, m) \<union> range_set (m + 1, hi)"
    "range_set (lo, m) \<inter> range_set (m + 1, hi) = {}"
proof -
  have "m \<noteq> 255" using assms(2) word_less_nat_alt [of m hi] unat_u8_less [of hi] by auto
  then have "unat (m + 1) = unat m + 1" by (rule unat_Suc_u8)
  then show "range_set (lo, hi) = range_set (lo, m) \<union> range_set (m + 1, hi)"
    "range_set (lo, m) \<inter> range_set (m + 1, hi) = {}"
    using assms by (auto simp: range_set_def word_le_nat_alt word_less_nat_alt)
qed

lemma card_range_set: "lo \<le> hi \<Longrightarrow> card (range_set (lo, hi)) = unat hi - unat lo + 1"
proof -
  assume le: "lo \<le> hi"
  have "bij_betw unat (range_set (lo, hi)) {unat lo .. unat hi}"
  proof (rule bij_betw_byWitness [where f' = of_nat])
    show "unat ` range_set (lo, hi) \<subseteq> {unat lo..unat hi}"
      by (auto simp: range_set_def word_le_nat_alt)
    show "\<forall>a'\<in>{unat lo..unat hi}. unat (of_nat a' :: u8) = a'"
      using unat_u8_less [of hi] by (auto simp: unsigned_of_nat take_bit_nat_eq_self)
    then show "of_nat ` {unat lo..unat hi} \<subseteq> range_set (lo, hi)"
      by (auto simp: range_set_def word_le_nat_alt)
  qed simp
  then have "card (range_set (lo, hi)) = card {unat lo .. unat hi}" by (rule bij_betw_same_card)
  then show ?thesis using le by (simp add: word_le_nat_alt Suc_diff_le)
qed

lemma split_range_defined:
  assumes "hash_range n = (lo, hi)" "lo \<le> hi" "hi \<noteq> 255 \<or> lo < hi"
  shows "split_range bld n =
    Ret ((split_point lo hi + 1, hi), n\<lparr>hash_range := (lo, split_point lo hi)\<rparr>)"
proof -
  let ?m = "split_point lo hi"
  have d: "unat ((hi - lo) div 2) = (unat hi - unat lo) div 2"
    using assms(2) by (simp add: unat_div unat_sub)
  have m: "unat ?m = (unat hi - unat lo) div 2 + unat lo" by (rule unat_split_point [OF assms(2)])
  have "unat hi \<noteq> 255 \<or> unat lo < unat hi"
    using assms(3) by (simp add: u8_top word_less_nat_alt)
  then have "unat ?m + 1 < 256"
    unfolding m using assms(2) unat_u8_less [of hi] by (auto simp: word_le_nat_alt)
  then show ?thesis
    using assms(1,2) d m
    by (simp add: split_range_def split_point_def sub_u8_Ret add_u8_Ret)
qed

section \<open>Transferring\<close>

definition insert_of :: "entry \<Rightarrow> PDU" where
  "insert_of e = ValInsert (ValInsertPdu_new (e_ssn e) (e_name e) (e_email e))"

definition moved :: "u8 \<Rightarrow> u8 \<Rightarrow> entry list \<Rightarrow> entry list" where
  "moved lo hi es = filter (\<lambda>e. entry_hash e \<in> range_set (lo, hi)) es"

definition kept :: "u8 \<Rightarrow> u8 \<Rightarrow> entry list \<Rightarrow> entry list" where
  "kept lo hi es = filter (\<lambda>e. entry_hash e \<notin> range_set (lo, hi)) es"

lemma transfer_filters:
  "filter (\<lambda>x. lo \<le> entry_hash x \<and> entry_hash x \<le> hi) es = moved lo hi es"
  "filter (\<lambda>x. entry_hash x < lo \<or> hi < entry_hash x) es = kept lo hi es"
  by (auto simp: moved_def kept_def range_set_def not_le intro!: filter_cong)

lemma transfer_loop_ready:
  assumes "writable s"
  shows "\<exists>s'. transfer_loop w s es = Ret s' \<and> writable s' \<and> peer_addr s' = peer_addr s \<and>
    inbox s' = inbox s \<and> shutdown_ok s' = shutdown_ok s \<and>
    outbox s' = outbox s @ concat (map (to_bytes \<circ> insert_of) es)"
  using assms
proof (induction es arbitrary: s)
  case (Cons e es)
  obtain s1 where s1: "TcpWrapper_send w s (insert_of e) = Ret s1" "writable s1"
    using TcpWrapper_send_writable [OF Cons.prems] by blast
  obtain x y where "s1 = s\<lparr>writes := x, outbox := y\<rparr>" "outbox s1 = outbox s @ to_bytes (insert_of e)"
    using TcpWrapper_send_facts [OF s1(1)] arg_cong [OF TcpWrapper_send_facts [OF s1(1)], of outbox]
    by (metis tcp_stream.select_convs(4) tcp_stream.surjective tcp_stream.update_convs(4))
  then show ?case using s1 Cons.IH [OF s1(2)] by (auto simp: Let_def insert_of_def)
qed simp

lemma transfer_loop_bytes:
  "transfer_loop w s es = Ret s' \<Longrightarrow> outbox s' = outbox s @ concat (map (to_bytes \<circ> insert_of) es)"
proof (induction es arbitrary: s)
  case (Cons e es)
  then obtain s1 where s1: "TcpWrapper_send w s (insert_of e) = Ret s1" "transfer_loop w s1 es = Ret s'"
    by (auto simp: Let_def insert_of_def obind_eq_Ret)
  then show ?case
    using Cons.IH [OF s1(2)] arg_cong [OF TcpWrapper_send_facts [OF s1(1)], of outbox] by simp
qed simp

lemma transfer_ready:
  assumes "link_stream succ n = Some s" "writable s"
  shows "\<exists>s'. transfer succ lo hi n =
      Ret ((if succ then n\<lparr>successor := Some s'\<rparr> else n\<lparr>predecessor := Some s'\<rparr>)
        \<lparr>stored := kept lo hi (stored n)\<rparr>) \<and>
    writable s' \<and> peer_addr s' = peer_addr s \<and> inbox s' = inbox s \<and> shutdown_ok s' = shutdown_ok s \<and>
    outbox s' = outbox s @ concat (map (to_bytes \<circ> insert_of) (moved lo hi (stored n)))"
proof -
  obtain s' where s': "transfer_loop (successor_wrapper n) s (moved lo hi (stored n)) = Ret s'"
    "writable s'" "peer_addr s' = peer_addr s" "inbox s' = inbox s" "shutdown_ok s' = shutdown_ok s"
    "outbox s' = outbox s @ concat (map (to_bytes \<circ> insert_of) (moved lo hi (stored n)))"
    using transfer_loop_ready [OF assms(2)] by blast
  have "(if succ then successor n else predecessor n) = Some s"
    using assms(1) by (simp add: link_stream_def)
  then show ?thesis
    using s' by (intro exI [of _ s']) (simp add: transfer_def transfer_filters Let_def)
qed

lemma safe_transfer_kept:
  assumes "B \<subseteq> never" "link_stream succ n \<noteq> None"
    and Q: "\<And>s ws bs. link_stream succ n = Some s \<Longrightarrow> Q ((if succ then n\<lparr>successor := Some (s\<lparr>writes := ws, outbox := bs\<rparr>)\<rparr>
      else n\<lparr>predecessor := Some (s\<lparr>writes := ws, outbox := bs\<rparr>)\<rparr>)\<lparr>stored := kept lo hi (stored n)\<rparr>)"
  shows "safe B Q (transfer succ lo hi n)"
proof -
  obtain s where s: "link_stream succ n = Some s" using assms(2) by blast
  then have link: "(if succ then successor n else predecessor n) = Some s"
    by (simp add: link_stream_def)
  show ?thesis
    unfolding transfer_def link Let_def unwrap_simps obind.simps transfer_filters
    by (cases succ) (intro safe_obind safe_transfer_loop assms(1); use Q [OF s] in simp)+
qed

text \<open>A transfer neither loses nor doubles an entry, and what a number maps to moves with it.\<close>

lemma moved_kept_mset: "mset es = mset (moved lo hi es) + mset (kept lo hi es)"
  by (simp add: moved_def kept_def)

lemma first_entry_moved:
  "hash_ssn ssn \<in> range_set (lo, hi) \<Longrightarrow> first_entry ssn (moved lo hi es) = first_entry ssn es"
  unfolding moved_def by (rule first_entry_filter) (simp add: entry_hash_def)

lemma first_entry_kept:
  "hash_ssn ssn \<notin> range_set (lo, hi) \<Longrightarrow> first_entry ssn (kept lo hi es) = first_entry ssn es"
  unfolding kept_def by (rule first_entry_filter) (simp add: entry_hash_def)

section \<open>Entries stay in range\<close>

definition entries_owned :: "node \<Rightarrow> bool" where
  "entries_owned n = list_all (\<lambda>e. entry_hash e \<in> owned n) (stored n)"

text \<open>Before it has a range a node has no entries.\<close>

definition store_inv :: "node \<Rightarrow> bool" where
  "store_inv n = (if state n \<in> {Q1, Q2, Q3, Q4, Q7, Q8} then stored n = [] else entries_owned n)"

text \<open>The PDU \<open>q15\<close> is about to handle extends the range at one of its ends.\<close>

definition extends_range :: "node \<Rightarrow> bool" where
  "extends_range n = (case last_pdu n of
     Some (NetNewRange p) \<Rightarrow>
       (let (lo, hi) = hash_range n in
        if hi \<noteq> 255 \<and> nnr_range_start p = hi + 1 then hi \<le> nnr_range_end p
        else nnr_range_start p \<le> lo)
   | _ \<Rightarrow> False)"

lemmas store_defs = store_inv_def entries_owned_def owned_def

lemma safe_split_range_exact:
  assumes "B \<subseteq> never" "hash_range n = (lo, hi)"
    and "Q ((split_point lo hi + 1, hi), n\<lparr>hash_range := (lo, split_point lo hi)\<rparr>)"
  shows "safe B Q (split_range bld n)"
proof (rule safeI)
  fix x assume "split_range bld n = Ret x"
  then show "Q x" using split_range_Ret [of bld n "fst x" "snd x" lo hi] assms(2,3) by (cases x) auto
next
  fix e assume "split_range bld n = Panic e"
  then show "e \<notin> B"
    using safe_PanicD [OF safe_split_range [where Q = "\<lambda>_. True"]] assms(1) by blast
qed

lemma kept_split:
  assumes "list_all (\<lambda>e. entry_hash e \<in> range_set (lo, hi)) es"
  shows "list_all (\<lambda>e. entry_hash e \<in> range_set (lo, m)) (kept (m + 1) hi es)"
proof -
  have "h \<in> range_set (lo, m)" if "h \<in> range_set (lo, hi)" "h \<notin> range_set (m + 1, hi)" for h
  proof (cases "m = 255")
    case True
    then have "m + 1 = 0" by simp
    then show ?thesis using that by (simp add: range_set_def)
  next
    case False
    then show ?thesis
      using that unat_Suc_u8 [OF False] by (auto simp: range_set_def word_le_nat_alt)
  qed
  then show ?thesis using assms by (auto simp: list_all_iff kept_def)
qed

lemma store_keep_safe:
  assumes "node_inv n" "store_inv n"
  shows "state n = Q1 \<Longrightarrow> safe {} store_inv (q1 n)" "state n = Q2 \<Longrightarrow> safe {} store_inv (q2 n)"
    "state n = Q3 \<Longrightarrow> safe {} store_inv (q3 n)" "state n = Q4 \<Longrightarrow> safe {} store_inv (q4 n)"
    "state n = Q7 \<Longrightarrow> safe {} store_inv (q7 n)" "state n = Q8 \<Longrightarrow> safe {} store_inv (q8 n)"
    "state n = Q10 \<Longrightarrow> safe {} store_inv (q10 n)" "state n = Q12 \<Longrightarrow> safe {} store_inv (q12 n)"
    "state n = Q16 \<Longrightarrow> safe {} store_inv (q16 n)"
  using assms unfolding q1_def q2_def q3_def q4_def q7_def q8_def q10_def q12_def q16_def
    Let_def take_last_pdu_def
  by (auto intro!: safe_obind safe_intro simp: inv_defs store_defs link_wrapper_def link_stream_def
      set_link_def get_next_addr_def get_new_addr_def assign_successor_def assign_predecessor_def
      split: option.splits PDU.splits)

lemma q5_store:
  assumes "node_inv n" "store_inv n" "state n = Q5"
  shows "safe {} store_inv (q5 bld n)"
proof -
  obtain lo hi where r: "hash_range n = (lo, hi)" by fastforce
  have kept: "list_all (\<lambda>e. entry_hash e \<in> range_set (lo, m)) (kept (m + 1) hi (stored n))" for m
    using assms(2,3) r by (intro kept_split) (simp add: store_defs)
  show ?thesis
    using assms unfolding q5_def Let_def take_last_pdu_def
    by (auto intro!: safe_obind safe_split_range_exact [where lo = lo and hi = hi]
        safe_transfer_kept safe_get_listen_addr safe_unwrap safe_TcpWrapper_send
        safe_connect_to_successor safe_accept_predecessor
        simp: r kept inv_defs store_defs link_stream_def get_src_socket_addr_def assign_successor_def
        split: option.splits PDU.splits)
qed

lemma q13_store:
  assumes "node_inv n" "store_inv n" "state n = Q13"
  shows "safe {} store_inv (q13 bld n)"
proof -
  obtain lo hi where r: "hash_range n = (lo, hi)" by fastforce
  have kept: "list_all (\<lambda>e. entry_hash e \<in> range_set (lo, m)) (kept (m + 1) hi (stored n))" for m
    using assms(2,3) r by (intro kept_split) (simp add: store_defs)
  show ?thesis
    using assms unfolding q13_def Let_def take_last_pdu_def
    by (auto intro!: safe_obind safe_split_range_exact [where lo = lo and hi = hi]
        safe_transfer_kept safe_unwrap safe_TcpWrapper_send safe_shutdown_stream
        safe_connect_to_successor
        simp: r kept inv_defs store_defs link_stream_def get_src_socket_addr_def assign_successor_def
          get_successor_addr_def peer_addr_v4_def unwrap_io_def
        split: option.splits PDU.splits)
qed

lemma q14_store:
  assumes "node_inv n" "store_inv n" "state n = Q14"
  shows "safe {} store_inv (q14 bld n)"
  using assms unfolding q14_def Let_def take_last_pdu_def
  by (cases "hash_range n")
    (auto intro!: safe_obind safe_intro simp: inv_defs store_defs split: option.splits PDU.splits)

lemma q11_store:
  assumes "node_inv n" "store_inv n" "state n = Q11"
  shows "safe {} store_inv (q11 n)"
  using assms unfolding q11_def Let_def
  by (cases "hash_range n")
    (auto intro!: safe_obind safe_intro simp: inv_defs store_defs link_wrapper_def link_stream_def
      set_link_def split: PDU.splits)

lemma q17_store:
  assumes "node_inv n" "store_inv n" "state n = Q17"
  shows "safe {} store_inv (q17 n)"
  using assms unfolding q17_def Let_def
  by (cases "hash_range n")
    (auto intro!: safe_obind safe_intro simp: inv_defs store_defs split: option.splits)

lemma kept_all: "list_all (\<lambda>e. entry_hash e \<in> range_set (lo, hi)) es \<Longrightarrow> kept lo hi es = []"
  by (auto simp: kept_def list_all_iff filter_empty_conv)

text \<open>A node that leaves gives all its entries away.\<close>

lemma q18_store:
  assumes "node_inv n" "store_inv n" "state n = Q18"
  shows "safe {} (\<lambda>n'. store_inv n' \<and> stored n' = [] \<and> \<not> running n') (q18 n)"
proof -
  obtain lo hi where r: "hash_range n = (lo, hi)" by fastforce
  show ?thesis
    using assms unfolding q18_def Let_def
    by (auto intro!: safe_obind safe_transfer_kept safe_expect_socket safe_TcpWrapper_send
        safe_shutdown_stream simp: r kept_all inv_defs store_defs link_stream_def split: PDU.splits)
qed

lemma q15_store:
  assumes "node_inv n" "store_inv n" "state n = Q15" "extends_range n"
  shows "safe {} store_inv (q15 bld n)"
proof -
  obtain lo hi where r: "hash_range n = (lo, hi)" by fastforce
  obtain p where p: "last_pdu n = Some (NetNewRange p)"
    using assms(4) by (auto simp: extends_range_def split: option.splits PDU.splits)
  have mono: "list_all (\<lambda>e. entry_hash e \<in> range_set (lo', hi')) (stored n)" if "lo' \<le> lo" "hi \<le> hi'"
    for lo' hi'
    using assms(2,3) r that by (auto simp: store_defs list_all_iff range_set_def)
  show ?thesis
    using assms(4) unfolding q15_def Let_def take_last_pdu_def p
    by (auto intro!: safe_obind safe_unwrap_any safe_TcpWrapper_send simp: r p store_defs mono
        extends_range_def add_u8_def split: if_splits)
qed

lemma handle_pdu_entries: "entries_owned n \<Longrightarrow> safe {} entries_owned (handle_pdu p src n)"
proof (cases p)
  case (ValInsert q)
  assume "entries_owned n"
  then show ?thesis
    using ValInsert by (auto intro!: safe_obind safe_forward simp: q9_def take_last_pdu_def
        handle_val_insert_def in_my_range_iff Let_def entries_owned_def owned_def push_entry_def
        entry_hash_def Entry_new_def)
next
  case (ValRemove q)
  assume "entries_owned n"
  then show ?thesis
    using ValRemove by (auto intro!: safe_obind safe_forward simp: q9_def take_last_pdu_def
        handle_val_remove_def entries_owned_def owned_def retain_other_def list_all_iff)
next
  case (ValLookup q)
  assume "entries_owned n"
  then show ?thesis
    using ValLookup by (auto intro!: safe_obind safe_forward safe_send_udp simp: q9_def
        take_last_pdu_def handle_val_lookup_def entries_owned_def owned_def Let_def split: option.splits)
qed (auto simp: entries_owned_def owned_def split: source.splits)

text \<open>The fields the calls around \<open>handle_pdu\<close> in \<open>q6\<close> leave alone.\<close>

definition same_core :: "node \<Rightarrow> node \<Rightarrow> bool" where
  "same_core n m \<longleftrightarrow> state m = state n \<and> own_address m = own_address n \<and> stored m = stored n \<and>
     hash_range m = hash_range n \<and> last_pdu m = last_pdu n \<and> running m = running n"

lemma same_core_refl [simp]: "same_core n n"
  by (simp add: same_core_def)

lemma next_message_core: "next_message token n = (m, n1) \<Longrightarrow> same_core n n1"
  by (auto simp: next_message_def split_beta same_core_def split: if_splits)

lemma safe_any: "(\<And>x. safe {} Q (f x)) \<Longrightarrow> safe {} Q (obind m f)"
  by (cases m) simp_all

lemma q6_invariant:
  assumes core: "\<And>n m. same_core n m \<Longrightarrow> P n \<Longrightarrow> P m"
    and handle: "\<And>n p src. P n \<Longrightarrow> safe {} P (handle_pdu p src n)"
    and "P n"
  shows "safe {} (\<lambda>n'. \<exists>m. P m \<and> (n' = m \<or> n' = m\<lparr>state := Q10\<rparr>)) (q6 t n)"
proof -
  let ?Q = "\<lambda>n'. \<exists>m. P m \<and> (n' = m \<or> n' = m\<lparr>state := Q10\<rparr>)"
  have drained: "P n \<Longrightarrow> safe {} P (drain token n)" for token n
    by (rule drain_invariant [OF handle]) (use core next_message_core in blast)+
  have event: "safe {} P (handle_event token n)" if "P n" for token n
    using that unfolding handle_event_def Let_def
    by (auto intro!: safe_any drained core [OF _ that] split: option.splits
        simp: same_core_def assign_successor_def)
  have events: "P n \<Longrightarrow> safe {} P (handle_events tokens n)" for tokens n
  proof (induction tokens arbitrary: n)
    case (Cons token tokens)
    show ?case
      unfolding handle_events.simps
      by (intro safe_obind safe_mono [OF event [OF Cons.prems]]) (rule Cons.IH)
  qed simp
  have finish: "safe {} ?Q (obind (sys_unwrap n) (\<lambda>n.
      obind (sys_unwrap_if (successor n) n) (\<lambda>n.
      obind (sys_unwrap_if (predecessor n) n) (\<lambda>n.
      let n = n\<lparr>should_close := should_close n \<or> tick_signal t\<rparr> in
      Ret (if should_close n then n\<lparr>state := Q10\<rparr> else n)))))" if "P n" for n
  proof -
    have Pm: "P (n\<lparr>syscalls := ss, should_close := c\<rparr>)" for ss c
      by (rule core [OF _ that]) (simp add: same_core_def)
    show ?thesis
      by (intro safe_obind safe_intro empty_subsetI) (simp add: Let_def, use Pm in blast)
  qed
  show ?thesis
    unfolding q6_def Let_def
    by (intro safe_obind safe_send_alive safe_sys_unwrap safe_sys_unwrap_if empty_subsetI)
      (rule safe_mono [OF events], rule core [OF _ \<open>P n\<close>],
        use finish in \<open>auto simp: same_core_def sys_ignore_def Let_def\<close>)
qed

lemma q6_entries:
  assumes "entries_owned n"
  shows "safe {} entries_owned (q6 t n)"
proof (rule safe_mono [OF q6_invariant [where P = entries_owned]])
  show "same_core n m \<Longrightarrow> entries_owned n \<Longrightarrow> entries_owned m" for n m
    by (simp add: same_core_def entries_owned_def owned_def)
qed (use assms handle_pdu_entries in \<open>auto simp: entries_owned_def owned_def\<close>)

lemma handle_pdu_running: "running n \<Longrightarrow> safe {} running (handle_pdu p src n)"
proof (rule safeI)
  fix n' assume n: "running n" "handle_pdu p src n = Ret n'"
  obtain a b c d e where "n' = n\<lparr>state := a, last_pdu := b, stored := c, successor := d, udp_sock := e\<rparr>"
    using handle_pdu_step [OF n(2)] unfolding handle_step_def val_step_def by blast
  then show "running n'" using n(1) by simp
qed simp

lemma q6_running: "running n \<Longrightarrow> safe {} running (q6 t n)"
proof (rule safe_mono [OF q6_invariant [where P = running]])
  show "same_core n m \<Longrightarrow> running n \<Longrightarrow> running m" for n m by (simp add: same_core_def)
qed (use handle_pdu_running in auto)

end
