(* ===== verification/Node_Protocol.thy ===== *)
theory Node_Protocol
  imports Node_Ranges
begin

text \<open>
  The node as a state machine: which state can follow which, how soon it is idle again, and
  what a join and a leave do as a whole.
\<close>

section \<open>The graph of the states\<close>

fun next_states :: "node_state \<Rightarrow> node_state list" where
  "next_states Q1 = [Q2]"
| "next_states Q2 = [Q3]"
| "next_states Q3 = [Q4, Q7]"
| "next_states Q4 = [Q6]"
| "next_states Q5 = [Q6]"
| "next_states Q6 = [Q6, Q10, Q12, Q15, Q16, Q17]"
| "next_states Q7 = [Q8]"
| "next_states Q8 = [Q6]"
| "next_states Q9 = [Q6]"
| "next_states Q10 = [Q10, Q11]"
| "next_states Q11 = [Q18]"
| "next_states Q12 = [Q5, Q13, Q14]"
| "next_states Q13 = [Q6]"
| "next_states Q14 = [Q6]"
| "next_states Q15 = [Q6]"
| "next_states Q16 = [Q6]"
| "next_states Q17 = [Q6]"
| "next_states Q18 = [Q18]"

text \<open>\<open>Q10\<close> and \<open>Q18\<close> stay where they are only to stop.\<close>

definition moves :: "node_state \<Rightarrow> node \<Rightarrow> bool" where
  "moves q n' \<longleftrightarrow> state n' \<in> set (next_states q) \<and>
     (q \<in> {Q10, Q18} \<and> state n' = q \<longleftrightarrow> \<not> running n')"

lemma moves_states:
  assumes "node_inv n" "running n"
  shows "state n = Q1 \<Longrightarrow> safe {} (moves Q1) (q1 n)" "state n = Q2 \<Longrightarrow> safe {} (moves Q2) (q2 n)"
    "state n = Q3 \<Longrightarrow> safe {} (moves Q3) (q3 n)" "state n = Q4 \<Longrightarrow> safe {} (moves Q4) (q4 n)"
    "state n = Q7 \<Longrightarrow> safe {} (moves Q7) (q7 n)" "state n = Q8 \<Longrightarrow> safe {} (moves Q8) (q8 n)"
    "state n = Q10 \<Longrightarrow> safe {} (moves Q10) (q10 n)" "state n = Q12 \<Longrightarrow> safe {} (moves Q12) (q12 n)"
    "state n = Q16 \<Longrightarrow> safe {} (moves Q16) (q16 n)"
  using assms unfolding q1_def q2_def q3_def q4_def q7_def q8_def q10_def q12_def q16_def
    Let_def take_last_pdu_def
  by (auto intro!: safe_obind safe_intro simp: moves_def inv_defs link_wrapper_def link_stream_def
      set_link_def assign_successor_def assign_predecessor_def split: option.splits PDU.splits)

lemma moves_ranges:
  assumes "node_inv n" "running n"
  shows "state n = Q5 \<Longrightarrow> safe {} (moves Q5) (q5 bld n)"
    "state n = Q11 \<Longrightarrow> safe {} (moves Q11) (q11 n)"
    "state n = Q13 \<Longrightarrow> safe {} (moves Q13) (q13 bld n)"
    "state n = Q14 \<Longrightarrow> safe {} (moves Q14) (q14 bld n)"
    "state n = Q17 \<Longrightarrow> safe {} (moves Q17) (q17 n)"
    "state n = Q18 \<Longrightarrow> safe {} (moves Q18) (q18 n)"
  using assms unfolding q5_def q11_def q13_def q14_def q17_def q18_def Let_def take_last_pdu_def
  by (cases "hash_range n";
      auto intro!: safe_obind safe_intro simp: moves_def inv_defs link_wrapper_def link_stream_def
      set_link_def assign_successor_def assign_predecessor_def get_successor_addr_def peer_addr_v4_def
      unwrap_io_def split: option.splits PDU.splits)+

lemma moves_q15:
  assumes "node_inv n" "running n" "state n = Q15"
  shows "safe {} (moves Q15) (q15 bld n)"
  using assms unfolding q15_def Let_def take_last_pdu_def
  by (cases "hash_range n") (auto intro!: safe_obind safe_unwrap_any safe_TcpWrapper_send
      simp: moves_def inv_defs add_u8_def split: option.splits PDU.splits)

lemma moves_q6:
  assumes "node_inv n" "running n" "state n = Q6" "known_tokens t"
  shows "safe {} (moves Q6) (q6 t n)"
proof (rule safeI)
  fix n' assume r: "q6 t n = Ret n'"
  have "running n'" using safe_RetD [OF q6_running [OF assms(2)] r] .
  moreover have "state n' \<in> {Q6, Q10, Q12, Q15, Q16, Q17}"
    using safe_RetD [OF q6_batch [OF assms(3,1) known_tokens_set [OF assms(4)]] r] by blast
  ultimately show "moves Q6 n'" by (auto simp: moves_def)
qed simp

lemma node_step_moves:
  assumes "node_inv n" "running n" "known_tokens t" "node_step bld t n = Ret n'"
  shows "moves (state n) n'"
proof (cases "state n")
  case Q9
  then show ?thesis using assms(1) by (simp add: inv_defs)
qed (use assms moves_states [OF assms(1,2)] moves_ranges [OF assms(1,2)] moves_q15 [OF assms(1,2)]
    moves_q6 [OF assms(1,2) _ assms(3)] in \<open>simp_all add: node_step_def safe_def\<close>)

text \<open>How many passes away from the idle state, or from the end, a state is.\<close>

fun rank :: "node_state \<Rightarrow> nat" where
  "rank Q1 = 5" | "rank Q2 = 4" | "rank Q3 = 3" | "rank Q4 = 1" | "rank Q5 = 1" | "rank Q6 = 0"
| "rank Q7 = 2" | "rank Q8 = 1" | "rank Q9 = 1" | "rank Q10 = 3" | "rank Q11 = 2" | "rank Q12 = 2"
| "rank Q13 = 1" | "rank Q14 = 1" | "rank Q15 = 1" | "rank Q16 = 1" | "rank Q17 = 1" | "rank Q18 = 1"

lemma rank_decreases:
  "moves q n' \<Longrightarrow> q \<noteq> Q6 \<Longrightarrow> running n' \<Longrightarrow> rank (state n') < rank q"
  by (cases q) (auto simp: moves_def)

lemma node_step_store:
  assumes "node_inv n" "store_inv n" "running n" "known_tokens t" "node_step bld t n = Ret n'"
    and "state n = Q15 \<longrightarrow> extends_range n"
  shows "store_inv n'"
proof (cases "state n")
  case Q6
  have "entries_owned n'"
    using safe_RetD [OF q6_entries] assms(2,5) Q6 by (auto simp: store_inv_def node_step_def)
  moreover have "state n' \<in> set (next_states Q6)"
    using node_step_moves [OF assms(1,3-5)] Q6 by (simp add: moves_def)
  ultimately show ?thesis by (auto simp: store_inv_def)
next
  case Q9
  then show ?thesis using assms(1) by (simp add: inv_defs)
next
  case Q18
  then show ?thesis using assms safe_RetD [OF q18_store] by (simp add: node_step_def)
qed (use assms store_keep_safe [OF assms(1,2)] q5_store [OF assms(1,2)] q13_store [OF assms(1,2)]
    q14_store [OF assms(1,2)] q11_store [OF assms(1,2)] q17_store [OF assms(1,2)]
    q15_store [OF assms(1,2)] in \<open>simp_all add: node_step_def safe_def\<close>)

text \<open>
  Runs in which every \<open>NET_NEW_RANGE\<close> that is handled extends the range of the node it reaches,
  as the protocol intends.
\<close>

inductive orderly :: "build \<Rightarrow> node \<Rightarrow> bool" for bld where
  orderly_new: "Node_new e tracker = Ret n \<Longrightarrow> orderly bld n"
| orderly_step: "orderly bld n \<Longrightarrow> running n \<Longrightarrow> known_tokens t \<Longrightarrow>
    (state n = Q15 \<longrightarrow> extends_range n) \<Longrightarrow> node_step bld t n = Ret n' \<Longrightarrow> orderly bld n'"

lemma orderly_reachable: "orderly bld n \<Longrightarrow> reachable bld n"
  by (induction rule: orderly.induct) (auto intro: reachable.intros)

lemma Node_new_store: "Node_new e tracker = Ret n \<Longrightarrow> stored n = []"
  by (auto simp: Node_new_def obind_eq_Ret unwrap_io_def get_listen_addr_def Let_def
      split: if_splits option.splits socket_addr.splits)

lemma orderly_store: "orderly bld n \<Longrightarrow> store_inv n"
proof (induction rule: orderly.induct)
  case (orderly_new e tracker n)
  then show ?case using Node_new_inv [of e tracker n] Node_new_store [of e tracker n]
    by (simp add: store_inv_def)
next
  case (orderly_step n t n')
  then show ?case
    using node_step_store reachable_inv [OF orderly_reachable [OF orderly_step.hyps(1)]] by blast
qed

lemma run_node_idle:
  assumes "reachable bld n" "running n" "list_all known_tokens ts" "rank (state n) \<le> length ts"
  shows "\<exists>k \<le> rank (state n). case run_node bld (take k ts) n of
    Ret n' \<Rightarrow> state n' = Q6 \<or> \<not> running n' | _ \<Rightarrow> True"
  using assms
proof (induction "rank (state n)" arbitrary: n ts rule: less_induct)
  case less
  show ?case
  proof (cases "state n = Q6")
    case True
    then show ?thesis by (intro exI [of _ 0]) simp
  next
    case False
    then have "rank (state n) \<noteq> 0" by (cases "state n") auto
    then obtain t us where ts: "ts = t # us" using less.prems(4) by (cases ts) auto
    show ?thesis
    proof (cases "node_step bld t n")
      case (Ret n')
      have t: "known_tokens t" "list_all known_tokens us" using less.prems(3) ts by auto
      have r: "reachable bld n'" using reachable_step [OF less.prems(1,2) t(1) Ret] .
      show ?thesis
      proof (cases "running n'")
        case True
        have "moves (state n) n'"
          using node_step_moves [OF reachable_inv [OF less.prems(1)] less.prems(2) t(1) Ret] .
        from rank_decreases [OF this False True] have d: "rank (state n') < rank (state n)" .
        then have "rank (state n') \<le> length us" using less.prems(4) ts by simp
        from less.hyps [OF d r True t(2) this] obtain k where k: "k \<le> rank (state n')"
          "case run_node bld (take k us) n' of Ret m \<Rightarrow> state m = Q6 \<or> \<not> running m | _ \<Rightarrow> True" by blast
        then show ?thesis
          using d less.prems(2) Ret ts by (intro exI [of _ "Suc k"]) simp
      next
        case stop: False
        then show ?thesis
          using less.prems(2) Ret ts \<open>rank (state n) \<noteq> 0\<close> by (intro exI [of _ 1]) simp
      qed
    qed (use less.prems(2) ts \<open>rank (state n) \<noteq> 0\<close> in \<open>auto intro!: exI [of _ 1]\<close>)
  qed
qed

section \<open>A join\<close>

text \<open>
  \<open>link_ready\<close>: the peer takes what is sent and the stream can be shut down.  \<open>offers c n\<close>:
  the next \<open>connect\<close> succeeds with the stream \<open>c\<close>, and no system call fails.
\<close>

definition link_ready :: "tcp_stream \<Rightarrow> bool" where
  "link_ready s \<longleftrightarrow> writable s \<and> shutdown_ok s"

definition offers :: "tcp_stream \<Rightarrow> tcp_stream option list \<Rightarrow> node \<Rightarrow> bool" where
  "offers c cs n \<longleftrightarrow> connects n = Some c # cs \<and> peer_addr c \<noteq> None \<and> link_ready c \<and> syscalls n = []"

lemma connect_offered:
  "offers c cs n \<Longrightarrow> connect_to_successor a n =
     Ret (c\<lparr>peer_addr := Some a\<rparr>, n\<lparr>connects := cs, successor_listen := Some a\<rparr>)"
  by (auto simp: offers_def connect_to_successor_def unwrap_io_def sys_unwrap_def Let_def)

lemma send_ready:
  assumes "link_ready s"
  shows "\<exists>s'. TcpWrapper_send w s p = Ret s' \<and> link_ready s' \<and> peer_addr s' = peer_addr s \<and>
    inbox s' = inbox s \<and> is_shut s' = is_shut s \<and> outbox s' = outbox s @ to_bytes p"
proof -
  obtain s' where s': "TcpWrapper_send w s p = Ret s'" "writable s'"
    using TcpWrapper_send_writable [of s w p] assms by (auto simp: link_ready_def)
  obtain x y where "s' = s\<lparr>writes := x, outbox := y\<rparr>" "y = outbox s @ to_bytes p"
    using TcpWrapper_send_facts [OF s'(1)] by metis
  then show ?thesis using s' assms by (auto simp: link_ready_def)
qed

lemma transfer_link_ready:
  assumes "link_stream succ n = Some s" "link_ready s"
  shows "\<exists>s'. transfer succ lo hi n =
      Ret ((if succ then n\<lparr>successor := Some s'\<rparr> else n\<lparr>predecessor := Some s'\<rparr>)
        \<lparr>stored := kept lo hi (stored n)\<rparr>) \<and>
    link_ready s' \<and> peer_addr s' = peer_addr s \<and> inbox s' = inbox s \<and>
    outbox s' = outbox s @ concat (map (to_bytes \<circ> insert_of) (moved lo hi (stored n)))"
  using transfer_ready [OF assms(1), of lo hi] assms(2) unfolding link_ready_def by metis

text \<open>The bytes a joining node receives: its range and neighbour, then its entries.\<close>

definition join_bytes :: "socket_addr_v4 \<Rightarrow> u8 \<Rightarrow> u8 \<Rightarrow> entry list \<Rightarrow> u8 list" where
  "join_bytes next lo hi es = to_bytes (NetJoinResponse (NetJoinResponsePdu_new (fst next) (snd next) lo hi))
     @ concat (map (to_bytes \<circ> insert_of) es)"

lemma q13_joins:
  assumes "last_pdu n = Some (NetJoin p)" "successor n = Some s" "link_ready s"
    and "peer_addr s = Some (V4 a)" "offers c cs n" "hash_range n = (lo, hi)" "lo < hi"
  shows "\<exists>n' s' c'. q13 bld n = Ret n' \<and> state n' = Q6 \<and>
    hash_range n' = (lo, split_point lo hi) \<and>
    stored n' = kept (split_point lo hi + 1) hi (stored n) \<and>
    successor n' = Some c' \<and> successor_listen n' = Some (get_src_socket_addr p) \<and>
    peer_addr c' = Some (get_src_socket_addr p) \<and>
    outbox c' = outbox c @ join_bytes a (split_point lo hi + 1) hi (moved (split_point lo hi + 1) hi (stored n)) \<and>
    dropped n' = dropped n @ [s'] \<and> is_shut s' \<and>
    outbox s' = outbox s @ to_bytes (NetCloseConnection NetCloseConnectionPdu_new) \<and>
    predecessor n' = predecessor n"
proof -
  let ?m = "split_point lo hi" and ?a = "get_src_socket_addr p"
  obtain s1 where s1: "TcpWrapper_send (successor_wrapper n) s (NetCloseConnection NetCloseConnectionPdu_new) = Ret s1"
    "link_ready s1" "outbox s1 = outbox s @ to_bytes (NetCloseConnection NetCloseConnectionPdu_new)"
    using send_ready [OF assms(3)] by blast
  let ?s' = "s1\<lparr>is_shut := True\<rparr>"
  have shut: "shutdown_stream s1 = Ret ?s'"
    using s1(2) by (simp add: shutdown_stream_def link_ready_def)
  let ?n1 = "assign_successor None (n\<lparr>last_pdu := None, successor := Some ?s'\<rparr>)"
  have "offers c cs ?n1" using assms(5) by (simp add: offers_def assign_successor_def)
  note conn = connect_offered [OF this, of ?a]
  let ?c = "c\<lparr>peer_addr := Some ?a\<rparr>"
  let ?n2 = "(assign_successor (Some ?c) (?n1\<lparr>connects := cs, successor_listen := Some ?a\<rparr>))\<lparr>last_pdu := None\<rparr>"
  have "hash_range ?n2 = (lo, hi)" using assms(6) by (simp add: assign_successor_def)
  then have split: "split_range bld ?n2 = Ret ((?m + 1, hi), ?n2\<lparr>hash_range := (lo, ?m)\<rparr>)"
    using assms(7) by (intro split_range_defined) auto
  have "link_ready ?c" using assms(5) by (simp add: offers_def link_ready_def writable_def)
  then obtain c1 where c1: "TcpWrapper_send (successor_wrapper n) ?c
      (NetJoinResponse (NetJoinResponsePdu_new (fst a) (snd a) (?m + 1) hi)) = Ret c1"
    "link_ready c1" "peer_addr c1 = Some ?a"
    "outbox c1 = outbox c @ to_bytes (NetJoinResponse (NetJoinResponsePdu_new (fst a) (snd a) (?m + 1) hi))"
    using send_ready [of ?c "successor_wrapper n"
        "NetJoinResponse (NetJoinResponsePdu_new (fst a) (snd a) (?m + 1) hi)"] by auto
  let ?n3 = "?n2\<lparr>hash_range := (lo, ?m), successor := Some c1\<rparr>"
  have "link_stream True ?n3 = Some c1" by (simp add: link_stream_def)
  from transfer_link_ready [OF this c1(2), of "?m + 1" hi] obtain c2 where c2:
    "transfer True (?m + 1) hi ?n3 =
       Ret (?n3\<lparr>successor := Some c2, stored := kept (?m + 1) hi (stored n)\<rparr>)" "link_ready c2"
    "peer_addr c2 = Some ?a"
    "outbox c2 = outbox c1 @ concat (map (to_bytes \<circ> insert_of) (moved (?m + 1) hi (stored n)))"
    using c1(3) by (auto simp: assign_successor_def)
  have "q13 bld n = Ret (?n3\<lparr>successor := Some c2, stored := kept (?m + 1) hi (stored n), state := Q6\<rparr>)"
    using assms(1,2,4) s1(1) shut conn split c1(1) c2(1)
    by (simp add: q13_def take_last_pdu_def get_successor_addr_def peer_addr_v4_def unwrap_io_def
        assign_successor_def Let_def)
  then show ?thesis
    using s1(3) c1(4) c2(3,4)
    by (intro exI [of _ "?n3\<lparr>successor := Some c2, stored := kept (?m + 1) hi (stored n), state := Q6\<rparr>"]
        exI [of _ ?s'] exI [of _ c2]) (simp add: assign_successor_def join_bytes_def)
qed

text \<open>The first node of a network lets a second one join.\<close>

lemma q5_joins:
  assumes "last_pdu n = Some (NetJoin p)" "offers c cs n" "hash_range n = (lo, hi)" "lo < hi"
    and "own_address n = Some own" "local_addr (listen_socket n) = Some (V4 la)"
    and "accepts (listen_socket n) = Some pr # prs"
  shows "\<exists>n' c'. q5 bld n = Ret n' \<and> state n' = Q6 \<and>
    hash_range n' = (lo, split_point lo hi) \<and>
    stored n' = kept (split_point lo hi + 1) hi (stored n) \<and>
    successor n' = Some c' \<and> successor_listen n' = Some (get_src_socket_addr p) \<and>
    peer_addr c' = Some (get_src_socket_addr p) \<and>
    outbox c' = outbox c @ join_bytes (own, snd la) (split_point lo hi + 1) hi
      (moved (split_point lo hi + 1) hi (stored n)) \<and>
    predecessor n' = Some pr"
proof -
  let ?m = "split_point lo hi" and ?a = "get_src_socket_addr p"
  let ?n1 = "n\<lparr>last_pdu := None\<rparr>"
  have "offers c cs ?n1" using assms(2) by (simp add: offers_def)
  note conn = connect_offered [OF this, of ?a]
  let ?c = "c\<lparr>peer_addr := Some ?a\<rparr>"
  let ?n2 = "?n1\<lparr>connects := cs, successor_listen := Some ?a\<rparr>"
  have "hash_range ?n2 = (lo, hi)" using assms(3) by simp
  then have split: "split_range bld ?n2 = Ret ((?m + 1, hi), ?n2\<lparr>hash_range := (lo, ?m)\<rparr>)"
    using assms(4) by (intro split_range_defined) auto
  have "link_ready ?c" using assms(2) by (simp add: offers_def link_ready_def writable_def)
  then obtain c1 where c1: "TcpWrapper_send (successor_wrapper n) ?c
      (NetJoinResponse (NetJoinResponsePdu_new own (snd la) (?m + 1) hi)) = Ret c1"
    "link_ready c1" "peer_addr c1 = Some ?a"
    "outbox c1 = outbox c @ to_bytes (NetJoinResponse (NetJoinResponsePdu_new own (snd la) (?m + 1) hi))"
    using send_ready [of ?c "successor_wrapper n"
        "NetJoinResponse (NetJoinResponsePdu_new own (snd la) (?m + 1) hi)"] by auto
  let ?n3 = "assign_successor (Some c1) (?n2\<lparr>hash_range := (lo, ?m)\<rparr>)"
  have "link_stream True ?n3 = Some c1" by (simp add: link_stream_def assign_successor_def)
  from transfer_link_ready [OF this c1(2), of "?m + 1" hi] obtain c2 where c2:
    "transfer True (?m + 1) hi ?n3 =
       Ret (?n3\<lparr>successor := Some c2, stored := kept (?m + 1) hi (stored n)\<rparr>)"
    "peer_addr c2 = Some ?a"
    "outbox c2 = outbox c1 @ concat (map (to_bytes \<circ> insert_of) (moved (?m + 1) hi (stored n)))"
    using c1(3) by (auto simp: assign_successor_def)
  let ?n4 = "?n3\<lparr>successor := Some c2, stored := kept (?m + 1) hi (stored n)\<rparr>"
  let ?n5 = "assign_predecessor (Some pr) (?n4\<lparr>listen_socket := (listen_socket n)\<lparr>accepts := prs\<rparr>\<rparr>)"
  have acc: "accept_predecessor ?n4 = Ret ?n5"
    using assms(2,7) by (simp add: accept_predecessor_def assign_successor_def sys_unwrap_def offers_def)
  have "q5 bld n = Ret (?n5\<lparr>state := Q6\<rparr>)"
    using assms(1,5,6) conn split c1(1) c2(1) acc
    by (simp add: q5_def take_last_pdu_def get_listen_addr_def unwrap_io_def assign_successor_def Let_def)
  then show ?thesis
    using c1(4) c2(2,3)
    by (intro exI [of _ "?n5\<lparr>state := Q6\<rparr>"] exI [of _ c2])
      (simp add: assign_successor_def assign_predecessor_def join_bytes_def)
qed

text \<open>
  A \<open>NET_JOIN\<close> on its way round the ring: the node whose listen address it carries lets the
  new node in, every other node passes it on with the larger of the two spans.
\<close>

lemma q12_decides:
  assumes "last_pdu n = Some (NetJoin p)" "local_addr (listen_socket n) = Some (V4 la)"
  shows "q12 n = Ret (n\<lparr>state := (if successor n = None then Q5
      else if la = (nj_max_address p, nj_max_port p) then Q13 else Q14)\<rparr>)"
proof -
  have "n\<lparr>last_pdu := Some (NetJoin p)\<rparr> = n" using assms(1) by simp
  then show ?thesis
    using assms by (auto simp: q12_def take_last_pdu_def get_listen_addr_def unwrap_io_def
        get_max_socket_addr_def)
qed

definition with_larger_span :: "u8 \<Rightarrow> socket_addr_v4 \<Rightarrow> NetJoinPdu \<Rightarrow> NetJoinPdu" where
  "with_larger_span span a p = (if nj_max_span p < span
     then p\<lparr>nj_max_span := span, nj_max_address := fst a, nj_max_port := snd a\<rparr> else p)"

lemma q14_forwards:
  assumes "last_pdu n = Some (NetJoin p)" "successor n = Some s" "link_ready s"
    and "hash_range n = (lo, hi)" "lo \<le> hi" "local_addr (listen_socket n) = Some (V4 la)"
  shows "\<exists>s'. q14 bld n = Ret (n\<lparr>last_pdu := None, successor := Some s', state := Q6\<rparr>) \<and>
    link_ready s' \<and> peer_addr s' = peer_addr s \<and>
    outbox s' = outbox s @ to_bytes (NetJoin (with_larger_span (hi - lo) la p))"
proof -
  let ?p = "NetJoin (with_larger_span (hi - lo) la p)"
  obtain s' where s': "TcpWrapper_send (successor_wrapper n) s ?p = Ret s'" "link_ready s'"
    "peer_addr s' = peer_addr s" "outbox s' = outbox s @ to_bytes ?p" using send_ready [OF assms(3)] by blast
  have "q14 bld n = Ret (n\<lparr>last_pdu := None, successor := Some s', state := Q6\<rparr>)"
    using assms s'(1) by (cases "nj_max_span p < hi - lo") (simp_all add: q14_def take_last_pdu_def sub_u8_Ret get_listen_addr_def
        unwrap_io_def with_larger_span_def)
  then show ?thesis using s' by blast
qed

lemma with_larger_span_max: "nj_max_span (with_larger_span x a p) = max (nj_max_span p) x"
  by (auto simp: with_larger_span_def max_def)

section \<open>A leave\<close>

lemma q18_leaves:
  assumes "hash_range n = (lo, hi)" "successor n = Some s" "predecessor n = Some r"
    and "link_ready s" "link_ready r" "successor_listen n = Some (V4 a)" "store_inv n" "state n = Q18"
  shows "\<exists>n' s' r'. q18 n = Ret n' \<and> \<not> running n' \<and> stored n' = [] \<and>
    successor n' = Some s' \<and> predecessor n' = Some r' \<and> is_shut s' \<and> is_shut r' \<and>
    outbox s' = outbox s @ (if lo = 0 then concat (map (to_bytes \<circ> insert_of) (stored n)) else []) @
      to_bytes (NetCloseConnection NetCloseConnectionPdu_new) \<and>
    outbox r' = outbox r @ (if lo = 0 then [] else concat (map (to_bytes \<circ> insert_of) (stored n))) @
      to_bytes (NetLeaving (NetLeavingPdu_new (fst a) (snd a)))"
proof -
  have own: "list_all (\<lambda>e. entry_hash e \<in> range_set (lo, hi)) (stored n)"
    using assms(1,7,8) by (simp add: store_defs)
  then have all: "kept lo hi (stored n) = []" "moved lo hi (stored n) = stored n"
    by (auto simp: kept_all moved_def list_all_iff filter_id_conv)
  let ?b = "concat (map (to_bytes \<circ> insert_of) (stored n))"
  let ?close = "NetCloseConnection NetCloseConnectionPdu_new"
  let ?leave = "NetLeaving (NetLeavingPdu_new (fst a) (snd a))"
  obtain s1 r1 where tr: "(if lo = 0 then transfer True lo hi n else transfer False lo hi n) =
      Ret (n\<lparr>successor := Some s1, predecessor := Some r1, stored := []\<rparr>)"
    and s1: "link_ready s1" "outbox s1 = outbox s @ (if lo = 0 then ?b else [])"
    and r1: "link_ready r1" "outbox r1 = outbox r @ (if lo = 0 then [] else ?b)"
  proof (cases "lo = 0")
    case True
    have "link_stream True n = Some s" using assms(2) by (simp add: link_stream_def)
    from transfer_link_ready [OF this assms(4), of lo hi] obtain s1 where
      "transfer True lo hi n = Ret (n\<lparr>successor := Some s1, stored := []\<rparr>)" "link_ready s1"
      "outbox s1 = outbox s @ ?b" using all by auto
    moreover have "n\<lparr>successor := x, stored := []\<rparr> = n\<lparr>successor := x, predecessor := Some r, stored := []\<rparr>" for x
      using assms(3) by (cases n) simp
    ultimately show ?thesis using True assms(5) by (intro that [of r s1]) auto
  next
    case False
    have "link_stream False n = Some r" using assms(3) by (simp add: link_stream_def)
    from transfer_link_ready [OF this assms(5), of lo hi] obtain r1 where
      "transfer False lo hi n = Ret (n\<lparr>predecessor := Some r1, stored := []\<rparr>)" "link_ready r1"
      "outbox r1 = outbox r @ ?b" using all by auto
    moreover have "n\<lparr>predecessor := x, stored := []\<rparr> = n\<lparr>successor := Some s, predecessor := x, stored := []\<rparr>" for x
      using assms(2) by (cases n) simp
    ultimately show ?thesis using False assms(4) by (intro that [of r1 s]) auto
  qed
  obtain s2 where s2: "TcpWrapper_send (successor_wrapper n) s1 ?close = Ret s2" "link_ready s2"
    "outbox s2 = outbox s1 @ to_bytes ?close" using send_ready [OF s1(1)] by blast
  obtain r2 where r2: "TcpWrapper_send (predecessor_wrapper n) r1 ?leave = Ret r2" "link_ready r2"
    "outbox r2 = outbox r1 @ to_bytes ?leave" using send_ready [OF r1(1)] by blast
  let ?n' = "n\<lparr>successor := Some s1, predecessor := Some r1, stored := [],
    successor := Some (s2\<lparr>is_shut := True\<rparr>), predecessor := Some (r2\<lparr>is_shut := True\<rparr>), running := False\<rparr>"
  have "q18 n = Ret ?n'"
    unfolding q18_def Let_def assms(1) prod.case tr obind.simps
    using assms(6) s2(1,2) r2(1,2) by (simp add: expect_socket_def shutdown_stream_def link_ready_def)
  then show ?thesis
    using s1(2) s2(3) r1(2) r2(3)
    by (intro exI [of _ ?n'] exI [of _ "s2\<lparr>is_shut := True\<rparr>"] exI [of _ "r2\<lparr>is_shut := True\<rparr>"]) simp
qed

text \<open>The neighbour a leaving node asks takes its range over and answers.\<close>

definition taken_over :: "u8 \<times> u8 \<Rightarrow> NetNewRangePdu \<Rightarrow> u8 \<times> u8" where
  "taken_over r p = (if snd r \<noteq> 255 \<and> nnr_range_start p = snd r + 1
     then (fst r, nnr_range_end p) else (nnr_range_start p, snd r))"

definition from_successor :: "u8 \<times> u8 \<Rightarrow> NetNewRangePdu \<Rightarrow> bool" where
  "from_successor r p \<longleftrightarrow> snd r \<noteq> 255 \<and> nnr_range_start p = snd r + 1"

lemma q15_takes_over:
  assumes "last_pdu n = Some (NetNewRange p)"
    and "link_stream (from_successor (hash_range n) p) n = Some s" "link_ready s"
  shows "\<exists>n' s'. q15 bld n = Ret n' \<and> state n' = Q6 \<and> hash_range n' = taken_over (hash_range n) p \<and>
    stored n' = stored n \<and> link_stream (from_successor (hash_range n) p) n' = Some s' \<and>
    outbox s' = outbox s @ to_bytes (NetNewRangeResponse NetNewRangeResponsePdu_new)"
proof -
  obtain lo hi where r: "hash_range n = (lo, hi)" by fastforce
  let ?p = "NetNewRangeResponse NetNewRangeResponsePdu_new"
  have add: "hi \<noteq> 255 \<Longrightarrow> add_u8 bld hi 1 = Ret (hi + 1)"
    using unat_Suc_u8 [of hi] unat_u8_less [of "hi + 1"] by (simp add: add_u8_Ret)
  show ?thesis
  proof (cases "from_successor (lo, hi) p")
    case True
    have suc: "successor n = Some s" using assms(2) True r by (simp add: link_stream_def)
    obtain s' where s': "TcpWrapper_send (successor_wrapper n) s ?p = Ret s'"
      "outbox s' = outbox s @ to_bytes ?p" using send_ready [OF assms(3)] by blast
    have "q15 bld n = Ret (n\<lparr>last_pdu := None, hash_range := (lo, nnr_range_end p), successor := Some s', state := Q6\<rparr>)"
      using assms(1) r True suc s'(1) add by (simp add: q15_def take_last_pdu_def from_successor_def)
    then show ?thesis using s'(2) True r by (simp add: taken_over_def from_successor_def link_stream_def)
  next
    case False
    have pre: "predecessor n = Some s" using assms(2) False r by (simp add: link_stream_def)
    obtain s' where s': "TcpWrapper_send (predecessor_wrapper n) s ?p = Ret s'"
      "outbox s' = outbox s @ to_bytes ?p" using send_ready [OF assms(3)] by blast
    have "q15 bld n = Ret (n\<lparr>last_pdu := None, hash_range := (nnr_range_start p, hi), predecessor := Some s', state := Q6\<rparr>)"
      using assms(1) r False pre s'(1) add
      by (cases "hi = 255") (simp_all add: q15_def take_last_pdu_def from_successor_def)
    then show ?thesis using s'(2) False r by (auto simp: taken_over_def from_successor_def link_stream_def)
  qed
qed

text \<open>A node that has no stream on that side stops.\<close>

lemma q15_no_stream:
  assumes "last_pdu n = Some (NetNewRange p)" "link_stream (from_successor (hash_range n) p) n = None"
  shows "q15 bld n = Panic UnwrapNone"
proof -
  obtain lo hi where r: "hash_range n = (lo, hi)" by fastforce
  have add: "hi \<noteq> 255 \<Longrightarrow> add_u8 bld hi 1 = Ret (hi + 1)"
    using unat_Suc_u8 [of hi] unat_u8_less [of "hi + 1"] by (simp add: add_u8_Ret)
  show ?thesis
    using assms r add by (cases "hi = 255")
      (auto simp: q15_def take_last_pdu_def from_successor_def link_stream_def split: if_splits)
qed

text \<open>Between neighbours, the range taken over is the union of the two.\<close>

definition adjacent :: "u8 \<times> u8 \<Rightarrow> u8 \<times> u8 \<Rightarrow> bool" where
  "adjacent r r' \<longleftrightarrow> fst r \<le> snd r \<and> snd r < fst r' \<and> fst r' = snd r + 1 \<and> fst r' \<le> snd r'"

lemma range_set_adjacent:
  assumes "adjacent (lo, hi) (lo', hi')"
  shows "range_set (lo, hi) \<union> range_set (lo', hi') = range_set (lo, hi')"
proof -
  have "hi < hi'" using assms by (auto simp: adjacent_def)
  then show ?thesis
    using range_set_split(1) [of lo hi hi'] assms by (simp add: adjacent_def)
qed

lemma adjacent_not_top: "adjacent r r' \<Longrightarrow> snd r \<noteq> 255"
  by (auto simp: adjacent_def)

lemma taken_over_adjacent:
  "adjacent (lo, hi) (nnr_range_start p, nnr_range_end p) \<Longrightarrow> taken_over (lo, hi) p = (lo, nnr_range_end p)"
  using adjacent_not_top [of "(lo, hi)"] by (auto simp: taken_over_def adjacent_def)

lemma taken_over_below:
  assumes "adjacent (nnr_range_start p, nnr_range_end p) (lo, hi)" "lo \<le> hi"
  shows "taken_over (lo, hi) p = (nnr_range_start p, hi)"
proof -
  have "nnr_range_start p < lo" using assms(1) by (auto simp: adjacent_def)
  moreover have "hi \<noteq> 255 \<Longrightarrow> hi < hi + 1"
    using unat_Suc_u8 [of hi] by (simp add: word_less_nat_alt)
  ultimately show ?thesis using assms(2) by (auto simp: taken_over_def)
qed

text \<open>Which neighbour asks, and the range that results.\<close>

lemma takeover_side:
  assumes "lo \<le> hi" "adjacent (lo, hi) (nnr_range_start p, nnr_range_end p) \<or>
      adjacent (nnr_range_start p, nnr_range_end p) (lo, hi)"
  shows "from_successor (lo, hi) p \<longleftrightarrow> hi < nnr_range_start p"
    "taken_over (lo, hi) p = (if hi < nnr_range_start p then (lo, nnr_range_end p) else (nnr_range_start p, hi))"
proof (atomize (full), cases "adjacent (lo, hi) (nnr_range_start p, nnr_range_end p)")
  case True
  then show "(from_successor (lo, hi) p \<longleftrightarrow> hi < nnr_range_start p) \<and> taken_over (lo, hi) p =
      (if hi < nnr_range_start p then (lo, nnr_range_end p) else (nnr_range_start p, hi))"
    using taken_over_adjacent adjacent_not_top [OF True] by (auto simp: from_successor_def adjacent_def)
next
  case False
  then have adj: "adjacent (nnr_range_start p, nnr_range_end p) (lo, hi)" using assms(2) by simp
  then have "nnr_range_start p < lo" by (auto simp: adjacent_def)
  moreover have "hi \<noteq> 255 \<Longrightarrow> hi < hi + 1"
    using unat_Suc_u8 [of hi] by (simp add: word_less_nat_alt)
  ultimately show "(from_successor (lo, hi) p \<longleftrightarrow> hi < nnr_range_start p) \<and> taken_over (lo, hi) p =
      (if hi < nnr_range_start p then (lo, nnr_range_end p) else (nnr_range_start p, hi))"
    using taken_over_below [OF adj assms(1)] assms(1) by (auto simp: from_successor_def)
qed

lemma takeover_union:
  assumes "lo \<le> hi" "adjacent (lo, hi) (nnr_range_start p, nnr_range_end p) \<or>
      adjacent (nnr_range_start p, nnr_range_end p) (lo, hi)"
  shows "range_set (taken_over (lo, hi) p) = range_set (lo, hi) \<union> range_set (nnr_range_start p, nnr_range_end p)"
proof (cases "hi < nnr_range_start p")
  case True
  then have "adjacent (lo, hi) (nnr_range_start p, nnr_range_end p)" using assms by (fastforce simp: adjacent_def)
  then show ?thesis using range_set_adjacent takeover_side(2) [OF assms] True by simp
next
  case False
  then have "adjacent (nnr_range_start p, nnr_range_end p) (lo, hi)" using assms(2) by (auto simp: adjacent_def)
  then show ?thesis using range_set_adjacent [of "nnr_range_start p" "nnr_range_end p" lo hi] takeover_side(2) [OF assms] False
    by (simp add: Un_commute)
qed

lemma split_adjacent:
  assumes "lo < hi"
  shows "adjacent (lo, split_point lo hi) (split_point lo hi + 1, hi)"
proof -
  let ?m = "split_point lo hi"
  have m: "lo \<le> ?m" "?m < hi" using split_point_bounds [of lo hi] assms by auto
  then have "?m \<noteq> 255" using word_less_nat_alt [of ?m hi] unat_u8_less [of hi] by auto
  from unat_Suc_u8 [OF this] show ?thesis
    using m by (simp add: adjacent_def word_le_nat_alt word_less_nat_alt)
qed

text \<open>\<open>q16\<close> and \<open>q17\<close>: the predecessor and the successor of a node that has left.\<close>

lemma q16_reconnects:
  assumes "last_pdu n = Some (NetLeaving p)" "own_address n = Some own"
    and "local_addr (listen_socket n) = Some (V4 la)" "(nl_new_address p, nl_new_port p) \<noteq> (own, snd la)"
    and "offers c cs n"
  shows "\<exists>n' c'. q16 n = Ret n' \<and> state n' = Q6 \<and> successor n' = Some c' \<and>
    peer_addr c' = Some (get_new_addr p) \<and> successor_listen n' = Some (get_new_addr p) \<and>
    predecessor n' = predecessor n \<and> stored n' = stored n \<and> hash_range n' = hash_range n"
proof -
  let ?n1 = "assign_successor None (n\<lparr>last_pdu := None\<rparr>)"
  have "offers c cs ?n1" using assms(5) by (simp add: offers_def assign_successor_def)
  note conn = connect_offered [OF this, of "get_new_addr p"]
  have last: "obind (if nl_new_address p = own then
      obind (get_listen_addr (n\<lparr>last_pdu := None\<rparr>)) (\<lambda>a. Ret (nl_new_port p = snd a)) else Ret False) f = f False" for f :: "bool \<Rightarrow> node outcome"
    using assms(3,4) by (auto simp: get_listen_addr_def unwrap_io_def)
  show ?thesis
    unfolding q16_def take_last_pdu_def assms(1) Let_def
    using assms(2) conn last by (simp add: assign_successor_def)
qed

lemma q16_last_node:
  assumes "last_pdu n = Some (NetLeaving p)" "own_address n = Some own"
    and "local_addr (listen_socket n) = Some (V4 la)" "(nl_new_address p, nl_new_port p) = (own, snd la)"
  shows "\<exists>n'. q16 n = Ret n' \<and> state n' = Q6 \<and> successor n' = None \<and> predecessor n' = None \<and>
    stored n' = stored n \<and> hash_range n' = hash_range n"
  using assms by (simp add: q16_def take_last_pdu_def get_listen_addr_def unwrap_io_def
      assign_successor_def assign_predecessor_def)

end
