(* ===== verification/Handover.thy ===== *)
theory Handover
  imports Node_Protocol
begin

text \<open>
  Two nodes at once: the entries a node gives away in a join travel through its stream, the
  network and the wrapper of the joining node, and every number is found after the join where
  the ranges say it is.
\<close>

section \<open>Entries that survive the wire\<close>

text \<open>
  The wire format holds twelve one-byte chars of number and at most 255 one-byte chars of
  name and of email.
\<close>

definition plain :: "entry \<Rightarrow> bool" where
  "plain e \<longleftrightarrow> length (e_ssn e) = SSN_LENGTH \<and> ascii (e_ssn e) \<and>
     ascii (e_name e) \<and> length (e_name e) < 256 \<and> ascii (e_email e) \<and> length (e_email e) < 256"

lemma plain_wf: "plain e \<Longrightarrow> wf_pdu (insert_of e) \<and> norm_pdu (insert_of e) = insert_of e"
  by (simp add: plain_def wf_pdu_def insert_of_def ValInsertPdu_new_def ValInsertPdu_ok_def
      ascii_latin1 string_len_ascii unat_of_nat_u8)

lemma NetJoinResponse_wf: "wf_pdu (NetJoinResponse (NetJoinResponsePdu_new a p lo hi))"
  by (simp add: wf_pdu_def NetJoinResponsePdu_new_def)

lemma join_bytes_frames:
  assumes "list_all plain es"
  shows "frames parse_pdu (join_bytes next lo hi es)
    (NetJoinResponse (NetJoinResponsePdu_new (fst next) (snd next) lo hi) # map insert_of es) []"
proof -
  let ?ps = "NetJoinResponse (NetJoinResponsePdu_new (fst next) (snd next) lo hi) # map insert_of es"
  have "list_all wf_pdu ?ps" "map norm_pdu ?ps = ?ps"
    using assms plain_wf NetJoinResponse_wf by (auto simp: list_all_iff)
  moreover have "frames parse_pdu [] [] []" by (rule wire_done) simp
  ultimately have "frames parse_pdu (concat (map to_bytes ?ps) @ []) (?ps @ []) []"
    using wire.frames_concat [of ?ps "[]" "[]" "[]"] by metis
  then show ?thesis by (simp add: join_bytes_def)
qed

section \<open>Receiving a range\<close>

lemma await_pdu_burst:
  assumes "syscalls n = []" "link_stream succ n = Some s" "wf_wrapper (link_wrapper succ n)"
    and "incoming_queue (link_wrapper succ n) = []" "inbox s = map RData cs" "cs \<noteq> []"
    and "peer_addr s = Some a" "length (buffered (link_wrapper succ n) @ concat cs) \<le> BUFFER_SIZE"
    and "frames parse_pdu (buffered (link_wrapper succ n) @ concat cs) (p # ps) r"
  shows "\<exists>w'. await_pdu succ n = Ret ((p, a), set_link succ w' (s\<lparr>inbox := []\<rparr>) n) \<and> wf_wrapper w' \<and>
    incoming_queue w' = map (\<lambda>p. (p, a)) ps \<and> buffered w' = r"
proof -
  let ?w = "link_wrapper succ n"
  obtain w1 where w1: "TcpWrapper_try_read ?w s = Ret (w1, s\<lparr>inbox := []\<rparr>, False)" "wf_wrapper w1"
    "buffered w1 = r" "incoming_queue w1 = map (\<lambda>p. (p, a)) (p # ps)"
    using TcpWrapper_try_read_chunks [OF assms(3,8) _ _ assms(7,9), of "[]"] assms(4,5) by auto
  let ?w2 = "w1\<lparr>incoming_queue := map (\<lambda>p. (p, a)) ps\<rparr>"
  have nx: "TcpWrapper_next_pdu w1 = (Some (p, a), ?w2)"
    using w1(4) by (simp add: TcpWrapper_next_pdu_def)
  have sys: "sys_unwrap n = Ret n" "sys_unwrap (set_link succ ?w2 s' n) = Ret (set_link succ ?w2 s' n)" for s'
    using assms(1) by (simp_all add: sys_unwrap_def set_link_def)
  have "await_pdu succ n = Ret ((p, a), set_link succ ?w2 (s\<lparr>inbox := []\<rparr>) n)"
    using assms(2,5,6) sys w1(1) nx
    by (simp add: await_pdu_def await_pdu_loop.simps [of succ n])
  then show ?thesis using w1 by (intro exI [of _ ?w2]) (simp add: wf_wrapper_def buffered_def)
qed

text \<open>
  A joining node in \<open>q8\<close>: it takes the range and connects to its successor; the entries that
  arrived with the answer wait in the queue of the predecessor's wrapper.
\<close>

lemma q8_takes_range:
  assumes "predecessor b = Some r" "inbox r = map RData cs" "cs \<noteq> []" "peer_addr r = Some a"
    and "concat cs = join_bytes next lo hi es" "length (concat cs) \<le> BUFFER_SIZE" "list_all plain es"
    and "wf_wrapper (predecessor_wrapper b)" "buffered (predecessor_wrapper b) = []"
    and "queue_of PREDECESSOR b = []" "offers c ds b"
  shows "\<exists>b'. q8 b = Ret b' \<and> state b' = Q6 \<and> hash_range b' = (lo, hi) \<and>
    queue_of PREDECESSOR b' = map (\<lambda>e. (insert_of e, a)) es \<and> stored b' = stored b \<and>
    udp_sock b' = udp_sock b \<and> successor_listen b' = Some (V4 next) \<and>
    successor b' = Some (c\<lparr>peer_addr := Some (V4 next)\<rparr>) \<and> udp_wrapper b' = udp_wrapper b \<and>
    syscalls b' = syscalls b \<and> running b' = running b \<and> should_close b' = should_close b"
proof -
  have link: "link_stream False b = Some r" "link_wrapper False b = predecessor_wrapper b"
    using assms(1) by (simp_all add: link_stream_def link_wrapper_def)
  have q: "incoming_queue (predecessor_wrapper b) = []"
    using assms(10) by (simp add: queue_of_def wrapper_of_def UDP_def SUCCESSOR_def PREDECESSOR_def)
  let ?jr = "NetJoinResponsePdu_new (fst next) (snd next) lo hi"
  obtain w' where w': "await_pdu False b = Ret ((NetJoinResponse ?jr, a), set_link False w' (r\<lparr>inbox := []\<rparr>) b)"
    "incoming_queue w' = map (\<lambda>p. (p, a)) (map insert_of es)"
    using await_pdu_burst [of b False r cs a "NetJoinResponse ?jr" "map insert_of es" "[]"]
      join_bytes_frames [OF assms(7), of "next" lo hi] assms q link
    by (auto simp: offers_def)
  let ?b1 = "(set_link False w' (r\<lparr>inbox := []\<rparr>) b)\<lparr>hash_range := (lo, hi)\<rparr>"
  have "offers c ds ?b1" using assms(11) by (simp add: offers_def set_link_def)
  note conn = connect_offered [OF this, of "V4 next"]
  have jr: "get_next_addr ?jr = V4 next" "njr_range_start ?jr = lo" "njr_range_end ?jr = hi"
    by (simp_all add: get_next_addr_def NetJoinResponsePdu_new_def)
  show ?thesis
    using w' conn jr
    by (simp add: q8_def set_link_def assign_successor_def queue_of_def wrapper_of_def UDP_def
        SUCCESSOR_def PREDECESSOR_def comp_def Let_def)
qed

section \<open>Inserting a range\<close>

text \<open>A service that inserts entries of its range one by one ends with the store they form.\<close>

lemma serve_inserts:
  assumes "list_all (\<lambda>e. entry_hash e \<in> own) es"
  shows "fold (val_spec own) (map insert_of es) v =
    v\<lparr>v_store := (\<lambda>k. case v_store v k of Some e \<Rightarrow> Some e | None \<Rightarrow> first_entry k es)\<rparr>"
  using assms
proof (induction es arbitrary: v)
  case Nil
  have "(\<lambda>k. case v_store v k of Some e \<Rightarrow> Some e | None \<Rightarrow> first_entry k []) = v_store v"
    by (rule ext) (simp split: option.splits)
  then show ?case by simp
next
  case (Cons e es)
  have e: "Entry_new (e_ssn e) (e_name e) (e_email e) = e" by (simp add: Entry_new_def)
  have step: "val_spec own (insert_of e) v = v\<lparr>v_store := (\<lambda>k. case v_store v k of
      Some x \<Rightarrow> Some x | None \<Rightarrow> if e_ssn e = k then Some e else None)\<rparr>"
    using Cons.prems e
    by (auto simp: val_spec_def insert_of_def ValInsertPdu_new_def entry_hash_def fun_eq_iff
        split: option.splits intro!: vals.equality)
  show ?case
    using Cons.prems
    by (simp add: Cons.IH step) (auto intro!: vals.equality split: option.splits)
qed

text \<open>A node that takes entries of its range over beside those it has.\<close>

lemma drain_inserts_first:
  assumes "can_send b" "queue_of token b = map (\<lambda>e. (insert_of e, a)) es @ ms"
    and "list_all (\<lambda>e. entry_hash e \<in> owned b) es"
  shows "\<exists>b'. drain token b = drain token b' \<and> hash_range b' = hash_range b \<and> queue_of token b' = ms \<and>
    (\<forall>k. store_of b' k = (case store_of b k of Some e \<Rightarrow> Some e | None \<Rightarrow> first_entry k es))"
proof -
  let ?vs = "map (\<lambda>e. (insert_of e, a)) es"
  have "list_all (is_value \<circ> fst) ?vs" by (simp add: list_all_iff is_value_def insert_of_def)
  from drain_values_first [OF assms(1) this assms(2)] obtain b' where b': "drain token b = drain token b'"
    "queue_of token b' = ms" "hash_range b' = hash_range b"
    "abs_node b' = fold (val_spec (owned b)) (map fst ?vs) (abs_node b)" by blast
  have vs: "map fst ?vs = map insert_of es" by simp
  have "v_store (abs_node b') = (\<lambda>k. case v_store (abs_node b) k of Some e \<Rightarrow> Some e | None \<Rightarrow> first_entry k es)"
    unfolding b'(4) vs serve_inserts [OF assms(3)] by simp
  then show ?thesis using b' by (auto simp: abs_node_def fun_eq_iff)
qed

section \<open>The whole join\<close>

text \<open>What the joining node needs to take part: \<open>q7\<close> has accepted the stream of its predecessor.\<close>

definition ready_to_join :: "tcp_stream \<Rightarrow> tcp_stream option list \<Rightarrow> node \<Rightarrow> bool" where
  "ready_to_join c ds b \<longleftrightarrow> wf_wrapper (predecessor_wrapper b) \<and>
     buffered (predecessor_wrapper b) = [] \<and> queue_of PREDECESSOR b = [] \<and> stored b = [] \<and>
     offers c ds b \<and> udp_ready (udp_sock b)"

lemma moved_plain: "list_all plain es \<Longrightarrow> list_all plain (moved lo hi es)"
  by (auto simp: moved_def list_all_iff)

lemma moved_owned: "list_all (\<lambda>e. entry_hash e \<in> range_set (lo, hi)) (moved lo hi es)"
  by (auto simp: moved_def list_all_iff)

lemma join_bytes_nonempty: "join_bytes next lo hi es \<noteq> []"
  by (simp add: join_bytes_def NetJoinResponsePdu_to_vec_def)

lemma receives_range:
  assumes "ready_to_join c ds b" "predecessor b = Some r" "peer_addr r = Some a" "inbox r = map RData cs"
    and "concat cs = join_bytes next lo hi es" "length (concat cs) \<le> BUFFER_SIZE" "list_all plain es"
    and "list_all (\<lambda>e. entry_hash e \<in> range_set (lo, hi)) es"
  shows "\<exists>b' b''. q8 b = Ret b' \<and> state b' = Q6 \<and> successor_listen b' = Some (V4 next) \<and>
    successor b' = Some (c\<lparr>peer_addr := Some (V4 next)\<rparr>) \<and> drain PREDECESSOR b' = Ret b'' \<and> hash_range b'' = (lo, hi) \<and>
    (\<forall>k. store_of b'' k = first_entry k es)"
proof -
  have "cs \<noteq> []" using assms(5) join_bytes_nonempty [of "next" lo hi es] by auto
  then obtain b' where b': "q8 b = Ret b'" "hash_range b' = (lo, hi)"
    "queue_of PREDECESSOR b' = map (\<lambda>e. (insert_of e, a)) es" "stored b' = []"
    "udp_sock b' = udp_sock b" "successor b' = Some (c\<lparr>peer_addr := Some (V4 next)\<rparr>)"
    "state b' = Q6" "successor_listen b' = Some (V4 next)"
    using q8_takes_range [OF assms(2,4) _ assms(3,5,6,7)] assms(1) by (auto simp: ready_to_join_def)
  have "can_send b'"
    using b'(5,6) assms(1) by (simp add: can_send_def ready_to_join_def offers_def link_ready_def writable_def)
  moreover have "queue_of PREDECESSOR b' = map (\<lambda>e. (insert_of e, a)) es @ []" using b'(3) by simp
  ultimately obtain b'' where "drain PREDECESSOR b' = drain PREDECESSOR b''" "hash_range b'' = hash_range b'"
    "queue_of PREDECESSOR b'' = []"
    "\<forall>k. store_of b'' k = (case store_of b' k of Some e \<Rightarrow> Some e | None \<Rightarrow> first_entry k es)"
    using drain_inserts_first [of b' PREDECESSOR a es "[]"] b'(2) assms(8) by (auto simp: owned_def)
  moreover have "store_of b' k = None" for k using b'(4) by (simp add: store_of_def)
  ultimately show ?thesis using b' drain_empty by auto
qed

section \<open>The whole leave\<close>

text \<open>
  A neighbour reads what a leaving node wrote, its entries and a last PDU, in one event.
\<close>

definition link_token :: "bool \<Rightarrow> nat" where
  "link_token succ = (if succ then SUCCESSOR else PREDECESSOR)"

lemma link_queue: "queue_of (link_token succ) n = incoming_queue (link_wrapper succ n)"
  by (simp add: queue_of_def wrapper_of_def link_token_def link_wrapper_def UDP_def SUCCESSOR_def
      PREDECESSOR_def)

lemma inserts_frames:
  assumes "list_all plain es" "wf_pdu p" "norm_pdu p = p"
  shows "frames parse_pdu (concat (map (to_bytes \<circ> insert_of) es) @ to_bytes p) (map insert_of es @ [p]) []"
proof -
  let ?ps = "map insert_of es @ [p]"
  have "list_all wf_pdu ?ps" "map norm_pdu ?ps = ?ps"
    using assms plain_wf by (auto simp: list_all_iff)
  moreover have "frames parse_pdu [] [] []" by (rule wire_done) simp
  ultimately have "frames parse_pdu (concat (map to_bytes ?ps) @ []) (?ps @ []) []"
    using wire.frames_concat [of ?ps "[]" "[]" "[]"] by metis
  then show ?thesis by simp
qed

lemma receives_entries:
  assumes "link_stream succ m = Some r" "peer_addr r = Some a" "inbox r = map RData cs"
    and "concat cs = concat (map (to_bytes \<circ> insert_of) es) @ to_bytes p" "length (concat cs) \<le> BUFFER_SIZE"
    and "list_all plain es" "wf_pdu p" "norm_pdu p = p"
    and "wf_wrapper (link_wrapper succ m)" "buffered (link_wrapper succ m) = []" "queue_of (link_token succ) m = []"
    and "can_send m" "list_all (\<lambda>e. entry_hash e \<in> owned m) es"
  shows "\<exists>m'. handle_event (link_token succ) m = drain (link_token succ) m' \<and> hash_range m' = hash_range m \<and>
    queue_of (link_token succ) m' = [(p, a)] \<and>
    (\<forall>k. store_of m' k = (case store_of m k of Some e \<Rightarrow> Some e | None \<Rightarrow> first_entry k es))"
proof -
  obtain w where w: "TcpWrapper_try_read (link_wrapper succ m) r = Ret (w, r\<lparr>inbox := []\<rparr>, False)"
    "incoming_queue w = map (\<lambda>p. (p, a)) (map insert_of es @ [p])"
    using TcpWrapper_try_read_chunks [OF assms(9) _ _ _ assms(2), of cs "[]" "map insert_of es @ [p]" "[]"]
      inserts_frames [OF assms(6-8)] assms(3-5,10,11) by (auto simp: link_queue)
  let ?m = "set_link succ w (r\<lparr>inbox := []\<rparr>) m"
  have ev: "handle_event (link_token succ) m = drain (link_token succ) ?m"
    using w(1) assms(1)
    by (simp add: handle_event_def link_token_def link_wrapper_def link_stream_def set_link_def UDP_def
        SUCCESSOR_def PREDECESSOR_def Let_def split: if_splits)
  have q: "queue_of (link_token succ) ?m = map (\<lambda>e. (insert_of e, a)) es @ [(p, a)]"
    using w(2) by (simp add: link_queue link_wrapper_def set_link_def comp_def)
  have "can_send ?m" "owned ?m = owned m" "store_of ?m = store_of m" "hash_range ?m = hash_range m"
    using assms(1,12) by (auto simp: can_send_def owned_def set_link_def link_stream_def writable_def
        store_of_eq split: if_splits)
  then show ?thesis
    using drain_inserts_first [OF _ q] assms(13) ev by auto
qed

text \<open>The last PDU of the batch decides the state.\<close>

lemma drain_last:
  assumes "queue_of (link_token succ) m = [(p, a)]"
    and "p = NetCloseConnection c \<and> \<not> succ \<or> p = NetLeaving l"
  shows "\<exists>m'. drain (link_token succ) m = Ret m' \<and> store_of m' = store_of m \<and> hash_range m' = hash_range m \<and>
    state m' = (case p of NetLeaving _ \<Rightarrow> Q16 | _ \<Rightarrow> Q17) \<and>
    (\<forall>l. p = NetLeaving l \<longrightarrow> last_pdu m' = Some p)"
proof -
  let ?w = "(link_wrapper succ m)\<lparr>incoming_queue := []\<rparr>"
  let ?m = "if succ then m\<lparr>successor_wrapper := ?w\<rparr> else m\<lparr>predecessor_wrapper := ?w\<rparr>"
  have nx: "next_message (link_token succ) m =
      (Some (p, if succ then SrcSuccessor a else SrcPredecessor a), ?m)"
    using assms(1) by (cases succ) (simp_all add: next_message_def link_token_def queue_of_def
        wrapper_of_def link_wrapper_def TcpWrapper_next_pdu_def UDP_def SUCCESSOR_def PREDECESSOR_def)
  let ?m' = "if p = NetCloseConnection c then ?m\<lparr>state := Q17\<rparr> else ?m\<lparr>last_pdu := Some p, state := Q16\<rparr>"
  have "handle_pdu p (if succ then SrcSuccessor a else SrcPredecessor a) ?m = Ret ?m'"
    using assms(2) by auto
  moreover have "queue_of (link_token succ) ?m' = []" by (simp add: link_queue link_wrapper_def)
  ultimately have "drain (link_token succ) m = Ret ?m'"
    unfolding drain.simps [of "link_token succ" m] nx prod.case option.case
    by (simp only: obind.simps drain_empty)
  moreover have "store_of ?m' = store_of m" "hash_range ?m' = hash_range m"
    "state ?m' = (case p of NetLeaving _ \<Rightarrow> Q16 | _ \<Rightarrow> Q17)" "p = NetLeaving l' \<Longrightarrow> last_pdu ?m' = Some p" for l'
    using assms(2) by (auto simp: store_of_eq)
  ultimately show ?thesis by blast
qed

text \<open>
  A neighbour of a node that leaves: the successor reads a \<open>NET_CLOSE_CONNECTION\<close>, the predecessor a
  \<open>NET_LEAVING\<close>, one of them behind the entries.
\<close>

definition farewell :: "bool \<Rightarrow> socket_addr_v4 \<Rightarrow> PDU" where
  "farewell succ a = (if succ then NetLeaving (NetLeavingPdu_new (fst a) (snd a))
     else NetCloseConnection NetCloseConnectionPdu_new)"

lemma neighbour_after_leave:
  assumes "link_stream succ m = Some r" "peer_addr r = Some b" "inbox r = map RData cs"
    and "concat cs = concat (map (to_bytes \<circ> insert_of) es) @ to_bytes (farewell succ a)"
    and "length (concat cs) \<le> BUFFER_SIZE" "list_all plain es"
    and "wf_wrapper (link_wrapper succ m)" "buffered (link_wrapper succ m) = []" "queue_of (link_token succ) m = []"
    and "can_send m" "list_all (\<lambda>e. entry_hash e \<in> owned m) es"
  shows "\<exists>m'. handle_event (link_token succ) m = Ret m' \<and> hash_range m' = hash_range m \<and>
    state m' = (if succ then Q16 else Q17) \<and> (succ \<longrightarrow> last_pdu m' = Some (farewell succ a)) \<and>
    (\<forall>k. store_of m' k = (case store_of m k of Some e \<Rightarrow> Some e | None \<Rightarrow> first_entry k es))"
proof -
  let ?p = "farewell succ a"
  have wf: "wf_pdu ?p" "norm_pdu ?p = ?p"
    by (simp_all add: farewell_def wf_pdu_def NetCloseConnectionPdu_new_def NetLeavingPdu_new_def)
  from receives_entries [OF assms(1-6) wf assms(7-11)] obtain m1 where
    m1: "handle_event (link_token succ) m = drain (link_token succ) m1" "hash_range m1 = hash_range m"
    "queue_of (link_token succ) m1 = [(?p, b)]"
    "\<forall>k. store_of m1 k = (case store_of m k of Some e \<Rightarrow> Some e | None \<Rightarrow> first_entry k es)" by blast
  have "?p = NetCloseConnection NetCloseConnectionPdu_new \<and> \<not> succ \<or> ?p = NetLeaving (NetLeavingPdu_new (fst a) (snd a))"
    by (simp add: farewell_def)
  from drain_last [OF m1(3) this] obtain m2 where m2: "drain (link_token succ) m1 = Ret m2" "store_of m2 = store_of m1"
    "hash_range m2 = hash_range m1" "state m2 = (case ?p of NetLeaving _ \<Rightarrow> Q16 | _ \<Rightarrow> Q17)"
    "\<forall>l. ?p = NetLeaving l \<longrightarrow> last_pdu m2 = Some ?p" by blast
  then show ?thesis using m1(1,2,4) by (intro exI [of _ m2]) (auto simp: farewell_def)
qed

text \<open>Whose entry a number finds when a node that stored none of these numbers has taken them over.\<close>

lemma store_after_leave:
  assumes "entries_owned n" "list_all (\<lambda>e. entry_hash e \<notin> owned n) (stored m)"
  shows "(case store_of m k of Some e \<Rightarrow> Some e | None \<Rightarrow> first_entry k (stored n)) =
    (if hash_ssn k \<in> owned n then store_of n k else store_of m k)"
proof (cases "hash_ssn k \<in> owned n")
  case True
  then have "store_of m k = None"
    using assms(2) by (auto simp: store_of_def first_entry_None_iff list_all_iff entry_hash_def)
  then show ?thesis using True by (simp add: store_of_def)
next
  case False
  then have "first_entry k (stored n) = None"
    using assms(1) by (auto simp: entries_owned_def first_entry_None_iff list_all_iff entry_hash_def)
  then show ?thesis using False by (simp split: option.splits)
qed

end
