(* ===== verification/Node_Start.thy ===== *)
theory Node_Start
  imports Handover
begin

text \<open>
  The start of a node: what it asks the tracker, and what it becomes with the answers.
\<close>

section \<open>One answer\<close>

text \<open>The UDP side of a node is at rest: nothing buffered or queued, nothing hinders a send.\<close>

definition udp_idle :: "node \<Rightarrow> bool" where
  "udp_idle n \<longleftrightarrow> wf_wrapper (udp_wrapper n) \<and> buffered (udp_wrapper n) = [] \<and>
     incoming_queue (udp_wrapper n) = [] \<and> udp_ready (udp_sock n) \<and> syscalls n = []"

text \<open>The same with an incomplete PDU in the buffer.\<close>

definition udp_open :: "node \<Rightarrow> bool" where
  "udp_open n \<longleftrightarrow> wf_wrapper (udp_wrapper n) \<and> incoming_queue (udp_wrapper n) = [] \<and>
     udp_ready (udp_sock n) \<and> syscalls n = []"

lemma udp_idle_open: "udp_idle n \<longleftrightarrow> udp_open n \<and> buffered (udp_wrapper n) = []"
  by (auto simp: udp_idle_def udp_open_def)

lemma await_pdu_udp_one:
  assumes "udp_idle n" "wf_pdu p" "length (to_bytes p) \<le> BUFFER_SIZE"
    and "arrivals (udp_sock n) = Datagram (to_bytes p) a # DWouldBlock # ds"
  shows "\<exists>n'. await_pdu_udp n = Ret ((norm_pdu p, a), n') \<and> udp_idle n' \<and>
    (\<exists>w. n' = n\<lparr>udp_wrapper := w, udp_sock := (udp_sock n)\<lparr>arrivals := ds\<rparr>\<rparr>)"
proof -
  let ?u = "(udp_sock n)\<lparr>arrivals := ds\<rparr>"
  obtain w where w: "UdpWrapper_try_read (udp_wrapper n) (udp_sock n) = Ret (w, ?u)" "wf_wrapper w"
    "buffered w = []" "incoming_queue w = [(norm_pdu p, a)]"
    using udp_read_one [of "udp_wrapper n" p "udp_sock n" a ds] assms by (auto simp: udp_idle_def)
  let ?w = "w\<lparr>incoming_queue := []\<rparr>"
  have nx: "UdpWrapper_next_pdu w = (Some (norm_pdu p, a), ?w)"
    using w(4) by (simp add: UdpWrapper_next_pdu_def)
  have sys: "syscalls n = []" using assms(1) by (simp add: udp_idle_def)
  have "await_pdu_udp n = Ret ((norm_pdu p, a), n\<lparr>udp_wrapper := ?w, udp_sock := ?u\<rparr>)"
    using sys w(1) nx assms(4)
    by (simp add: await_pdu_udp_def await_pdu_udp_loop.simps [of n] sys_unwrap_def)
  moreover have "udp_idle (n\<lparr>udp_wrapper := ?w, udp_sock := ?u\<rparr>)"
    using assms(1) w(2,3) by (simp add: udp_idle_def udp_ready_def wf_wrapper_def buffered_def)
  ultimately show ?thesis by blast
qed

lemma send_udp_idle:
  assumes "udp_idle n"
  shows "\<exists>u. send_udp p a n = Ret (n\<lparr>udp_sock := u\<rparr>) \<and> udp_idle (n\<lparr>udp_sock := u\<rparr>) \<and>
    arrivals u = arrivals (udp_sock n) \<and>
    sent_datagrams u = sent_datagrams (udp_sock n) @ [(a, to_bytes p)]"
  using UdpWrapper_sends [of "udp_sock n" "udp_wrapper n" p a] assms
  by (auto simp: send_udp_def udp_idle_def)

section \<open>The first passes\<close>

lemma q1_asks:
  assumes "udp_idle n"
  shows "\<exists>n'. q1 n = Ret n' \<and> udp_idle n' \<and> (\<exists>u. n' = n\<lparr>udp_sock := u, state := Q2\<rparr> \<and>
    arrivals u = arrivals (udp_sock n) \<and> sent_datagrams u = sent_datagrams (udp_sock n) @
      [(tracker_addr n, to_bytes (StunLookup StunLookupPdu_new))])"
  using send_udp_idle [OF assms, of "StunLookup StunLookupPdu_new" "tracker_addr n"]
  by (fastforce simp: q1_def Let_def udp_idle_def)

lemma q2_learns:
  assumes "udp_idle n"
    and "arrivals (udp_sock n) = Datagram (to_bytes (StunResponse (StunResponsePdu_new ip))) a # DWouldBlock # ds"
  shows "\<exists>n'. q2 n = Ret n' \<and> udp_idle n' \<and> (\<exists>w. n' = n\<lparr>udp_wrapper := w,
    udp_sock := (udp_sock n)\<lparr>arrivals := ds\<rparr>, own_address := Some ip, state := Q3\<rparr>)"
proof -
  obtain n' w where "await_pdu_udp n = Ret ((StunResponse (StunResponsePdu_new ip), a), n')" "udp_idle n'"
    "n' = n\<lparr>udp_wrapper := w, udp_sock := (udp_sock n)\<lparr>arrivals := ds\<rparr>\<rparr>"
    using await_pdu_udp_one [OF assms(1) StunResponse_wire(1,3) assms(2)] StunResponse_wire(2) by metis
  then show ?thesis
    by (intro exI [of _ "n'\<lparr>own_address := Some ip, state := Q3\<rparr>"])
      (auto simp: q2_def StunResponsePdu_new_def udp_idle_def)
qed

text \<open>What the first passes leave alone.\<close>

definition same_links :: "node \<Rightarrow> node \<Rightarrow> bool" where
  "same_links n m \<longleftrightarrow> stored m = stored n \<and> tracker_addr m = tracker_addr n \<and>
     listen_socket m = listen_socket n \<and> successor m = successor n \<and> predecessor m = predecessor n \<and>
     predecessor_wrapper m = predecessor_wrapper n \<and> running m = running n \<and>
     connects m = connects n \<and> should_close m = should_close n"

text \<open>With the answer (0, 0) the node is the first one, with any other it asks that node.\<close>

lemma q3_decides:
  assumes "udp_idle n" and "arrivals (udp_sock n) =
    Datagram (to_bytes (NetGetNodeResponse (NetGetNodeResponsePdu_new ip p))) a # DWouldBlock # ds"
  shows "\<exists>n'. q3 n = Ret n' \<and> udp_idle n' \<and> same_links n n' \<and> own_address n' = own_address n \<and>
    state n' = (if ip = 0 \<and> p = 0 then Q4 else Q7) \<and> arrivals (udp_sock n') = ds \<and>
    sent_datagrams (udp_sock n') = sent_datagrams (udp_sock n) @
      [(tracker_addr n, to_bytes (NetGetNode NetGetNodePdu_new))] \<and>
    (\<not> (ip = 0 \<and> p = 0) \<longrightarrow> last_pdu n' = Some (NetGetNodeResponse (NetGetNodeResponsePdu_new ip p)))"
proof -
  let ?pdu = "NetGetNodeResponsePdu_new ip p"
  obtain u where u: "send_udp (NetGetNode NetGetNodePdu_new) (tracker_addr n) n = Ret (n\<lparr>udp_sock := u\<rparr>)"
    "udp_idle (n\<lparr>udp_sock := u\<rparr>)" "arrivals u = arrivals (udp_sock n)"
    "sent_datagrams u = sent_datagrams (udp_sock n) @ [(tracker_addr n, to_bytes (NetGetNode NetGetNodePdu_new))]"
    using send_udp_idle [OF assms(1)] by blast
  have arr: "arrivals (udp_sock (n\<lparr>udp_sock := u\<rparr>)) = Datagram (to_bytes (NetGetNodeResponse ?pdu)) a # DWouldBlock # ds"
    using u(3) assms(2) by simp
  obtain n' w where n': "await_pdu_udp (n\<lparr>udp_sock := u\<rparr>) = Ret ((NetGetNodeResponse ?pdu, a), n')" "udp_idle n'"
    "n' = n\<lparr>udp_sock := u, udp_wrapper := w, udp_sock := u\<lparr>arrivals := ds\<rparr>\<rparr>"
    using await_pdu_udp_one [OF u(2) NetGetNodeResponse_wire(1,3) arr] NetGetNodeResponse_wire(2) by force
  let ?m = "if ip = 0 \<and> p = 0 then n'\<lparr>state := Q4\<rparr> else n'\<lparr>last_pdu := Some (NetGetNodeResponse ?pdu), state := Q7\<rparr>"
  have "q3 n = Ret ?m" using u(1) n'(1) by (simp add: q3_def NetGetNodeResponsePdu_new_def)
  moreover have "udp_idle ?m" using n'(2) by (simp add: udp_idle_def)
  ultimately show ?thesis
    using u(4) by (intro exI [of _ ?m]) (simp add: n'(3) same_links_def)
qed

section \<open>The first node\<close>

lemma run_node_Suc:
  "running n \<Longrightarrow> node_step bld t n = Ret n' \<Longrightarrow> run_node bld (t # ts) n = run_node bld ts n'"
  by simp

lemma Node_new_idle:
  assumes "Node_new e tracker = Ret n" "env_udp e = Some u" "udp_ready u" "env_syscalls e = []"
  shows "udp_idle n \<and> udp_sock n = u \<and> tracker_addr n = tracker \<and> running n \<and> state n = Q1 \<and>
    successor n = None \<and> predecessor n = None \<and> stored n = [] \<and> \<not> should_close n"
  using assms by (auto simp: Node_new_def obind_eq_Ret unwrap_io_def get_listen_addr_def Let_def
      udp_idle_def split: if_splits option.splits socket_addr.splits)

text \<open>The first three passes, whatever the tracker answers.\<close>

lemma node_asks:
  assumes "Node_new e tracker = Ret n" "env_udp e = Some u" "udp_ready u" "env_syscalls e = []"
    and "arrivals u = Datagram (to_bytes (StunResponse (StunResponsePdu_new ip))) a # DWouldBlock #
      Datagram (to_bytes (NetGetNodeResponse (NetGetNodeResponsePdu_new x p))) b # DWouldBlock # ds"
    and "list_all known_tokens [t1, t2, t3]"
  shows "\<exists>n'. run_node bld [t1, t2, t3] n = Ret n' \<and> orderly bld n' \<and> running n' \<and> udp_idle n' \<and> same_links n n' \<and>
    state n' = (if x = 0 \<and> p = 0 then Q4 else Q7) \<and> own_address n' = Some ip \<and> arrivals (udp_sock n') = ds \<and>
    (\<not> (x = 0 \<and> p = 0) \<longrightarrow> last_pdu n' = Some (NetGetNodeResponse (NetGetNodeResponsePdu_new x p))) \<and>
    sent_datagrams (udp_sock n') = sent_datagrams u @ [(tracker, to_bytes (StunLookup StunLookupPdu_new)),
      (tracker, to_bytes (NetGetNode NetGetNodePdu_new))]"
proof -
  note new = Node_new_idle [OF assms(1-4)]
  obtain n1 u1 where n1: "q1 n = Ret n1" "udp_idle n1" "n1 = n\<lparr>udp_sock := u1, state := Q2\<rparr>"
    "arrivals u1 = arrivals u" "sent_datagrams u1 = sent_datagrams u @ [(tracker, to_bytes (StunLookup StunLookupPdu_new))]"
    using q1_asks [of n] new by metis
  let ?rest = "Datagram (to_bytes (NetGetNodeResponse (NetGetNodeResponsePdu_new x p))) b # DWouldBlock # ds"
  have "arrivals (udp_sock n1) = Datagram (to_bytes (StunResponse (StunResponsePdu_new ip))) a # DWouldBlock # ?rest"
    using n1(3,4) assms(5) by simp
  from q2_learns [OF n1(2) this] obtain n2 w2 where n2: "q2 n1 = Ret n2" "udp_idle n2"
    "n2 = n1\<lparr>udp_wrapper := w2, udp_sock := (udp_sock n1)\<lparr>arrivals := ?rest\<rparr>, own_address := Some ip, state := Q3\<rparr>"
    by blast
  have "arrivals (udp_sock n2) = ?rest" using n2(3) by simp
  from q3_decides [OF n2(2) this] obtain n3 where n3: "q3 n2 = Ret n3" "udp_idle n3" "same_links n2 n3"
    "own_address n3 = own_address n2" "state n3 = (if x = 0 \<and> p = 0 then Q4 else Q7)" "arrivals (udp_sock n3) = ds"
    "sent_datagrams (udp_sock n3) = sent_datagrams (udp_sock n2) @
      [(tracker_addr n2, to_bytes (NetGetNode NetGetNodePdu_new))]"
    "\<not> (x = 0 \<and> p = 0) \<longrightarrow> last_pdu n3 = Some (NetGetNodeResponse (NetGetNodeResponsePdu_new x p))" by blast
  have steps: "node_step bld t1 n = Ret n1" "node_step bld t2 n1 = Ret n2" "node_step bld t3 n2 = Ret n3"
    using n1(1,3) n2(1,3) n3(1) new by (simp_all add: node_step_def)
  moreover have run: "running n" "running n1" "running n2" "running n3"
    using new n1(3) n2(3) n3(3) by (simp_all add: same_links_def)
  ultimately have "run_node bld [t1, t2, t3] n = Ret n3" using new by simp
  moreover have "orderly bld n3"
  proof -
    have "state n \<noteq> Q15" "state n1 \<noteq> Q15" "state n2 \<noteq> Q15"
      using new n1(3) n2(3) by simp_all
    moreover have "known_tokens t1" "known_tokens t2" "known_tokens t3"
      using assms(6) by simp_all
    ultimately show ?thesis
      using orderly_new [OF assms(1)] orderly_step run steps by metis
  qed
  moreover have "same_links n n3" using n1(3) n2(3) n3(3) by (simp add: same_links_def)
  ultimately show ?thesis
    using new n1 n2 n3 run(4) by simp
qed

lemma run_node_append:
  "run_node bld (ts @ us) n = obind (run_node bld ts n) (run_node bld us)"
proof (induction ts arbitrary: n)
  case (Cons t ts)
  have "\<not> running n \<Longrightarrow> run_node bld us n = Ret n" by (cases us) simp_all
  moreover have "run_node bld (ts @ us) = (\<lambda>n. obind (run_node bld ts n) (run_node bld us))"
    using Cons.IH by (rule ext)
  ultimately show ?case by (simp add: obind_assoc)
qed simp

lemma starts_alone:
  assumes "Node_new e tracker = Ret n" "env_udp e = Some u" "udp_ready u" "env_syscalls e = []"
    and "arrivals u = Datagram (to_bytes (StunResponse (StunResponsePdu_new ip))) a # DWouldBlock #
      Datagram (to_bytes (NetGetNodeResponse (NetGetNodeResponsePdu_new 0 0))) b # DWouldBlock # ds"
    and "list_all known_tokens [t1, t2, t3, t4]"
  shows "\<exists>n'. run_node bld [t1, t2, t3, t4] n = Ret n' \<and> orderly bld n' \<and> state n' = Q6 \<and> running n' \<and>
    own_address n' = Some ip \<and> hash_range n' = (0, 255) \<and> stored n' = [] \<and>
    successor n' = None \<and> predecessor n' = None \<and> udp_idle n' \<and> \<not> should_close n' \<and> arrivals (udp_sock n') = ds \<and>
    sent_datagrams (udp_sock n') = sent_datagrams u @ [(tracker, to_bytes (StunLookup StunLookupPdu_new)),
      (tracker, to_bytes (NetGetNode NetGetNodePdu_new))]"
proof -
  obtain n3 where n3: "run_node bld [t1, t2, t3] n = Ret n3" "orderly bld n3" "running n3" "udp_idle n3"
    "same_links n n3" "state n3 = Q4" "own_address n3 = Some ip" "arrivals (udp_sock n3) = ds"
    "sent_datagrams (udp_sock n3) = sent_datagrams u @ [(tracker, to_bytes (StunLookup StunLookupPdu_new)),
      (tracker, to_bytes (NetGetNode NetGetNodePdu_new))]"
    using node_asks [OF assms(1-5), of t1 t2 t3 bld] assms(6) by auto
  let ?n4 = "n3\<lparr>hash_range := (0, 255), state := Q6\<rparr>"
  have step: "node_step bld t4 n3 = Ret ?n4" using n3(6) by (simp add: node_step_def q4_def)
  then have "run_node bld ([t1, t2, t3] @ [t4]) n = Ret ?n4"
    unfolding run_node_append n3(1) using n3(3) by simp
  moreover have "orderly bld ?n4" using orderly_step [OF n3(2,3) _ _ step] n3(6) assms(6) by simp
  moreover have "udp_idle ?n4" using n3(4) by (simp add: udp_idle_def)
  ultimately show ?thesis
    using Node_new_idle [OF assms(1-4)] n3 by (simp add: same_links_def)
qed

section \<open>A datagram in the idle state\<close>

lemma send_alive_idle:
  assumes "udp_idle n"
  shows "\<exists>u. send_alive n = Ret (n\<lparr>last_alive := (if elapsed_secs (now n) (last_alive n) > 10
      then now n else last_alive n), udp_sock := u\<rparr>) \<and> udp_idle (n\<lparr>udp_sock := u\<rparr>) \<and>
    arrivals u = arrivals (udp_sock n) \<and>
    sent_datagrams u = sent_datagrams (udp_sock n) @ (if elapsed_secs (now n) (last_alive n) > 10
      then [(tracker_addr n, to_bytes (NetAlive NetAlivePdu_new))] else [])"
proof (cases "elapsed_secs (now n) (last_alive n) > 10")
  case True
  have "udp_idle (n\<lparr>last_alive := now n\<rparr>)" using assms by (simp add: udp_idle_def)
  from send_udp_idle [OF this, of "NetAlive NetAlivePdu_new" "tracker_addr n"] show ?thesis
    using True by (auto simp: send_alive_def udp_idle_def)
next
  case False
  then show ?thesis using assms by (intro exI [of _ "udp_sock n"]) (simp add: send_alive_def)
qed

lemma is_value_norm: "is_value p \<Longrightarrow> norm_pdu p = p"
  by (cases p) (simp_all add: is_value_def)

lemma handle_pdu_syscalls:
  assumes "handle_pdu p src n = Ret n'"
  shows "syscalls n' = syscalls n \<and> should_close n' = should_close n \<and> running n' = running n \<and>
    tracker_addr n' = tracker_addr n \<and> udp_wrapper n' = udp_wrapper n \<and>
    arrivals (udp_sock n') = arrivals (udp_sock n)"
proof -
  obtain a b c d e x y where "n' = n\<lparr>state := a, last_pdu := b, stored := c, successor := d, udp_sock := e\<rparr>"
    "e = (udp_sock n)\<lparr>sends := x, sent_datagrams := y\<rparr>"
    using handle_pdu_step [OF assms] unfolding handle_step_def val_step_def by fastforce
  then show ?thesis by simp
qed

text \<open>A pass in which no system call fails and no sign of life is due.\<close>

lemma sys_quiet:
  assumes "syscalls n = []"
  shows "sys_unwrap n = Ret n" "sys_unwrap_if s n = Ret n" "sys_ignore n = n"
  using assms by (simp_all add: sys_unwrap_def sys_unwrap_if_def sys_ignore_def split: option.splits)

lemma q6_pass:
  assumes "send_alive (n\<lparr>now := now n + tick_elapsed t\<rparr>) = Ret n1" "syscalls n1 = []"
    and "handle_events (tick_events t) n1 = Ret m" "syscalls m = []"
  shows "q6 t n = Ret (if should_close m \<or> tick_signal t
    then m\<lparr>should_close := True, state := Q10\<rparr> else m\<lparr>should_close := False\<rparr>)"
  using assms by (simp add: q6_def sys_quiet Let_def)

text \<open>The sign of life that is due in a pass.\<close>

definition alive_due :: "tick \<Rightarrow> node \<Rightarrow> (socket_addr \<times> u8 list) list" where
  "alive_due t n = (if elapsed_secs (now n + tick_elapsed t) (last_alive n) > 10
     then [(tracker_addr n, to_bytes (NetAlive NetAlivePdu_new))] else [])"

lemma send_alive_open:
  assumes "udp_open n"
  shows "\<exists>la u. send_alive (n\<lparr>now := now n + tick_elapsed t\<rparr>) =
      Ret (n\<lparr>now := now n + tick_elapsed t, last_alive := la, udp_sock := u\<rparr>) \<and>
    udp_ready u \<and> arrivals u = arrivals (udp_sock n) \<and>
    sent_datagrams u = sent_datagrams (udp_sock n) @ alive_due t n"
proof (cases "elapsed_secs (now n + tick_elapsed t) (last_alive n) > 10")
  case True
  then show ?thesis
    using UdpWrapper_sends [of "udp_sock n" "udp_wrapper n" "NetAlive NetAlivePdu_new" "tracker_addr n"] assms
    by (fastforce simp: send_alive_def send_udp_def alive_due_def udp_open_def)
next
  case False
  then show ?thesis
    using assms by (intro exI [of _ "last_alive n"] exI [of _ "udp_sock n"])
      (simp add: send_alive_def alive_due_def udp_open_def)
qed

lemma send_alive_due:
  assumes "udp_idle n"
  shows "\<exists>la u. send_alive (n\<lparr>now := now n + tick_elapsed t\<rparr>) =
      Ret (n\<lparr>now := now n + tick_elapsed t, last_alive := la, udp_sock := u\<rparr>) \<and>
    udp_idle (n\<lparr>now := now n + tick_elapsed t, last_alive := la, udp_sock := u\<rparr>) \<and>
    arrivals u = arrivals (udp_sock n) \<and>
    sent_datagrams u = sent_datagrams (udp_sock n) @ alive_due t n"
  using send_alive_open [of n t] assms by (fastforce simp: udp_idle_open udp_open_def)

text \<open>One pass in which one datagram arrives, behind what the buffer holds.\<close>

lemma handle_events_one: "handle_events [token] n = handle_event token n"
proof -
  have "handle_events [] = Ret" by (rule ext) simp
  then show ?thesis by simp
qed

lemma q6_event_panics:
  assumes "send_alive (n\<lparr>now := now n + tick_elapsed t\<rparr>) = Ret n1" "syscalls n1 = []"
    and "handle_events (tick_events t) n1 = Panic e"
  shows "q6 t n = Panic e"
  using assms by (simp add: q6_def sys_quiet Let_def)

lemma q6_reads:
  assumes "udp_open n" "tick_events t = [UDP]" "length (buffered (udp_wrapper n) @ bs) \<le> BUFFER_SIZE"
    and "frames parse_pdu (buffered (udp_wrapper n) @ bs) ps r"
    and "arrivals (udp_sock n) = Datagram bs a # DWouldBlock # ds"
  shows "\<exists>la u w. udp_ready u \<and> arrivals u = ds \<and> sent_datagrams u = sent_datagrams (udp_sock n) @ alive_due t n \<and>
    wf_wrapper w \<and> buffered w = r \<and> incoming_queue w = map (\<lambda>p. (p, a)) ps \<and>
    (\<forall>m. drain UDP (n\<lparr>now := now n + tick_elapsed t, last_alive := la, udp_wrapper := w, udp_sock := u\<rparr>) = Ret m \<and>
      syscalls m = [] \<longrightarrow> q6 t n = Ret (if should_close m \<or> tick_signal t
        then m\<lparr>should_close := True, state := Q10\<rparr> else m\<lparr>should_close := False\<rparr>)) \<and>
    (\<forall>e. drain UDP (n\<lparr>now := now n + tick_elapsed t, last_alive := la, udp_wrapper := w, udp_sock := u\<rparr>) = Panic e \<longrightarrow>
      q6 t n = Panic e)"
proof -
  obtain la u where al: "send_alive (n\<lparr>now := now n + tick_elapsed t\<rparr>) =
      Ret (n\<lparr>now := now n + tick_elapsed t, last_alive := la, udp_sock := u\<rparr>)"
    "udp_ready u" "arrivals u = arrivals (udp_sock n)"
    "sent_datagrams u = sent_datagrams (udp_sock n) @ alive_due t n"
    using send_alive_open [OF assms(1)] by blast
  let ?n1 = "n\<lparr>now := now n + tick_elapsed t, last_alive := la, udp_sock := u\<rparr>"
  let ?u = "u\<lparr>arrivals := ds\<rparr>"
  have wf: "wf_wrapper (udp_wrapper n)" "incoming_queue (udp_wrapper n) = []" "syscalls n = []"
    using assms(1) by (simp_all add: udp_open_def)
  have "length bs \<le> free_space (udp_wrapper n)"
    using assms(3) length_buffered [OF wf(1)] by (simp add: free_space_def)
  from udp_read_loop_datagram [OF wf(1) this assms(4)] obtain w where
    w: "udp_read_loop (udp_wrapper n) (Datagram bs a # DWouldBlock # ds) = udp_read_loop w (DWouldBlock # ds)"
    "wf_wrapper w" "buffered w = r" "incoming_queue w = map (\<lambda>p. (p, a)) ps"
    using wf(2) by fastforce
  have "UdpWrapper_try_read (udp_wrapper n) u = Ret (w, ?u)"
    using w(1) al(3) assms(5) by (simp add: UdpWrapper_try_read_def udp_read_loop_eq [OF w(2)])
  then have ev: "handle_events (tick_events t) ?n1 = drain UDP (?n1\<lparr>udp_wrapper := w, udp_sock := ?u\<rparr>)"
    unfolding assms(2) handle_events_one by (simp add: handle_event_def)
  then have "\<forall>m. drain UDP (?n1\<lparr>udp_wrapper := w, udp_sock := ?u\<rparr>) = Ret m \<and> syscalls m = [] \<longrightarrow>
      q6 t n = Ret (if should_close m \<or> tick_signal t
        then m\<lparr>should_close := True, state := Q10\<rparr> else m\<lparr>should_close := False\<rparr>)"
    using q6_pass [OF al(1)] wf(3) by simp
  moreover have "udp_ready ?u" using al(2) by (simp add: udp_ready_def)
  moreover have "\<forall>e. drain UDP (?n1\<lparr>udp_wrapper := w, udp_sock := ?u\<rparr>) = Panic e \<longrightarrow> q6 t n = Panic e"
    using q6_event_panics [OF al(1)] wf(3) ev by simp
  ultimately show ?thesis
    using w(2-) al(4) by (intro exI [of _ la] exI [of _ ?u] exI [of _ w]) simp
qed

text \<open>A node whose buffer is empty and one PDU.\<close>

lemma q6_datagram:
  assumes "udp_idle n" "tick_events t = [UDP]" "wf_pdu p" "length (to_bytes p) \<le> BUFFER_SIZE"
    and "arrivals (udp_sock n) = Datagram (to_bytes p) a # DWouldBlock # ds"
  shows "\<exists>la u w. udp_ready u \<and> arrivals u = ds \<and> sent_datagrams u = sent_datagrams (udp_sock n) @ alive_due t n \<and>
    wf_wrapper w \<and> buffered w = [] \<and> incoming_queue w = [(norm_pdu p, a)] \<and>
    (\<forall>m. drain UDP (n\<lparr>now := now n + tick_elapsed t, last_alive := la, udp_wrapper := w, udp_sock := u\<rparr>) = Ret m \<and>
      syscalls m = [] \<longrightarrow> q6 t n = Ret (if should_close m \<or> tick_signal t
        then m\<lparr>should_close := True, state := Q10\<rparr> else m\<lparr>should_close := False\<rparr>)) \<and>
    (\<forall>e. drain UDP (n\<lparr>now := now n + tick_elapsed t, last_alive := la, udp_wrapper := w, udp_sock := u\<rparr>) = Panic e \<longrightarrow>
      q6 t n = Panic e)"
proof -
  have "frames parse_pdu (to_bytes p) [norm_pdu p] []"
    using wire.frames_concat [of "[p]" "[]" "[]" "[]"] wire_done [of "[]"] assms(3) by simp
  then show ?thesis
    using q6_reads [OF _ assms(2) _ _ assms(5), of "[norm_pdu p]" "[]"] assms(1,4) by (simp add: udp_idle_open)
qed

text \<open>What the parser makes of the datagram can end the node.\<close>

lemma q6_panics:
  assumes "udp_open n" "tick_events t = [UDP]" "length bs \<le> free_space (udp_wrapper n)"
    and "arrivals (udp_sock n) = Datagram bs a # ds"
    and "parse_loop (Ret a) (filled (udp_wrapper n) bs) = Panic e"
  shows "q6 t n = Panic e"
proof -
  obtain la u where al: "send_alive (n\<lparr>now := now n + tick_elapsed t\<rparr>) =
      Ret (n\<lparr>now := now n + tick_elapsed t, last_alive := la, udp_sock := u\<rparr>)"
    "arrivals u = arrivals (udp_sock n)"
    using send_alive_open [OF assms(1)] by blast
  let ?n1 = "n\<lparr>now := now n + tick_elapsed t, last_alive := la, udp_sock := u\<rparr>"
  have wf: "wf_wrapper (udp_wrapper n)" "syscalls ?n1 = []" using assms(1) by (simp_all add: udp_open_def)
  have "UdpWrapper_try_read (udp_wrapper n) u = Panic e"
    using assms(3-5) al(2) by (simp add: UdpWrapper_try_read_def udp_read_loop_eq [OF wf(1)])
  then have "handle_events (tick_events t) ?n1 = Panic e"
    unfolding assms(2) handle_events_one by (simp add: handle_event_def)
  then show ?thesis using q6_event_panics [OF al(1) wf(2)] by blast
qed

text \<open>The datagram is a value PDU, as clients send them.\<close>

lemma q6_serves_datagram:
  assumes "udp_idle n" "can_send n" "tick_events t = [UDP]" "\<not> tick_signal t" "\<not> should_close n"
    and "is_value p" "wf_pdu p" "length (to_bytes p) \<le> BUFFER_SIZE"
    and "arrivals (udp_sock n) = Datagram (to_bytes p) a # DWouldBlock # ds"
  shows "\<exists>n'. q6 t n = Ret n' \<and> state n' = Q6 \<and> hash_range n' = hash_range n \<and>
    abs_node n' = val_spec (owned n) p
      ((abs_node n)\<lparr>v_replies := v_replies (abs_node n) @ alive_due t n\<rparr>) \<and>
    udp_idle n' \<and> can_send n' \<and> arrivals (udp_sock n') = ds \<and> running n' = running n \<and>
    tracker_addr n' = tracker_addr n \<and> \<not> should_close n' \<and> predecessor_wrapper n' = predecessor_wrapper n"
proof -
  obtain la u w where r: "udp_ready u" "arrivals u = ds" "sent_datagrams u = sent_datagrams (udp_sock n) @ alive_due t n"
    "wf_wrapper w" "buffered w = []" "incoming_queue w = [(p, a)]" and
    pass: "\<forall>m. drain UDP (n\<lparr>now := now n + tick_elapsed t, last_alive := la, udp_wrapper := w, udp_sock := u\<rparr>) = Ret m \<and>
      syscalls m = [] \<longrightarrow> q6 t n = Ret (if should_close m \<or> tick_signal t
        then m\<lparr>should_close := True, state := Q10\<rparr> else m\<lparr>should_close := False\<rparr>)"
    using q6_datagram [OF assms(1,3,7,8,9)] is_value_norm [OF assms(6)] by auto
  let ?n2 = "n\<lparr>now := now n + tick_elapsed t, last_alive := la, udp_wrapper := w, udp_sock := u\<rparr>"
  let ?n3 = "?n2\<lparr>udp_wrapper := w\<lparr>incoming_queue := []\<rparr>\<rparr>"
  have "can_send ?n3" using assms(2) r(1) by (simp add: can_send_def owned_def)
  from handle_pdu_refines [OF this assms(6), of "SrcUDP a"] obtain m where
    m: "handle_pdu p (SrcUDP a) ?n3 = Ret m" "abs_node m = val_spec (owned ?n3) p (abs_node ?n3)"
    "keeps ?n3 m" "state m = Q6" "can_send m" by blast
  have nx: "next_message UDP ?n2 = (Some (p, SrcUDP a), ?n3)"
    using r(6) by (simp add: next_message_def UdpWrapper_next_pdu_def)
  have "queue_of UDP m = []"
    using keeps_queue [OF m(3), of UDP] by (simp add: queue_of_def wrapper_of_def)
  then have d: "drain UDP ?n2 = Ret m"
    unfolding drain.simps [of UDP ?n2] nx by (simp only: prod.case option.case m(1) obind.simps drain_empty)
  have m_sys: "syscalls m = []" "should_close m = should_close n" "running m = running n"
    "tracker_addr m = tracker_addr n" "udp_wrapper m = w\<lparr>incoming_queue := []\<rparr>" "arrivals (udp_sock m) = ds"
    using handle_pdu_syscalls [OF m(1)] assms(1) r(2) by (simp_all add: udp_idle_def)
  then have "udp_idle (m\<lparr>should_close := False\<rparr>)" "can_send (m\<lparr>should_close := False\<rparr>)"
    using r(4,5) m(5) by (simp_all add: udp_idle_def can_send_def owned_def wf_wrapper_def buffered_def)
  moreover have "q6 t n = Ret (m\<lparr>should_close := False\<rparr>)"
    using pass d m_sys(1,2) assms(4,5) by simp
  moreover have "abs_node ?n3 = (abs_node n)\<lparr>v_replies := v_replies (abs_node n) @ alive_due t n\<rparr>"
    "owned ?n3 = owned n"
    using r(3) by (simp_all add: abs_node_def store_of_eq owned_def)
  ultimately show ?thesis
    using m m_sys by (simp add: abs_node_def store_of_eq keeps_def)
qed

text \<open>The datagram is a request that the node treats in its next pass.\<close>

lemma q6_takes_request:
  assumes "udp_idle n" "tick_events t = [UDP]" "\<not> tick_signal t" "\<not> should_close n"
    and "arrivals (udp_sock n) = Datagram (to_bytes p) a # DWouldBlock # ds"
    and "wf_pdu p" "length (to_bytes p) \<le> BUFFER_SIZE" "norm_pdu p = p"
    and "\<And>src m. handle_pdu p src m = Ret (m\<lparr>last_pdu := Some p, state := st\<rparr>)"
  shows "\<exists>la u w. udp_ready u \<and> q6 t n = Ret (n\<lparr>now := now n + tick_elapsed t, last_alive := la, udp_sock := u,
    udp_wrapper := w, last_pdu := Some p, state := st, should_close := False\<rparr>)"
proof -
  obtain la u w where r: "udp_ready u" "incoming_queue w = [(p, a)]" and
    pass: "\<forall>m. drain UDP (n\<lparr>now := now n + tick_elapsed t, last_alive := la, udp_wrapper := w, udp_sock := u\<rparr>) = Ret m \<and>
      syscalls m = [] \<longrightarrow> q6 t n = Ret (if should_close m \<or> tick_signal t
        then m\<lparr>should_close := True, state := Q10\<rparr> else m\<lparr>should_close := False\<rparr>)"
    using q6_datagram [OF assms(1,2,6,7,5)] assms(8) by auto
  let ?n2 = "n\<lparr>now := now n + tick_elapsed t, last_alive := la, udp_wrapper := w, udp_sock := u\<rparr>"
  let ?w = "w\<lparr>incoming_queue := []\<rparr>"
  let ?m = "?n2\<lparr>udp_wrapper := ?w, last_pdu := Some p, state := st\<rparr>"
  have nx: "next_message UDP ?n2 = (Some (p, SrcUDP a), ?n2\<lparr>udp_wrapper := ?w\<rparr>)"
    using r(2) by (simp add: next_message_def UdpWrapper_next_pdu_def)
  have "queue_of UDP ?m = []" by (simp add: queue_of_def wrapper_of_def)
  then have "drain UDP ?n2 = Ret ?m"
    unfolding drain.simps [of UDP ?n2] nx by (simp add: assms(9) drain_empty)
  then have "q6 t n = Ret (?m\<lparr>should_close := False\<rparr>)"
    using pass assms(1,3,4) by (simp add: udp_idle_def)
  then show ?thesis using r(1) by (intro exI [of _ la] exI [of _ u] exI [of _ ?w]) simp
qed

lemma q6_takes_join:
  assumes "udp_idle n" "tick_events t = [UDP]" "\<not> tick_signal t" "\<not> should_close n"
    and "arrivals (udp_sock n) = Datagram (to_bytes (NetJoin p)) a # DWouldBlock # ds"
    and "wf_pdu (NetJoin p)" "length (to_bytes (NetJoin p)) \<le> BUFFER_SIZE" "norm_pdu (NetJoin p) = NetJoin p"
  shows "\<exists>la u w. udp_ready u \<and> q6 t n = Ret (n\<lparr>now := now n + tick_elapsed t, last_alive := la, udp_sock := u,
    udp_wrapper := w, last_pdu := Some (NetJoin p), state := Q12, should_close := False\<rparr>)"
  by (rule q6_takes_request [OF assms]) simp

lemma q6_takes_new_range:
  assumes "udp_idle n" "tick_events t = [UDP]" "\<not> tick_signal t" "\<not> should_close n"
    and "arrivals (udp_sock n) = Datagram (to_bytes (NetNewRange (NetNewRangePdu_new lo hi))) a # DWouldBlock # ds"
  shows "\<exists>la u w. udp_ready u \<and> q6 t n = Ret (n\<lparr>now := now n + tick_elapsed t, last_alive := la, udp_sock := u,
    udp_wrapper := w, last_pdu := Some (NetNewRange (NetNewRangePdu_new lo hi)), state := Q15, should_close := False\<rparr>)"
  by (rule q6_takes_request [OF assms])
    (simp_all add: wf_pdu_def NetNewRangePdu_new_def NetNewRangePdu_to_vec_def BUFFER_SIZE_def)

text \<open>A \<open>NET_CLOSE_CONNECTION\<close> must come from the predecessor.\<close>

lemma q6_refuses_close:
  assumes "udp_idle n" "tick_events t = [UDP]"
    and "arrivals (udp_sock n) = Datagram (to_bytes (NetCloseConnection NetCloseConnectionPdu_new)) a # DWouldBlock # ds"
  shows "q6 t n = Panic IllegalClose"
proof -
  let ?p = "NetCloseConnection NetCloseConnectionPdu_new"
  have p: "wf_pdu ?p" "length (to_bytes ?p) \<le> BUFFER_SIZE" "norm_pdu ?p = ?p"
    by (simp_all add: wf_pdu_def NetCloseConnectionPdu_new_def NetCloseConnectionPdu_to_vec_def BUFFER_SIZE_def)
  obtain la u w where r: "incoming_queue w = [(?p, a)]" and
    pass: "\<forall>e. drain UDP (n\<lparr>now := now n + tick_elapsed t, last_alive := la, udp_wrapper := w, udp_sock := u\<rparr>) = Panic e \<longrightarrow>
      q6 t n = Panic e"
    using q6_datagram [OF assms(1,2) p(1,2) assms(3)] p(3) by auto
  let ?n2 = "n\<lparr>now := now n + tick_elapsed t, last_alive := la, udp_wrapper := w, udp_sock := u\<rparr>"
  have "next_message UDP ?n2 = (Some (?p, SrcUDP a), ?n2\<lparr>udp_wrapper := w\<lparr>incoming_queue := []\<rparr>\<rparr>)"
    using r by (simp add: next_message_def UdpWrapper_next_pdu_def)
  then have "drain UDP ?n2 = Panic IllegalClose" by (simp add: drain.simps [of UDP ?n2])
  then show ?thesis using pass by blast
qed

section \<open>Lookups before the entries are stored\<close>

text \<open>A pass without an event, or with the datagram of one lookup that the node itself answers.\<close>

definition asks :: "u8 set \<Rightarrow> tick \<Rightarrow> (ValLookupPdu \<times> socket_addr) option \<Rightarrow> bool" where
  "asks own t x \<longleftrightarrow> \<not> tick_signal t \<and> (case x of None \<Rightarrow> tick_events t = []
     | Some (q, a) \<Rightarrow> tick_events t = [UDP] \<and> sendable (ValLookup q) \<and> hash_ssn (vl_ssn q) \<in> own)"

definition brings :: "(ValLookupPdu \<times> socket_addr) option \<Rightarrow> dgram list" where
  "brings x = (case x of None \<Rightarrow> [] | Some (q, a) \<Rightarrow> [Datagram (to_bytes (ValLookup q)) a, DWouldBlock])"

definition not_found :: "(ValLookupPdu \<times> socket_addr) option \<Rightarrow> (socket_addr \<times> u8 list) list" where
  "not_found x = (case x of None \<Rightarrow> []
     | Some (q, a) \<Rightarrow> [(V4 (vl_sender_address q, vl_sender_port q), to_bytes (ValLookupResponse (lookup_reply None)))])"

text \<open>What a node sends besides its signs of life.\<close>

abbreviation answers :: "(socket_addr \<times> u8 list) list \<Rightarrow> (socket_addr \<times> u8 list) list" where
  "answers \<equiv> filter (\<lambda>d. snd d \<noteq> to_bytes (NetAlive NetAlivePdu_new))"

lemma answers_alive: "answers (alive_due t n) = []"
  by (simp add: alive_due_def)

lemma answers_not_found: "answers (not_found x) = not_found x"
  by (auto simp: not_found_def NetAlivePdu_to_vec_def ValLookupResponsePdu_to_vec_def pdu_consts
      lookup_reply_def ValLookupResponsePdu_new_def NetAlivePdu_new_def split: option.splits)

lemma store_of_empty: "store_of n = Map.empty \<longleftrightarrow> stored n = []"
proof
  assume "store_of n = Map.empty"
  then have "e \<notin> set (stored n)" for e
    by (metis first_entry_None_iff store_of_def)
  then show "stored n = []" by (metis list.set_intros(1) neq_Nil_conv)
qed (simp add: store_of_def fun_eq_iff)

lemma q6_no_event:
  assumes "udp_idle n" "tick_events t = []" "\<not> tick_signal t" "\<not> should_close n"
  shows "\<exists>la u. q6 t n = Ret (n\<lparr>now := now n + tick_elapsed t, last_alive := la, udp_sock := u, should_close := False\<rparr>) \<and>
    udp_ready u \<and> arrivals u = arrivals (udp_sock n) \<and> sent_datagrams u = sent_datagrams (udp_sock n) @ alive_due t n"
proof -
  obtain la u where al: "send_alive (n\<lparr>now := now n + tick_elapsed t\<rparr>) =
      Ret (n\<lparr>now := now n + tick_elapsed t, last_alive := la, udp_sock := u\<rparr>)"
    "udp_ready u" "arrivals u = arrivals (udp_sock n)"
    "sent_datagrams u = sent_datagrams (udp_sock n) @ alive_due t n"
    using send_alive_open [of n t] assms(1) by (auto simp: udp_idle_open)
  then show ?thesis
    using q6_pass [OF al(1) _ _ _] assms
    by (intro exI [of _ la] exI [of _ u]) (simp add: udp_idle_def)
qed

text \<open>One such pass of a node that has stored nothing.\<close>

lemma q6_unanswered:
  assumes "udp_idle n" "can_send n" "\<not> should_close n" "state n = Q6" "stored n = []" "asks (owned n) t x"
    and "arrivals (udp_sock n) = brings x @ ds"
  shows "\<exists>n' out. q6 t n = Ret n' \<and> udp_idle n' \<and> can_send n' \<and> \<not> should_close n' \<and> state n' = Q6 \<and>
    stored n' = [] \<and> hash_range n' = hash_range n \<and> running n' = running n \<and>
    arrivals (udp_sock n') = ds \<and> predecessor_wrapper n' = predecessor_wrapper n \<and>
    sent_datagrams (udp_sock n') = sent_datagrams (udp_sock n) @ out \<and> answers out = not_found x"
proof (cases x)
  case None
  then obtain la u where "q6 t n = Ret (n\<lparr>now := now n + tick_elapsed t, last_alive := la, udp_sock := u, should_close := False\<rparr>)"
    "udp_ready u" "arrivals u = ds" "sent_datagrams u = sent_datagrams (udp_sock n) @ alive_due t n"
    using q6_no_event [OF assms(1), of t] assms(3,6,7) by (auto simp: asks_def brings_def)
  then show ?thesis
    using assms None answers_alive [of t n] by (fastforce simp: udp_idle_def can_send_def owned_def not_found_def)
next
  case (Some y)
  obtain q a where y: "y = (q, a)" by fastforce
  then have q: "tick_events t = [UDP]" "\<not> tick_signal t" "wf_pdu (ValLookup q)"
    "length (to_bytes (ValLookup q)) \<le> BUFFER_SIZE" "hash_ssn (vl_ssn q) \<in> owned n"
    "arrivals (udp_sock n) = Datagram (to_bytes (ValLookup q)) a # DWouldBlock # ds"
    using assms(6,7) Some by (auto simp: asks_def brings_def sendable_def)
  have val: "is_value (ValLookup q)" by (simp add: is_value_def)
  obtain n' where n': "q6 t n = Ret n'" "state n' = Q6" "hash_range n' = hash_range n"
    "abs_node n' = val_spec (owned n) (ValLookup q)
      ((abs_node n)\<lparr>v_replies := v_replies (abs_node n) @ alive_due t n\<rparr>)"
    "udp_idle n'" "can_send n'" "arrivals (udp_sock n') = ds" "running n' = running n"
    "\<not> should_close n'" "predecessor_wrapper n' = predecessor_wrapper n"
    using q6_serves_datagram [OF assms(1,2) q(1,2) assms(3) val q(3,4,6)] by blast
  have none: "store_of n = Map.empty" using assms(5) store_of_empty by blast
  have abs: "abs_node n' = (abs_node n)\<lparr>v_replies := (v_replies (abs_node n) @ alive_due t n) @ not_found x\<rparr>"
    unfolding n'(4) using q(5) none Some y by (simp add: val_spec_def abs_node_def not_found_def del: to_bytes.simps)
  have "v_store (abs_node n') = v_store (abs_node n)" unfolding abs by simp
  then have "store_of n' = Map.empty" using none by (simp add: abs_node_def)
  moreover have "v_replies (abs_node n') = v_replies (abs_node n) @ (alive_due t n @ not_found x)"
    unfolding abs by simp
  then have "sent_datagrams (udp_sock n') = sent_datagrams (udp_sock n) @ (alive_due t n @ not_found x)"
    by (simp add: abs_node_def)
  moreover have "answers (alive_due t n @ not_found x) = not_found x"
    by (simp add: answers_alive answers_not_found del: to_bytes.simps)
  ultimately show ?thesis using n' store_of_empty by blast
qed

text \<open>Any number of them.\<close>

lemma run_unanswered:
  assumes "udp_idle n" "can_send n" "\<not> should_close n" "state n = Q6" "running n" "stored n = []"
    and "list_all (\<lambda>(t, x). asks (owned n) t x) ps"
    and "arrivals (udp_sock n) = concat (map (brings \<circ> snd) ps) @ ds"
  shows "\<exists>n' out. run_node bld (map fst ps) n = Ret n' \<and> state n' = Q6 \<and> stored n' = [] \<and>
    hash_range n' = hash_range n \<and> predecessor_wrapper n' = predecessor_wrapper n \<and>
    sent_datagrams (udp_sock n') = sent_datagrams (udp_sock n) @ out \<and>
    answers out = concat (map (not_found \<circ> snd) ps)"
  using assms
proof (induction ps arbitrary: n)
  case Nil
  then show ?case by simp
next
  case (Cons p ps)
  obtain t x where p: "p = (t, x)" by fastforce
  then have x: "asks (owned n) t x" "arrivals (udp_sock n) = brings x @ (concat (map (brings \<circ> snd) ps) @ ds)"
    using Cons.prems(7,8) by (simp_all add: comp_def)
  from q6_unanswered [OF Cons.prems(1-4,6) x] obtain n1 out1 where n1: "q6 t n = Ret n1" "udp_idle n1" "can_send n1"
    "\<not> should_close n1" "state n1 = Q6" "stored n1 = []" "hash_range n1 = hash_range n" "running n1 = running n"
    "arrivals (udp_sock n1) = concat (map (brings \<circ> snd) ps) @ ds" "predecessor_wrapper n1 = predecessor_wrapper n"
    "sent_datagrams (udp_sock n1) = sent_datagrams (udp_sock n) @ out1" "answers out1 = not_found x" by blast
  have own: "owned n1 = owned n" using n1(7) by (simp add: owned_def)
  have "running n1" "list_all (\<lambda>(t, x). asks (owned n1) t x) ps" using n1(8) Cons.prems(5,7) own by simp_all
  from Cons.IH [OF n1(2-5) this(1) n1(6) this(2) n1(9)] obtain n' out where
    n': "run_node bld (map fst ps) n1 = Ret n'" "state n' = Q6" "stored n' = []" "hash_range n' = hash_range n1"
    "predecessor_wrapper n' = predecessor_wrapper n1" "sent_datagrams (udp_sock n') = sent_datagrams (udp_sock n1) @ out"
    "answers out = concat (map (not_found \<circ> snd) ps)" by blast
  have "run_node bld (map fst (p # ps)) n = run_node bld (map fst ps) n1"
    using p Cons.prems(4,5) n1(1) by (simp add: node_step_def)
  moreover have "answers (out1 @ out) = concat (map (not_found \<circ> snd) (p # ps))"
    using n1(12) n'(7) p by (simp del: to_bytes.simps)
  ultimately show ?case
    using n' n1(7,10,11) by (intro exI [of _ n'] exI [of _ "out1 @ out"]) (simp add: comp_def)
qed

section \<open>PDUs that wait in a queue\<close>

text \<open>An event on a stream that brings nothing new only drains the queue.\<close>

definition predecessor_rests :: "node \<Rightarrow> bool" where
  "predecessor_rests n \<longleftrightarrow> wf_wrapper (predecessor_wrapper n) \<and> buffered (predecessor_wrapper n) = [] \<and>
     (\<exists>s a. predecessor n = Some s \<and> inbox s = [] \<and> peer_addr s = Some a)"

lemma predecessor_event:
  assumes "predecessor_rests n"
  shows "handle_event PREDECESSOR n = drain PREDECESSOR n"
proof -
  obtain s a where s: "predecessor n = Some s" "inbox s = []" "peer_addr s = Some a"
    and w: "wf_wrapper (predecessor_wrapper n)" "buffered (predecessor_wrapper n) = []"
    using assms by (auto simp: predecessor_rests_def)
  have "TcpWrapper_try_read (predecessor_wrapper n) s = Ret (predecessor_wrapper n, s, False)"
    using s(2,3) w by (simp add: TcpWrapper_try_read_def unwrap_io_def tcp_read_loop_eq parse_loop_eq)
  then have "handle_event PREDECESSOR n = drain PREDECESSOR (n\<lparr>predecessor := Some s\<rparr>)"
    using s(1) by (simp add: handle_event_def UDP_def SUCCESSOR_def PREDECESSOR_def)
  also have "n\<lparr>predecessor := Some s\<rparr> = n" using s(1) by (cases n) simp
  finally show ?thesis .
qed

lemma next_message_predecessor:
  "queue_of PREDECESSOR n = (p, a) # ms \<Longrightarrow> next_message PREDECESSOR n = (Some (p, SrcPredecessor a),
     n\<lparr>predecessor_wrapper := (predecessor_wrapper n)\<lparr>incoming_queue := ms\<rparr>\<rparr>)"
  by (simp add: next_message_def queue_of_def wrapper_of_def TcpWrapper_next_pdu_def UDP_def
      SUCCESSOR_def PREDECESSOR_def)

lemma drain_join:
  assumes "queue_of PREDECESSOR n = (NetJoin p, a) # ms"
  shows "drain PREDECESSOR n = drain PREDECESSOR (n\<lparr>predecessor_wrapper :=
    (predecessor_wrapper n)\<lparr>incoming_queue := ms\<rparr>, last_pdu := Some (NetJoin p), state := Q12\<rparr>)"
  by (subst drain.simps) (simp add: next_message_predecessor [OF assms])

text \<open>A pass of a node at rest whose predecessor has PDUs queued.\<close>

lemma q6_predecessor_queue:
  assumes "udp_idle n" "predecessor_rests n" "tick_events t = [PREDECESSOR]"
  shows "\<exists>n1. predecessor_wrapper n1 = predecessor_wrapper n \<and> successor n1 = successor n \<and> hash_range n1 = hash_range n \<and>
    stored n1 = stored n \<and> udp_ready (udp_sock n1) \<and> syscalls n1 = [] \<and> should_close n1 = should_close n \<and>
    sent_datagrams (udp_sock n1) = sent_datagrams (udp_sock n) @ alive_due t n \<and>
    (\<forall>m. drain PREDECESSOR n1 = Ret m \<and> syscalls m = [] \<longrightarrow> q6 t n = Ret (if should_close m \<or> tick_signal t
      then m\<lparr>should_close := True, state := Q10\<rparr> else m\<lparr>should_close := False\<rparr>))"
proof -
  obtain la u where al: "send_alive (n\<lparr>now := now n + tick_elapsed t\<rparr>) =
      Ret (n\<lparr>now := now n + tick_elapsed t, last_alive := la, udp_sock := u\<rparr>)"
    "udp_idle (n\<lparr>now := now n + tick_elapsed t, last_alive := la, udp_sock := u\<rparr>)"
    "sent_datagrams u = sent_datagrams (udp_sock n) @ alive_due t n"
    using send_alive_due [OF assms(1)] by blast
  let ?n1 = "n\<lparr>now := now n + tick_elapsed t, last_alive := la, udp_sock := u\<rparr>"
  have "predecessor_rests ?n1" using assms(2) by (simp add: predecessor_rests_def)
  moreover have "handle_events [] = Ret" by (rule ext) simp
  ultimately have "handle_events (tick_events t) ?n1 = drain PREDECESSOR ?n1"
    using assms(3) predecessor_event by simp
  then show ?thesis
    using al assms(1) q6_pass [OF al(1)] by (intro exI [of _ ?n1]) (simp add: udp_idle_def)
qed

lemma drain_syscalls: "drain token n = Ret m \<Longrightarrow> syscalls m = syscalls n \<and> should_close m = should_close n"
proof -
  assume d: "drain token n = Ret m"
  have "safe {} (\<lambda>m. syscalls m = syscalls n \<and> should_close m = should_close n) (drain token n)"
  proof (rule drain_invariant)
    show "safe {} (\<lambda>m. syscalls m = syscalls n \<and> should_close m = should_close n) (handle_pdu p src k)"
      if "syscalls k = syscalls n \<and> should_close k = should_close n" for k p src
      using handle_pdu_syscalls [of p src k] that by (auto intro!: safeI)
    show "syscalls k' = syscalls n \<and> should_close k' = should_close n"
      if "syscalls k = syscalls n \<and> should_close k = should_close n" "next_message token k = (x, k')" for k x k'
      using that by (auto simp: next_message_def split_beta split: if_splits)
  qed simp
  from safe_RetD [OF this d] show ?thesis .
qed

end
