(* ===== verification/Ring.thy ===== *)
theory Ring
  imports Node_Start
begin

text \<open>
  A ring of nodes: what one node puts on the stream to its successor arrives, in one piece, on
  the successor's stream from its predecessor.  A value PDU travels until it meets the node
  whose range has its hash; a join request collects the widest range on its way round.
\<close>

section \<open>Hops\<close>

definition arrive :: "u8 list \<Rightarrow> node \<Rightarrow> node" where
  "arrive bs n = n\<lparr>predecessor := map_option (\<lambda>s. s\<lparr>inbox := [RData bs]\<rparr>) (predecessor n)\<rparr>"

definition put_out :: "node \<Rightarrow> u8 list" where
  "put_out n = (case successor n of None \<Rightarrow> [] | Some s \<Rightarrow> outbox s)"

text \<open>
  The event of the arrival, and the two passes that handle a join request (\<open>q12\<close>, then \<open>q13\<close>
  or \<open>q14\<close>); a value PDU is handled in the event itself.
\<close>

definition hop :: "build \<Rightarrow> tick \<Rightarrow> u8 list \<Rightarrow> node \<Rightarrow> node outcome" where
  "hop bld t bs n =
     obind (handle_event PREDECESSOR (arrive bs n)) (\<lambda>n.
     if state n = Q6 then Ret n else run_node bld [t, t] n)"

text \<open>The message goes on as long as a node puts something out.\<close>

fun relay :: "build \<Rightarrow> tick \<Rightarrow> u8 list \<Rightarrow> node list \<Rightarrow> node list outcome" where
  "relay bld t bs [] = Ret []"
| "relay bld t bs (n # ns) =
     (if bs = [] then Ret (n # ns)
      else
        obind (hop bld t bs n) (\<lambda>n.
        obind (relay bld t (put_out n) ns) (\<lambda>ns. Ret (n # ns))))"

text \<open>A node at rest in a ring, with nothing on the stream to its successor yet.\<close>

definition ring_node :: "node \<Rightarrow> bool" where
  "ring_node n \<longleftrightarrow> predecessor_rests n \<and> queue_of PREDECESSOR n = [] \<and> udp_ready (udp_sock n) \<and>
     running n \<and> state n = Q6 \<and> (\<exists>s. successor n = Some s \<and> link_ready s \<and> outbox s = [])"

lemma to_bytes_nonempty [simp]: "to_bytes p \<noteq> []"
  by (metis list.distinct(1) to_bytes_Cons)

lemma relay_Nil [simp]: "relay bld t [] ns = Ret ns"
  by (cases ns) simp_all

text \<open>What the event of an arrival finds in the queue.\<close>

lemma arrival_event:
  assumes "ring_node n" "sendable p" "norm_pdu p = p"
  shows "\<exists>w a. handle_event PREDECESSOR (arrive (to_bytes p) n) = drain PREDECESSOR (n\<lparr>predecessor_wrapper := w\<rparr>) \<and>
    wf_wrapper w \<and> buffered w = [] \<and> incoming_queue w = [(p, a)]"
proof -
  obtain s a where s: "predecessor n = Some s" "inbox s = []" "peer_addr s = Some a"
    and w: "wf_wrapper (predecessor_wrapper n)" "buffered (predecessor_wrapper n) = []"
    and q: "incoming_queue (predecessor_wrapper n) = []"
    using assms(1) by (auto simp: ring_node_def predecessor_rests_def queue_of_def wrapper_of_def
        UDP_def SUCCESSOR_def PREDECESSOR_def)
  let ?s = "s\<lparr>inbox := [RData (to_bytes p)]\<rparr>"
  have p: "wf_pdu p" "length (to_bytes p) \<le> BUFFER_SIZE" using assms(2) by (simp_all add: sendable_def)
  have "frames parse_pdu (to_bytes p) [p] []"
    using wire.frames_concat [of "[p]" "[]" "[]" "[]"] wire_done [of "[]"] p(1) assms(3) by simp
  then obtain w' where w': "TcpWrapper_try_read (predecessor_wrapper n) ?s = Ret (w', ?s\<lparr>inbox := []\<rparr>, False)"
    "wf_wrapper w'" "buffered w' = []" "incoming_queue w' = [(p, a)]"
    using TcpWrapper_try_read_chunks [OF w(1), of "[to_bytes p]" ?s "[]" a "[p]" "[]"] w(2) p(2) s(3) q by auto
  have "?s\<lparr>inbox := []\<rparr> = s" using s(2) by simp
  then have "handle_event PREDECESSOR (arrive (to_bytes p) n) =
      drain PREDECESSOR (n\<lparr>predecessor_wrapper := w', predecessor := Some s\<rparr>)"
    using w'(1) s(1) by (simp add: arrive_def handle_event_def UDP_def SUCCESSOR_def PREDECESSOR_def Let_def)
  also have "n\<lparr>predecessor_wrapper := w', predecessor := Some s\<rparr> = n\<lparr>predecessor_wrapper := w'\<rparr>"
    using s(1) by (cases n) simp
  finally show ?thesis using w' by blast
qed

section \<open>A value on its way\<close>

lemma value_hop:
  assumes "ring_node n" "is_value p" "sendable p"
  shows "\<exists>n'. hop bld t (to_bytes p) n = Ret n' \<and> abs_node n' = val_spec (owned n) p (abs_node n) \<and>
    hash_range n' = hash_range n \<and> state n' = Q6 \<and>
    put_out n' = (if hash_ssn (value_ssn p) \<in> owned n then [] else to_bytes p)"
proof -
  obtain w a where w: "handle_event PREDECESSOR (arrive (to_bytes p) n) = drain PREDECESSOR (n\<lparr>predecessor_wrapper := w\<rparr>)"
    "incoming_queue w = [(p, a)]"
    using arrival_event [OF assms(1,3) is_value_norm [OF assms(2)]] by blast
  let ?m = "n\<lparr>predecessor_wrapper := w\<rparr>"
  have "can_send ?m" using assms(1) by (auto simp: ring_node_def can_send_def link_ready_def)
  moreover have "queue_of PREDECESSOR ?m = [(p, a)]"
    using w(2) by (simp add: queue_of_def wrapper_of_def UDP_def SUCCESSOR_def PREDECESSOR_def)
  ultimately obtain n' where n': "drain PREDECESSOR ?m = Ret n'" "abs_node n' = val_spec (owned ?m) p (abs_node ?m)"
    "hash_range n' = hash_range ?m" "state n' = Q6"
    using drain_refines [of ?m PREDECESSOR] assms(2) by auto
  have own: "owned ?m = owned n" "abs_node ?m = abs_node n" by (simp_all add: owned_def abs_node_def store_of_eq)
  have "v_forwarded (abs_node n) = []" using assms(1) by (auto simp: ring_node_def abs_node_def)
  then have "v_forwarded (abs_node n') = (if hash_ssn (value_ssn p) \<in> owned n then [] else to_bytes p)"
    unfolding n'(2) own using assms(2)
    by (cases "(p, abs_node n)" rule: serve_value.cases) (auto simp: val_spec_def is_value_def split: option.splits)
  then have "put_out n' = (if hash_ssn (value_ssn p) \<in> owned n then [] else to_bytes p)"
    by (simp add: put_out_def abs_node_def)
  then show ?thesis using w(1) n' own by (simp add: hop_def)
qed

lemma relay_value:
  assumes "list_all ring_node (as @ [b])" "is_value p" "sendable p"
    and "list_all (\<lambda>a. hash_ssn (value_ssn p) \<notin> owned a) as" "hash_ssn (value_ssn p) \<in> owned b"
  shows "\<exists>as' b'. relay bld t (to_bytes p) (as @ b # cs) = Ret (as' @ b' # cs) \<and>
    abs_node b' = serve_value p (abs_node b) \<and>
    list_all2 (\<lambda>a a'. abs_node a' = (abs_node a)\<lparr>v_forwarded := to_bytes p\<rparr>) as as'"
  using assms
proof (induction as)
  case Nil
  then obtain b' where b': "hop bld t (to_bytes p) b = Ret b'" "abs_node b' = serve_value p (abs_node b)" "put_out b' = []"
    using value_hop [of b p bld t] by (auto simp: val_spec_def)
  then have "relay bld t (to_bytes p) ([] @ b # cs) = Ret ([] @ b' # cs)" by simp
  then show ?case using b'(2) by blast
next
  case (Cons a as)
  obtain a' where a': "hop bld t (to_bytes p) a = Ret a'" "abs_node a' = val_spec (owned a) p (abs_node a)"
    "put_out a' = to_bytes p"
    using value_hop [of a p bld t] Cons.prems by auto
  have "v_forwarded (abs_node a) = []" using Cons.prems(1) by (auto simp: ring_node_def abs_node_def)
  then have "abs_node a' = (abs_node a)\<lparr>v_forwarded := to_bytes p\<rparr>"
    using a'(2) Cons.prems(4) by (simp add: val_spec_def)
  moreover obtain as' b' where "relay bld t (to_bytes p) (as @ b # cs) = Ret (as' @ b' # cs)"
    "abs_node b' = serve_value p (abs_node b)"
    "list_all2 (\<lambda>a a'. abs_node a' = (abs_node a)\<lparr>v_forwarded := to_bytes p\<rparr>) as as'"
    using Cons.IH Cons.prems by auto
  ultimately show ?case using a' by (intro exI [of _ "a' # as'"] exI [of _ b']) simp
qed

section \<open>A round, from the node that is asked\<close>

text \<open>
  The node that is asked gets the message as a datagram, in one pass of its own; the others get
  it from their predecessors.
\<close>

definition enter :: "build \<Rightarrow> tick \<Rightarrow> node \<Rightarrow> node outcome" where
  "enter bld t n = obind (q6 t n) (\<lambda>n. if state n = Q6 then Ret n else run_node bld [t, t] n)"

definition tour :: "build \<Rightarrow> tick \<Rightarrow> node \<Rightarrow> node list \<Rightarrow> (node \<times> node list) outcome" where
  "tour bld t n ns =
     obind (enter bld t n) (\<lambda>n.
     obind (relay bld t (put_out n) ns) (\<lambda>ns. Ret (n, ns)))"

definition asked :: "tick \<Rightarrow> PDU \<Rightarrow> node \<Rightarrow> bool" where
  "asked t p n \<longleftrightarrow> ring_node n \<and> udp_idle n \<and> \<not> should_close n \<and> tick_events t = [UDP] \<and> \<not> tick_signal t \<and>
     sendable p \<and> (\<exists>a ds. arrivals (udp_sock n) = Datagram (to_bytes p) a # DWouldBlock # ds)"

lemma ring_can_send: "ring_node n \<Longrightarrow> can_send n"
  by (auto simp: ring_node_def can_send_def link_ready_def)

lemma value_enters:
  assumes "asked t p n" "is_value p"
  shows "\<exists>n'. enter bld t n = Ret n' \<and>
    abs_node n' = val_spec (owned n) p ((abs_node n)\<lparr>v_replies := v_replies (abs_node n) @ alive_due t n\<rparr>) \<and>
    put_out n' = (if hash_ssn (value_ssn p) \<in> owned n then [] else to_bytes p)"
proof -
  let ?v = "(abs_node n)\<lparr>v_replies := v_replies (abs_node n) @ alive_due t n\<rparr>"
  obtain n' where n': "q6 t n = Ret n'" "state n' = Q6" "abs_node n' = val_spec (owned n) p ?v"
    using q6_serves_datagram [of n t p] ring_can_send assms by (auto simp: asked_def sendable_def)
  have "v_forwarded ?v = []" using assms(1) by (auto simp: asked_def ring_node_def abs_node_def)
  then have "v_forwarded (abs_node n') = (if hash_ssn (value_ssn p) \<in> owned n then [] else to_bytes p)"
    unfolding n'(3) using assms(2)
    by (cases "(p, ?v)" rule: serve_value.cases) (auto simp: val_spec_def is_value_def split: option.splits)
  then show ?thesis using n' by (auto simp: enter_def put_out_def abs_node_def)
qed

section \<open>A join request on its way\<close>

text \<open>The listen address of a node, as the request carries it, and the span of its range.\<close>

definition listens :: "node \<Rightarrow> socket_addr_v4" where
  "listens n = (case local_addr (listen_socket n) of Some (V4 a) \<Rightarrow> a | _ \<Rightarrow> (0, 0))"

definition span :: "node \<Rightarrow> u8" where
  "span n = snd (hash_range n) - fst (hash_range n)"

definition in_ring :: "node \<Rightarrow> bool" where
  "in_ring n \<longleftrightarrow> ring_node n \<and> listens n \<noteq> (0, 0) \<and> fst (hash_range n) \<le> snd (hash_range n)"

definition carried :: "NetJoinPdu \<Rightarrow> socket_addr_v4" where
  "carried p = (nj_max_address p, nj_max_port p)"

definition collect :: "node \<Rightarrow> NetJoinPdu \<Rightarrow> NetJoinPdu" where
  "collect n p = with_larger_span (span n) (listens n) p"

text \<open>What a node put out has gone to its successor.\<close>

definition delivered :: "node \<Rightarrow> node" where
  "delivered n = n\<lparr>successor := map_option (\<lambda>s. s\<lparr>outbox := []\<rparr>) (successor n)\<rparr>"

definition passed_on :: "node \<Rightarrow> node \<Rightarrow> bool" where
  "passed_on n n' \<longleftrightarrow> in_ring (delivered n') \<and> hash_range n' = hash_range n \<and> stored n' = stored n \<and>
     listen_socket n' = listen_socket n \<and> connects n' = connects n \<and> syscalls n' = syscalls n \<and>
     map_option peer_addr (successor n') = map_option peer_addr (successor n)"

lemma listens_V4: "listens n \<noteq> (0, 0) \<Longrightarrow> local_addr (listen_socket n) = Some (V4 (listens n))"
  by (auto simp: listens_def split: option.splits socket_addr.splits)

text \<open>The two passes of a node that passes the request on.\<close>

lemma join_passes:
  assumes "in_ring n" "last_pdu m = Some (NetJoin p)" "state m = Q12" "listens n \<noteq> carried p"
    and "running m" "successor m = successor n" "listen_socket m = listen_socket n" "hash_range m = hash_range n"
  shows "\<exists>s'. run_node bld [t, t] m = Ret (m\<lparr>last_pdu := None, successor := Some s', state := Q6\<rparr>) \<and>
    link_ready s' \<and> outbox s' = to_bytes (NetJoin (collect n p)) \<and> Some (peer_addr s') = map_option peer_addr (successor n)"
proof -
  obtain s where s: "successor n = Some s" "link_ready s" "outbox s = []"
    using assms(1) by (auto simp: in_ring_def ring_node_def)
  have la: "local_addr (listen_socket m) = Some (V4 (listens n))" using assms(1,7) listens_V4 by (simp add: in_ring_def)
  let ?m = "m\<lparr>state := Q14\<rparr>"
  have q12: "q12 m = Ret ?m" using q12_decides [OF assms(2) la] s(1) assms(4,6) by (simp add: carried_def)
  obtain s' where s': "q14 bld ?m = Ret (?m\<lparr>last_pdu := None, successor := Some s', state := Q6\<rparr>)" "link_ready s'"
    "peer_addr s' = peer_addr s" "outbox s' = to_bytes (NetJoin (collect n p))"
    using q14_forwards [of ?m p s "fst (hash_range n)" "snd (hash_range n)" "listens n" bld] la s assms(1,2,6,8)
    by (auto simp: collect_def span_def in_ring_def)
  then show ?thesis using q12 assms(3,5) s(1) by (intro exI [of _ s']) (simp add: node_step_def)
qed

lemma NetJoin_wire: "nj_pdu_type p = NET_JOIN_ID \<Longrightarrow> sendable (NetJoin p)" "norm_pdu (NetJoin p) = NetJoin p"
  by (simp_all add: sendable_def wf_pdu_def NetJoinPdu_to_vec_def BUFFER_SIZE_def)

text \<open>A node that gets the request from its predecessor is about to treat it.\<close>

lemma join_arrives:
  assumes "ring_node n" "nj_pdu_type p = NET_JOIN_ID"
  shows "\<exists>w. hop bld t (to_bytes (NetJoin p)) n = run_node bld [t, t]
      (n\<lparr>predecessor_wrapper := w, last_pdu := Some (NetJoin p), state := Q12\<rparr>) \<and>
    wf_wrapper w \<and> buffered w = [] \<and> incoming_queue w = []"
proof -
  obtain w a where w: "handle_event PREDECESSOR (arrive (to_bytes (NetJoin p)) n) = drain PREDECESSOR (n\<lparr>predecessor_wrapper := w\<rparr>)"
    "wf_wrapper w" "buffered w = []" "incoming_queue w = [(NetJoin p, a)]"
    using arrival_event [OF assms(1) NetJoin_wire(1) [OF assms(2)] NetJoin_wire(2)] by blast
  let ?w = "w\<lparr>incoming_queue := []\<rparr>"
  let ?m = "n\<lparr>predecessor_wrapper := ?w, last_pdu := Some (NetJoin p), state := Q12\<rparr>"
  have "queue_of PREDECESSOR (n\<lparr>predecessor_wrapper := w\<rparr>) = [(NetJoin p, a)]" "queue_of PREDECESSOR ?m = []"
    using w(4) by (simp_all add: queue_of_def wrapper_of_def UDP_def SUCCESSOR_def PREDECESSOR_def)
  then have "drain PREDECESSOR (n\<lparr>predecessor_wrapper := w\<rparr>) = Ret ?m"
    using drain_join [of "n\<lparr>predecessor_wrapper := w\<rparr>" p a "[]"] by (simp add: drain_empty)
  then show ?thesis
    using w by (intro exI [of _ ?w]) (simp add: hop_def wf_wrapper_def buffered_def del: run_node.simps to_bytes.simps)
qed

lemma join_hop:
  assumes "in_ring n" "listens n \<noteq> carried p" "nj_pdu_type p = NET_JOIN_ID"
  shows "\<exists>n'. hop bld t (to_bytes (NetJoin p)) n = Ret n' \<and> put_out n' = to_bytes (NetJoin (collect n p)) \<and> passed_on n n'"
proof -
  have n: "ring_node n" using assms(1) by (simp add: in_ring_def)
  obtain w where w: "hop bld t (to_bytes (NetJoin p)) n = run_node bld [t, t]
      (n\<lparr>predecessor_wrapper := w, last_pdu := Some (NetJoin p), state := Q12\<rparr>)"
    "wf_wrapper w" "buffered w = []" "incoming_queue w = []" using join_arrives [OF n assms(3)] by blast
  let ?m = "n\<lparr>predecessor_wrapper := w, last_pdu := Some (NetJoin p), state := Q12\<rparr>"
  obtain s' where s': "run_node bld [t, t] ?m = Ret (?m\<lparr>last_pdu := None, successor := Some s', state := Q6\<rparr>)"
    "link_ready s'" "outbox s' = to_bytes (NetJoin (collect n p))" "Some (peer_addr s') = map_option peer_addr (successor n)"
    using join_passes [OF assms(1), of ?m p bld t] assms(2) n by (auto simp: ring_node_def simp del: run_node.simps to_bytes.simps)
  let ?n' = "?m\<lparr>last_pdu := None, successor := Some s', state := Q6\<rparr>"
  have "in_ring (delivered ?n')"
    using assms(1) s'(2) w(2-) by (auto simp: in_ring_def ring_node_def delivered_def predecessor_rests_def queue_of_def
        wrapper_of_def UDP_def SUCCESSOR_def PREDECESSOR_def listens_def link_ready_def writable_def)
  then have "passed_on n ?n'" using s'(4) by (simp add: passed_on_def)
  moreover have "put_out ?n' = to_bytes (NetJoin (collect n p))" using s'(3) by (simp add: put_out_def del: to_bytes.simps)
  ultimately show ?thesis using w(1) s'(1) by (intro exI [of _ ?n']) (simp del: run_node.simps to_bytes.simps)
qed

lemma join_enters:
  assumes "in_ring n" "asked t (NetJoin p) n" "listens n \<noteq> carried p" "nj_pdu_type p = NET_JOIN_ID"
  shows "\<exists>n'. enter bld t n = Ret n' \<and> put_out n' = to_bytes (NetJoin (collect n p)) \<and> passed_on n n'"
proof -
  obtain a ds where "arrivals (udp_sock n) = Datagram (to_bytes (NetJoin p)) a # DWouldBlock # ds"
    and n: "udp_idle n" "tick_events t = [UDP]" "\<not> tick_signal t" "\<not> should_close n" "running n" "ring_node n"
    using assms(2) by (auto simp: asked_def ring_node_def)
  then obtain la u w where q6: "udp_ready u" "q6 t n = Ret (n\<lparr>now := now n + tick_elapsed t, last_alive := la,
      udp_sock := u, udp_wrapper := w, last_pdu := Some (NetJoin p), state := Q12, should_close := False\<rparr>)"
    using q6_takes_join [of n t p] NetJoin_wire [of p] assms(4) by (auto simp: sendable_def simp del: to_bytes.simps)
  let ?m = "n\<lparr>now := now n + tick_elapsed t, last_alive := la,
      udp_sock := u, udp_wrapper := w, last_pdu := Some (NetJoin p), state := Q12, should_close := False\<rparr>"
  obtain s' where s': "run_node bld [t, t] ?m = Ret (?m\<lparr>last_pdu := None, successor := Some s', state := Q6\<rparr>)"
    "link_ready s'" "outbox s' = to_bytes (NetJoin (collect n p))" "Some (peer_addr s') = map_option peer_addr (successor n)"
    using join_passes [OF assms(1), of ?m p bld t] assms(3) n(5) by (auto simp del: run_node.simps to_bytes.simps)
  let ?n' = "?m\<lparr>last_pdu := None, successor := Some s', state := Q6\<rparr>"
  have "in_ring (delivered ?n')"
    using assms(1) s'(2) q6(1) by (auto simp: in_ring_def ring_node_def delivered_def predecessor_rests_def queue_of_def
        wrapper_of_def UDP_def SUCCESSOR_def PREDECESSOR_def listens_def link_ready_def writable_def)
  then have "passed_on n ?n'" using s'(4) by (simp add: passed_on_def)
  moreover have "put_out ?n' = to_bytes (NetJoin (collect n p))" using s'(3) by (simp add: put_out_def del: to_bytes.simps)
  ultimately show ?thesis using q6(2) s'(1)
    by (intro exI [of _ ?n']) (simp add: enter_def del: run_node.simps to_bytes.simps)
qed

text \<open>The whole way past nodes whose addresses are not the one carried.\<close>

lemma carried_collect: "carried (collect n p) = (if nj_max_span p < span n then listens n else carried p)"
  by (simp add: carried_def collect_def with_larger_span_def)

lemma collect_type [simp]: "nj_pdu_type (collect n p) = nj_pdu_type p"
  by (simp add: collect_def with_larger_span_def)

lemma join_relay:
  assumes "list_all in_ring ns" "distinct (map listens ns)" "carried p \<notin> listens ` set ns" "nj_pdu_type p = NET_JOIN_ID"
  shows "\<exists>ns'. list_all2 passed_on ns ns' \<and>
    (\<forall>ms. relay bld t (to_bytes (NetJoin p)) (ns @ ms) =
      obind (relay bld t (to_bytes (NetJoin (fold collect ns p))) ms) (\<lambda>ms. Ret (ns' @ ms))) \<and>
    (ns \<noteq> [] \<longrightarrow> put_out (last ns') = to_bytes (NetJoin (fold collect ns p)))"
  using assms
proof (induction ns arbitrary: p)
  case Nil
  have "\<forall>ms. relay bld t (to_bytes (NetJoin p)) ms = obind (relay bld t (to_bytes (NetJoin p)) ms) (\<lambda>ms. Ret ms)"
    by (simp add: obind_Ret_right)
  then show ?case by (intro exI [of _ "[]"]) (simp del: to_bytes.simps)
next
  case (Cons n ns)
  obtain n' where n': "hop bld t (to_bytes (NetJoin p)) n = Ret n'" "put_out n' = to_bytes (NetJoin (collect n p))" "passed_on n n'"
    using join_hop [of n p bld t] Cons.prems by auto
  have "carried (collect n p) \<notin> listens ` set ns" using Cons.prems(2,3) by (auto simp: carried_collect)
  then obtain ns' where ns': "list_all2 passed_on ns ns'"
    "\<And>ms. relay bld t (to_bytes (NetJoin (collect n p))) (ns @ ms) =
      obind (relay bld t (to_bytes (NetJoin (fold collect ns (collect n p)))) ms) (\<lambda>ms. Ret (ns' @ ms))"
    "ns \<noteq> [] \<longrightarrow> put_out (last ns') = to_bytes (NetJoin (fold collect ns (collect n p)))"
    using Cons.IH [of "collect n p"] Cons.prems by auto
  have "relay bld t (to_bytes (NetJoin p)) ((n # ns) @ ms) =
      obind (relay bld t (to_bytes (NetJoin (fold collect (n # ns) p))) ms) (\<lambda>ms. Ret ((n' # ns') @ ms))" for ms
    using n'(1) ns'(2) [of ms] to_bytes_nonempty [of "NetJoin p"]
    by (simp add: n'(2) obind_assoc del: to_bytes.simps)
  moreover have "ns = [] \<longleftrightarrow> ns' = []" using ns'(1) by (auto dest: list_all2_lengthD)
  ultimately show ?case using n' ns' by (intro exI [of _ "n' # ns'"]) (auto simp del: to_bytes.simps)
qed

section \<open>The widest range\<close>

text \<open>The request as it is once it has met the node with the widest range.\<close>

abbreviation found :: "node \<Rightarrow> NetJoinPdu \<Rightarrow> NetJoinPdu" where
  "found w p \<equiv> p\<lparr>nj_max_span := span w, nj_max_address := fst (listens w), nj_max_port := snd (listens w)\<rparr>"

lemma fold_collect_type [simp]: "nj_pdu_type (fold collect ns p) = nj_pdu_type p"
  by (induction ns arbitrary: p) simp_all

lemma fold_collect_same: "\<forall>b \<in> set bs. span b \<le> nj_max_span q \<Longrightarrow> fold collect bs q = q"
  by (induction bs) (auto simp: collect_def with_larger_span_def)

lemma fold_collect_less:
  "\<forall>a \<in> set as. span a < x \<Longrightarrow> nj_max_span p < x \<Longrightarrow> nj_max_span (fold collect as p) < x"
  by (induction as arbitrary: p) (auto simp: collect_def with_larger_span_def)

lemma fold_collect_found: "found w (fold collect as p) = found w p"
  by (induction as arbitrary: p) (auto simp: collect_def with_larger_span_def)

lemma fold_collect_widest:
  assumes "\<forall>a \<in> set as. span a < span w" "\<forall>b \<in> set bs. span b \<le> span w" "nj_max_span p < span w"
  shows "fold collect (as @ w # bs) p = found w p"
proof -
  have "collect w (fold collect as p) = found w p"
    using fold_collect_less [OF assms(1,3)] fold_collect_found [of w as p] by (simp add: collect_def with_larger_span_def)
  then show ?thesis using assms(2) by (simp add: fold_collect_same)
qed

lemma delivered_facts [simp]: "listens (delivered n) = listens n" "span (delivered n) = span n" "hash_range (delivered n) = hash_range n"
  "stored (delivered n) = stored n" "listen_socket (delivered n) = listen_socket n" "connects (delivered n) = connects n"
  "syscalls (delivered n) = syscalls n" "map_option peer_addr (successor (delivered n)) = map_option peer_addr (successor n)"
  by (simp_all add: delivered_def listens_def span_def option.map_comp comp_def)

lemma passed_on_facts: "passed_on n n' \<Longrightarrow> listens n' = listens n \<and> span n' = span n"
  by (simp add: passed_on_def listens_def span_def)

lemma passed_on_again: "passed_on n n' \<Longrightarrow> passed_on (delivered n') n'' \<Longrightarrow> passed_on n n''"
  by (simp add: passed_on_def)

lemma list_passed_on:
  assumes "list_all2 passed_on ns ns'"
  shows "list_all in_ring (map delivered ns')" "map listens (map delivered ns') = map listens ns" "map span (map delivered ns') = map span ns"
    and "list_all2 passed_on (map delivered ns') ns'' \<Longrightarrow> list_all2 passed_on ns ns''"
proof -
  show "list_all in_ring (map delivered ns')" "map listens (map delivered ns') = map listens ns" "map span (map delivered ns') = map span ns"
    using assms by (induction rule: list_all2_induct) (simp_all add: passed_on_facts passed_on_def)
  show "list_all2 passed_on ns ns''" if "list_all2 passed_on (map delivered ns') ns''"
    using list_all2_trans [of passed_on "\<lambda>x. passed_on (delivered x)" passed_on, OF passed_on_again assms] that
    by (simp add: list_all2_map1)
qed

text \<open>The node whose address the request carries lets the new node in.\<close>

lemma join_settles:
  assumes "in_ring w" "listens w = carried q" "nj_pdu_type q = NET_JOIN_ID"
    and "successor w = Some s" "peer_addr s = Some (V4 old)" "offers c cs w" "outbox c = []" "hash_range w = (lo, hi)" "lo < hi"
  shows "\<exists>w' c'. hop bld t (to_bytes (NetJoin q)) w = Ret w' \<and> state w' = Q6 \<and> hash_range w' = (lo, split_point lo hi) \<and>
    stored w' = kept (split_point lo hi + 1) hi (stored w) \<and> successor w' = Some c' \<and>
    peer_addr c' = Some (get_src_socket_addr q) \<and>
    outbox c' = join_bytes old (split_point lo hi + 1) hi (moved (split_point lo hi + 1) hi (stored w))"
proof -
  have n: "ring_node w" and s: "link_ready s" "running w"
    using assms(1,4) by (auto simp: in_ring_def ring_node_def)
  obtain pw where pw: "hop bld t (to_bytes (NetJoin q)) w = run_node bld [t, t]
      (w\<lparr>predecessor_wrapper := pw, last_pdu := Some (NetJoin q), state := Q12\<rparr>)"
    using join_arrives [OF n assms(3)] by blast
  let ?m = "w\<lparr>predecessor_wrapper := pw, last_pdu := Some (NetJoin q), state := Q12\<rparr>"
  let ?m' = "?m\<lparr>state := Q13\<rparr>"
  have la: "local_addr (listen_socket ?m) = Some (V4 (listens w))" using assms(1) listens_V4 by (simp add: in_ring_def)
  have q12: "q12 ?m = Ret ?m'" using q12_decides [OF _ la, of q] assms(2,4) by (simp add: carried_def)
  have "offers c cs ?m'" using assms(6) by (simp add: offers_def)
  from q13_joins [OF _ _ s(1) assms(5) this, of q lo hi bld] obtain n' c' where n': "q13 bld ?m' = Ret n'" "state n' = Q6"
    "hash_range n' = (lo, split_point lo hi)" "stored n' = kept (split_point lo hi + 1) hi (stored w)"
    "successor n' = Some c'" "peer_addr c' = Some (get_src_socket_addr q)"
    "outbox c' = join_bytes old (split_point lo hi + 1) hi (moved (split_point lo hi + 1) hi (stored w))"
    using assms(4,7,8,9) by auto
  have "run_node bld [t, t] ?m = Ret n'" using q12 n'(1) s(2) by (simp add: node_step_def)
  then show ?thesis using pw n' by (intro exI [of _ n'] exI [of _ c']) (simp del: run_node.simps to_bytes.simps)
qed

text \<open>The first round collects, the second one ends at the node found.\<close>

lemma join_first_round:
  assumes "list_all in_ring (n # ns)" "distinct (map listens (n # ns))" "asked t (NetJoin p) n"
    and "nj_pdu_type p = NET_JOIN_ID" "carried p = (0, 0)"
  shows "\<exists>n' ns'. tour bld t n ns = Ret (n', ns') \<and> list_all2 passed_on (n # ns) (n' # ns') \<and>
    put_out (last (n' # ns')) = to_bytes (NetJoin (fold collect (n # ns) p))"
proof -
  have no: "\<forall>m \<in> set (n # ns). listens m \<noteq> (0, 0)" using assms(1) by (auto simp: list_all_iff in_ring_def)
  obtain n' where n': "enter bld t n = Ret n'" "put_out n' = to_bytes (NetJoin (collect n p))" "passed_on n n'"
    using join_enters [of n t p bld] assms(1,3-5) no by auto
  have "carried (collect n p) \<notin> listens ` set ns"
    using assms(2,5) no by (auto simp: carried_collect image_iff)
  then obtain ns' where ns': "list_all2 passed_on ns ns'" "relay bld t (to_bytes (NetJoin (collect n p))) ns = Ret ns'"
    "ns \<noteq> [] \<longrightarrow> put_out (last ns') = to_bytes (NetJoin (fold collect ns (collect n p)))"
    using join_relay [of ns "collect n p" bld t] assms(1,2,4) by (auto simp del: to_bytes.simps dest: spec [of _ "[]"])
  have "tour bld t n ns = Ret (n', ns')" using n'(1,2) ns'(2) by (simp add: tour_def del: to_bytes.simps)
  moreover have "ns = [] \<longleftrightarrow> ns' = []" using ns'(1) by (auto dest: list_all2_lengthD)
  ultimately show ?thesis using n' ns' by (intro exI [of _ n'] exI [of _ ns']) (auto simp del: to_bytes.simps)
qed

lemma join_second_round:
  assumes "list_all2 passed_on as as'" "passed_on w w'" "distinct (map listens as)" "listens w \<notin> listens ` set as"
    and "\<forall>a \<in> set as. span a \<le> nj_max_span q" "carried q = listens w" "nj_pdu_type q = NET_JOIN_ID"
    and "successor w = Some s" "peer_addr s = Some (V4 old)" "offers c cs w" "outbox c = []" "hash_range w = (lo, hi)" "lo < hi"
  shows "\<exists>as'' w'' c'. relay bld t (to_bytes (NetJoin q)) (map delivered as' @ [delivered w']) = Ret (as'' @ [w'']) \<and>
    list_all2 passed_on as as'' \<and> state w'' = Q6 \<and> hash_range w'' = (lo, split_point lo hi) \<and>
    stored w'' = kept (split_point lo hi + 1) hi (stored w) \<and> successor w'' = Some c' \<and>
    peer_addr c' = Some (get_src_socket_addr q) \<and>
    outbox c' = join_bytes old (split_point lo hi + 1) hi (moved (split_point lo hi + 1) hi (stored w))"
proof -
  let ?as = "map delivered as'"
  note as' = list_passed_on [OF assms(1)]
  have "distinct (map listens ?as)" "carried q \<notin> listens ` set ?as"
    unfolding set_map [symmetric] as'(2) assms(6) using assms(3,4) by auto
  moreover have "fold collect ?as q = q"
  proof (rule fold_collect_same)
    have "set (map span ?as) = set (map span as)" by (simp only: as'(3))
    then show "\<forall>b \<in> set ?as. span b \<le> nj_max_span q" using assms(5) by force
  qed
  ultimately obtain as'' where as'': "list_all2 passed_on ?as as''"
    "\<And>ms. relay bld t (to_bytes (NetJoin q)) (?as @ ms) = obind (relay bld t (to_bytes (NetJoin q)) ms) (\<lambda>ms. Ret (as'' @ ms))"
    using join_relay [OF as'(1), of q bld t] assms(7) by (auto simp del: to_bytes.simps)
  have w': "in_ring (delivered w')" "hash_range w' = (lo, hi)" "offers c cs (delivered w')" "stored w' = stored w" "listens w' = listens w"
    using assms(2,10,12) passed_on_facts by (auto simp: passed_on_def offers_def)
  obtain s' where "successor (delivered w') = Some s'" "peer_addr s' = Some (V4 old)"
    using assms(2,8,9) by (auto simp: passed_on_def delivered_def)
  then obtain w'' c' where w'': "hop bld t (to_bytes (NetJoin q)) (delivered w') = Ret w''" "state w'' = Q6"
    "hash_range w'' = (lo, split_point lo hi)" "stored w'' = kept (split_point lo hi + 1) hi (stored w)"
    "successor w'' = Some c'" "peer_addr c' = Some (get_src_socket_addr q)"
    "outbox c' = join_bytes old (split_point lo hi + 1) hi (moved (split_point lo hi + 1) hi (stored w))"
    using join_settles [OF w'(1) _ assms(7) _ _ w'(3) assms(11) _ assms(13), of s' old bld t] w'(2,4,5) assms(6) by auto
  then have "relay bld t (to_bytes (NetJoin q)) [delivered w'] = Ret [w'']" by (simp del: to_bytes.simps)
  then have "relay bld t (to_bytes (NetJoin q)) (?as @ [delivered w']) = Ret (as'' @ [w''])" by (simp add: as''(2) del: to_bytes.simps)
  with w'' as'(4) [OF as''(1)] show ?thesis by blast
qed

end
