(* ===== verification/Ring_Ranges.thy ===== *)
theory Ring_Ranges
  imports Node_Protocol
begin

text \<open>
  How the ranges of a ring come about: an abstract specification that halves and merges ranges,
  the ring as the program makes it, by passes of its nodes, and that the second implements the
  first.
\<close>

section \<open>The specification\<close>

text \<open>The ranges in the order of the ring: first one has all, joining halves one, leaving merges two.\<close>

inductive shares :: "(u8 \<times> u8) list \<Rightarrow> bool" where
  shares_whole: "shares [(0, 255)]"
| shares_halve: "shares (rs @ (lo, hi) # rs') \<Longrightarrow> lo < hi \<Longrightarrow>
    shares (rs @ (lo, split_point lo hi) # (split_point lo hi + 1, hi) # rs')"
| shares_merge: "shares (rs @ (lo, m) # (m', hi) # rs') \<Longrightarrow> shares (rs @ (lo, hi) # rs')"

text \<open>Ranges that lie one after the other and fill the numbers from \<open>a\<close> up to below \<open>b\<close>.\<close>

fun tiles :: "nat \<Rightarrow> (u8 \<times> u8) list \<Rightarrow> nat \<Rightarrow> bool" where
  "tiles a [] b \<longleftrightarrow> a = b"
| "tiles a ((lo, hi) # rs) b \<longleftrightarrow> unat lo = a \<and> lo \<le> hi \<and> tiles (unat hi + 1) rs b"

lemma tiles_append: "tiles a (rs @ rs') b \<longleftrightarrow> (\<exists>c. tiles a rs c \<and> tiles c rs' b)"
  by (induction a rs b rule: tiles.induct) auto

lemma tiles_length: "tiles a rs b \<Longrightarrow> a + length rs \<le> b"
  by (induction a rs b rule: tiles.induct) (auto simp: word_le_nat_alt)

lemma tiles_below: "tiles a rs b \<Longrightarrow> i < length rs \<Longrightarrow> h \<in> range_set (rs ! i) \<Longrightarrow> a \<le> unat h"
proof (induction a rs b arbitrary: i rule: tiles.induct)
  case (2 a lo hi rs b)
  show ?case
  proof (cases i)
    case 0
    then show ?thesis using 2(2,4) by (simp add: range_set_def word_le_nat_alt)
  next
    case (Suc j)
    then have "unat hi + 1 \<le> unat h" using 2 by simp
    then show ?thesis using 2(2) by (simp add: word_le_nat_alt)
  qed
qed simp

lemma ex1_Suc: "\<not> P 0 \<Longrightarrow> \<exists>!i. P (Suc i) \<Longrightarrow> \<exists>!i. P i"
  by (metis not0_implies_Suc)

lemma tiles_unique:
  "tiles a rs b \<Longrightarrow> a \<le> unat h \<Longrightarrow> unat h < b \<Longrightarrow> \<exists>!i. i < length rs \<and> h \<in> range_set (rs ! i)"
proof (induction a rs b rule: tiles.induct)
  case (2 a lo hi rs b)
  show ?case
  proof (cases "unat h \<le> unat hi")
    case True
    then have "h \<in> range_set (lo, hi)" using 2(2,3) by (simp add: range_set_def word_le_nat_alt)
    moreover have "i = 0" if "i < length ((lo, hi) # rs)" "h \<in> range_set (((lo, hi) # rs) ! i)" for i
      using tiles_below [of "unat hi + 1" rs b "i - 1" h] 2(2) True that by (cases i) auto
    ultimately show ?thesis by (intro ex1I [of _ 0]) simp_all
  next
    case False
    then have "\<exists>!i. i < length rs \<and> h \<in> range_set (rs ! i)" using 2 by simp
    moreover have "h \<notin> range_set (lo, hi)" using False by (simp add: range_set_def word_le_nat_alt)
    ultimately show ?thesis by (intro ex1_Suc [where P = "\<lambda>i. i < length ((lo, hi) # rs) \<and> h \<in> range_set (((lo, hi) # rs) ! i)"]) simp_all
  qed
qed simp

lemma tiles_shares: "shares rs \<Longrightarrow> tiles 0 rs 256"
proof (induction rule: shares.induct)
  case shares_whole
  then show ?case by (simp add: word_le_nat_alt)
next
  case (shares_halve rs lo hi rs')
  have m: "lo \<le> split_point lo hi" "split_point lo hi < hi" using split_point_bounds [of lo hi] shares_halve(2) by auto
  then have "split_point lo hi \<noteq> 255" using u8_top [of "split_point lo hi"] unat_u8_less [of hi] by (auto simp: word_less_nat_alt)
  then have "unat (split_point lo hi + 1) = unat (split_point lo hi) + 1" by (rule unat_Suc_u8)
  then show ?case using shares_halve(3) m by (auto simp: tiles_append word_le_nat_alt word_less_nat_alt)
next
  case (shares_merge rs lo m m' hi rs')
  then show ?case by (auto simp: tiles_append word_le_nat_alt)
qed

lemma shares_partition:
  assumes "shares rs"
  shows "\<exists>!i. i < length rs \<and> h \<in> range_set (rs ! i)" "1 \<le> length rs" "length rs \<le> 256"
proof -
  note t = tiles_shares [OF assms]
  show "\<exists>!i. i < length rs \<and> h \<in> range_set (rs ! i)" using tiles_unique [OF t] unat_u8_less [of h] by simp
  show "length rs \<le> 256" using tiles_length [OF t] by simp
  show "1 \<le> length rs" using t by (cases rs) auto
qed

lemma shares_adjacent:
  assumes "shares (rs @ (lo, m) # (m', hi) # rs')"
  shows "adjacent (lo, m) (m', hi)"
proof -
  have t: "unat m' = unat m + 1" "lo \<le> m" "m' \<le> hi" using tiles_shares [OF assms] by (auto simp: tiles_append)
  then have "m \<noteq> 255" using unat_u8_less [of m'] by (auto simp: u8_top)
  then have "m' = m + 1" using unat_Suc_u8 t(1) by (simp add: word_unat_eq_iff)
  then show ?thesis using t by (simp add: adjacent_def word_less_nat_alt)
qed

lemma shares_first:
  assumes "shares ((lo, hi) # rs)"
  shows "lo = 0"
  using tiles_shares [OF assms] by (simp add: unat_eq_0)

section \<open>What the passes do to a range\<close>

text \<open>The states a node of the ring passes through without giving or taking hashes.\<close>

definition steady :: "node_state set" where
  "steady = {Q6, Q10, Q12, Q14, Q16, Q17}"

abbreviation same_range :: "node \<Rightarrow> node \<Rightarrow> bool" where
  "same_range n m \<equiv> hash_range m = hash_range n"

lemma keeps_range:
  assumes "node_inv n"
  shows "state n = Q10 \<Longrightarrow> safe {} (same_range n) (q10 n)" "state n = Q12 \<Longrightarrow> safe {} (same_range n) (q12 n)"
    "state n = Q16 \<Longrightarrow> safe {} (same_range n) (q16 n)"
  using assms unfolding q10_def q12_def q16_def Let_def take_last_pdu_def
  by (auto intro!: safe_obind safe_intro simp: inv_defs get_new_addr_def assign_successor_def assign_predecessor_def
      split: option.splits PDU.splits)

lemma q14_range: "node_inv n \<Longrightarrow> state n = Q14 \<Longrightarrow> safe {} (same_range n) (q14 bld n)"
  unfolding q14_def Let_def take_last_pdu_def
  by (cases "hash_range n")
    (auto intro!: safe_obind safe_intro simp: inv_defs split: option.splits PDU.splits)

lemma q17_range: "node_inv n \<Longrightarrow> state n = Q17 \<Longrightarrow> safe {} (same_range n) (q17 n)"
  unfolding q17_def Let_def
  by (cases "hash_range n")
    (auto intro!: safe_obind safe_intro simp: inv_defs split: option.splits)

lemma handle_pdu_range: "safe {} (same_range n) (handle_pdu p src n)"
proof (rule safeI)
  fix n' assume n: "handle_pdu p src n = Ret n'"
  obtain a b c d e where "n' = n\<lparr>state := a, last_pdu := b, stored := c, successor := d, udp_sock := e\<rparr>"
    using handle_pdu_step [OF n] unfolding handle_step_def val_step_def by blast
  then show "same_range n n'" by simp
qed simp

lemma q6_range: "safe {} (same_range n) (q6 t n)"
proof (rule safe_mono [OF q6_invariant [where P = "same_range n"]])
  show "same_core k m \<Longrightarrow> same_range n k \<Longrightarrow> same_range n m" for k m by (simp add: same_core_def)
  show "safe {} (same_range n) (handle_pdu p src k)" if "same_range n k" for k p src
    using handle_pdu_range [of k p src] that by simp
qed auto

lemma steady_range:
  assumes "node_inv n" "node_step bld t n = Ret n'" "state n \<in> steady"
  shows "hash_range n' = hash_range n"
  using assms(2,3) keeps_range [OF assms(1)] q14_range [OF assms(1)] q17_range [OF assms(1)] q6_range [of n t]
  by (auto simp: steady_def node_step_def safe_def)

text \<open>
  What the program has put first on the stream to the successor, as that one's parser reads it.
  A stream that \<open>connect\<close> returns has nothing on it yet.
\<close>

definition hands_out :: "node \<Rightarrow> NetJoinResponsePdu \<Rightarrow> bool" where
  "hands_out n r \<longleftrightarrow> (\<exists>c k. successor n = Some c \<and> parse_pdu (outbox c) = Ret (Some (NetJoinResponse r, k)))"

definition fresh_connects :: "node \<Rightarrow> bool" where
  "fresh_connects n \<longleftrightarrow> (\<forall>c. Some c \<in> set (connects n) \<longrightarrow> outbox c = [])"

lemma safe_send_bytes:
  "(\<And>ws. Q (s\<lparr>writes := ws, outbox := outbox s @ to_bytes p\<rparr>)) \<Longrightarrow> safe {} Q (TcpWrapper_send w s p)"
  using TcpWrapper_send_facts [of w s p] by (intro safeI) (metis (no_types), simp)

lemma safe_connect_fresh:
  assumes "fresh_connects n" "\<And>c cs ss. outbox c = [] \<Longrightarrow> Q (c, n\<lparr>connects := cs, successor_listen := Some addr, syscalls := ss\<rparr>)"
  shows "safe {} Q (connect_to_successor addr n)"
proof (cases "connects n")
  case (Cons y cs)
  show ?thesis
  proof (cases y)
    case (Some s)
    let ?n = "n\<lparr>connects := cs, successor_listen := Some addr\<rparr>"
    have "Some s \<in> set (connects n)" unfolding Cons Some by simp
    then have "outbox s = []" using assms(1) unfolding fresh_connects_def by blast
    then have fresh: "outbox (s\<lparr>peer_addr := Some addr\<rparr>) = []" by simp
    have "safe {} Q (obind (sys_unwrap ?n) (\<lambda>n. Ret (s\<lparr>peer_addr := Some addr\<rparr>, n)))"
      by (rule safe_obind, rule safe_sys_unwrap) (use assms(2) [OF fresh] in simp_all)
    then show ?thesis unfolding connect_to_successor_def Cons Some list.case option.case Let_def
      by (rule safe_any)
  qed (use Cons in \<open>simp add: connect_to_successor_def\<close>)
qed (simp add: connect_to_successor_def)

lemma transfer_loop_frame:
  "transfer_loop w s es = Ret s' \<Longrightarrow> \<exists>ws. s' = s\<lparr>writes := ws, outbox := outbox s @ concat (map (to_bytes \<circ> insert_of) es)\<rparr>"
proof (induction es arbitrary: s)
  case (Cons e es)
  obtain s1 where s1: "TcpWrapper_send w s (insert_of e) = Ret s1" "transfer_loop w s1 es = Ret s'"
    using Cons.prems by (auto simp: Let_def insert_of_def obind_eq_Ret)
  obtain ws where "s1 = s\<lparr>writes := ws, outbox := outbox s @ to_bytes (insert_of e)\<rparr>"
    using TcpWrapper_send_facts [OF s1(1)] by blast
  then show ?case using Cons.IH [OF s1(2)] by auto
next
  case Nil
  then show ?case by (intro exI [of _ "writes s"]) simp
qed

lemma safe_transfer_gives:
  assumes "successor n \<noteq> None"
    and "\<And>s ws bs. successor n = Some s \<Longrightarrow> Q (n\<lparr>successor := Some (s\<lparr>writes := ws, outbox := outbox s @ bs\<rparr>), stored := kept lo hi (stored n)\<rparr>)"
  shows "safe {} Q (transfer True lo hi n)"
proof (rule safeI)
  fix m assume "transfer True lo hi n = Ret m"
  then obtain s s' where "successor n = Some s" "transfer_loop (successor_wrapper n) s (moved lo hi (stored n)) = Ret s'"
    "m = n\<lparr>successor := Some s', stored := kept lo hi (stored n)\<rparr>"
    using assms(1) by (auto simp: transfer_def transfer_filters obind_eq_Ret Let_def)
  then show "Q m" using transfer_loop_frame assms(2) by blast
qed simp

text \<open>What a node that lets another one in has done when the pass returns.\<close>

definition response_first :: "u8 \<Rightarrow> u8 \<Rightarrow> u8 list \<Rightarrow> bool" where
  "response_first lo hi bs \<longleftrightarrow> (\<exists>a p cs. bs = to_bytes (NetJoinResponse (NetJoinResponsePdu_new a p lo hi)) @ cs)"

lemma response_firstI [simp]: "response_first lo hi (NetJoinResponsePdu_to_vec (NetJoinResponsePdu_new a p lo hi) @ cs)"
  unfolding response_first_def to_bytes.simps by blast

definition halved :: "u8 \<times> u8 \<Rightarrow> node \<Rightarrow> bool" where
  "halved r n \<longleftrightarrow> hash_range n = (fst r, split_point (fst r) (snd r)) \<and>
     (\<exists>c. successor n = Some c \<and> response_first (split_point (fst r) (snd r) + 1) (snd r) (outbox c))"

lemma halved_hands_out:
  assumes "halved (lo, hi) n" "hands_out n r"
  shows "hash_range n = (lo, split_point lo hi) \<and> (njr_range_start r, njr_range_end r) = (split_point lo hi + 1, hi)"
proof -
  obtain c a p bs where c: "successor n = Some c"
    "outbox c = to_bytes (NetJoinResponse (NetJoinResponsePdu_new a p (split_point lo hi + 1) hi)) @ bs"
    using assms(1) by (auto simp: halved_def response_first_def simp del: to_bytes.simps)
  let ?r = "NetJoinResponsePdu_new a p (split_point lo hi + 1) hi"
  have "wf_pdu (NetJoinResponse ?r)" by (simp add: wf_pdu_def NetJoinResponsePdu_new_def)
  from wire.dec_enc_append [OF this, of bs] have "r = ?r"
    using assms(2) c by (auto simp: hands_out_def simp del: to_bytes.simps)
  then show ?thesis using assms(1) by (simp add: halved_def NetJoinResponsePdu_new_def)
qed

lemma q13_halves:
  assumes "node_inv n" "state n = Q13" "fresh_connects n"
  shows "safe {} (halved (hash_range n)) (q13 bld n)"
proof -
  obtain lo hi where r: "hash_range n = (lo, hi)" by fastforce
  show ?thesis
    using assms unfolding q13_def Let_def take_last_pdu_def r
    by (auto intro!: safe_obind safe_split_range_exact [where lo = lo and hi = hi]
        safe_transfer_gives safe_unwrap safe_send_bytes safe_shutdown_stream safe_connect_fresh
        simp: r inv_defs fresh_connects_def get_src_socket_addr_def assign_successor_def halved_def
          get_successor_addr_def peer_addr_v4_def unwrap_io_def
        split: option.splits PDU.splits)
qed

lemma q5_halves:
  assumes "node_inv n" "state n = Q5" "fresh_connects n"
  shows "safe {} (halved (hash_range n)) (q5 bld n)"
proof -
  obtain lo hi where r: "hash_range n = (lo, hi)" by fastforce
  show ?thesis
    using assms unfolding q5_def Let_def take_last_pdu_def r
    by (auto intro!: safe_obind safe_split_range_exact [where lo = lo and hi = hi]
        safe_transfer_gives safe_get_listen_addr safe_unwrap safe_send_bytes
        safe_connect_fresh safe_accept_predecessor
        simp: r inv_defs fresh_connects_def get_src_socket_addr_def assign_successor_def halved_def
        split: option.splits PDU.splits)
qed

lemma q15_range:
  assumes "last_pdu n = Some (NetNewRange p)"
  shows "safe {} (\<lambda>m. hash_range m = taken_over (hash_range n) p) (q15 bld n)"
proof -
  obtain lo hi where r: "hash_range n = (lo, hi)" by fastforce
  show ?thesis
    unfolding q15_def Let_def take_last_pdu_def assms r
    by (auto intro!: safe_obind safe_unwrap_any safe_TcpWrapper_send simp: r taken_over_def add_u8_def
        split: if_splits)
qed

section \<open>The ring\<close>

text \<open>
  The nodes of a ring in the order of their ranges, and how passes of the program change it.  A
  node becomes its first in \<open>q4\<close>.  A new node \<open>b\<close> enters it when a member lets it in and it takes, in
  \<open>q8\<close>, the range of the response that member has sent.  A member \<open>l\<close> that has asked to leave (\<open>q11\<close>)
  is out of it when its neighbour has handled its \<open>NET_NEW_RANGE\<close> in \<open>q15\<close>: the successor if \<open>l\<close> has
  the lowest range, the predecessor if not.
\<close>

inductive ring :: "build \<Rightarrow> node list \<Rightarrow> bool" for bld where
  ring_first: "orderly bld n \<Longrightarrow> running n \<Longrightarrow> state n = Q4 \<Longrightarrow> known_tokens t \<Longrightarrow> node_step bld t n = Ret n' \<Longrightarrow>
    ring bld [n']"
| ring_pass: "ring bld (as @ n # bs) \<Longrightarrow> running n \<Longrightarrow> state n \<in> steady \<Longrightarrow> known_tokens t \<Longrightarrow>
    node_step bld t n = Ret n' \<Longrightarrow> ring bld (as @ n' # bs)"
| ring_join: "ring bld (as @ n # bs) \<Longrightarrow> running n \<Longrightarrow> state n \<in> {Q5, Q13} \<Longrightarrow> fresh_connects n \<Longrightarrow>
    fst (hash_range n) < snd (hash_range n) \<Longrightarrow> known_tokens t \<Longrightarrow> node_step bld t n = Ret n' \<Longrightarrow> hands_out n' r \<Longrightarrow>
    orderly bld b \<Longrightarrow> running b \<Longrightarrow> state b = Q8 \<Longrightarrow> known_tokens t' \<Longrightarrow> node_step bld t' b = Ret b' \<Longrightarrow>
    hash_range b' = (njr_range_start r, njr_range_end r) \<Longrightarrow> ring bld (as @ n' # b' # bs)"
| ring_leave: "ring bld (as @ n # l # bs) \<Longrightarrow> state l = Q11 \<Longrightarrow> running n \<Longrightarrow> state n = Q15 \<Longrightarrow>
    last_pdu n = Some (NetNewRange p) \<Longrightarrow> (nnr_range_start p, nnr_range_end p) = hash_range l \<Longrightarrow> known_tokens t \<Longrightarrow>
    node_step bld t n = Ret n' \<Longrightarrow> ring bld (as @ n' # bs)"
| ring_leave_first: "ring bld (l # n # bs) \<Longrightarrow> state l = Q11 \<Longrightarrow> running n \<Longrightarrow> state n = Q15 \<Longrightarrow>
    last_pdu n = Some (NetNewRange p) \<Longrightarrow> (nnr_range_start p, nnr_range_end p) = hash_range l \<Longrightarrow> known_tokens t \<Longrightarrow>
    node_step bld t n = Ret n' \<Longrightarrow> ring bld (n' # bs)"

lemma q4_range: "node_step bld t n = Ret n' \<Longrightarrow> state n = Q4 \<Longrightarrow> hash_range n' = (0, 255)"
  by (auto simp: node_step_def q4_def)

lemma halves_step:
  assumes "node_inv n" "state n \<in> {Q5, Q13}" "fresh_connects n" "node_step bld t n = Ret n'" "hands_out n' r" "hash_range n = (lo, hi)"
  shows "hash_range n' = (lo, split_point lo hi) \<and> (njr_range_start r, njr_range_end r) = (split_point lo hi + 1, hi)"
proof -
  have "halved (lo, hi) n'"
    using assms q5_halves [OF assms(1) _ assms(3), of bld] q13_halves [OF assms(1) _ assms(3), of bld]
    by (auto simp: node_step_def safe_def)
  then show ?thesis using assms(5) by (rule halved_hands_out)
qed

text \<open>A range that is taken over lies next to that of the node that takes it, so the node stays orderly.\<close>

lemma takeover_step:
  assumes "state n = Q15" "last_pdu n = Some (NetNewRange p)" "node_step bld t n = Ret n'" "hash_range n = (lo, hi)" "lo \<le> hi"
    and "adjacent (lo, hi) (nnr_range_start p, nnr_range_end p) \<or> adjacent (nnr_range_start p, nnr_range_end p) (lo, hi)"
  shows "hash_range n' = (if hi < nnr_range_start p then (lo, nnr_range_end p) else (nnr_range_start p, hi)) \<and> extends_range n"
proof -
  have "hash_range n' = taken_over (lo, hi) p"
    using safe_RetD [OF q15_range [OF assms(2)], of bld n'] assms(1,3,4) by (simp add: node_step_def)
  moreover have "hi < nnr_range_start p \<Longrightarrow> hi \<le> nnr_range_end p" "\<not> hi < nnr_range_start p \<Longrightarrow> nnr_range_start p \<le> lo"
    using assms(6) by (auto simp: adjacent_def)
  then have "extends_range n"
    using takeover_side(1) [OF assms(5,6)] assms(2,4) by (simp add: extends_range_def from_successor_def)
  ultimately show ?thesis using takeover_side(2) [OF assms(5,6)] by simp
qed

lemma ring_inv:
  assumes "ring bld ns"
  shows "shares (map hash_range ns) \<and> list_all (orderly bld) ns"
  using assms
proof (induction rule: ring.induct)
  case (ring_first n t n')
  have "orderly bld n'" using orderly_step [of bld n t n'] ring_first by simp
  then show ?case using q4_range [of bld t n n'] ring_first shares_whole by simp
next
  case (ring_pass as n bs t n')
  then have "orderly bld n" by simp
  moreover have "state n \<noteq> Q15" using ring_pass(3) by (auto simp: steady_def)
  ultimately have "orderly bld n'" "hash_range n' = hash_range n"
    using orderly_step [of bld n t n'] steady_range [OF reachable_inv [OF orderly_reachable]] ring_pass by auto
  then show ?case using ring_pass by simp
next
  case (ring_join as n bs t n' r b t' b')
  obtain lo hi where r: "hash_range n = (lo, hi)" by fastforce
  have o: "orderly bld n" "state n \<noteq> Q15" "state b \<noteq> Q15" using ring_join by auto
  have "orderly bld n'" "orderly bld b'"
    using orderly_step [OF o(1), of t n'] orderly_step [of bld b t' b'] o(2,3) ring_join by auto
  moreover have "hash_range n' = (lo, split_point lo hi)" "hash_range b' = (split_point lo hi + 1, hi)"
    using halves_step [OF reachable_inv [OF orderly_reachable [OF o(1)]] _ _ _ _ r] ring_join by auto
  ultimately show ?case using shares_halve [of "map hash_range as" lo hi "map hash_range bs"] ring_join r by simp
next
  case (ring_leave as n l bs p t n')
  obtain lo hi where r: "hash_range n = (lo, hi)" by fastforce
  have s: "shares (map hash_range as @ (lo, hi) # (nnr_range_start p, nnr_range_end p) # map hash_range bs)"
    using ring_leave r by (simp flip: ring_leave(6))
  note adj = shares_adjacent [OF s]
  then have le: "lo \<le> hi" "hi < nnr_range_start p" unfolding adjacent_def fst_conv snd_conv by blast+
  then have n': "hash_range n' = (lo, nnr_range_end p)" "extends_range n"
    using takeover_step [OF ring_leave.hyps(4,5,8) r le(1) disjI1 [OF adj]] by simp_all
  have "orderly bld n'" using orderly_step [of bld n t n'] n'(2) ring_leave by simp
  with shares_merge [OF s] n'(1) ring_leave show ?case by simp
next
  case (ring_leave_first l n bs p t n')
  obtain lo hi where r: "hash_range n = (lo, hi)" by fastforce
  have s: "shares ([] @ (nnr_range_start p, nnr_range_end p) # (lo, hi) # map hash_range bs)"
    using ring_leave_first r by (simp flip: ring_leave_first(6))
  note adj = shares_adjacent [OF s]
  then have le: "lo \<le> hi" "nnr_range_start p \<le> nnr_range_end p" "nnr_range_end p < lo"
    unfolding adjacent_def fst_conv snd_conv by blast+
  then have "\<not> hi < nnr_range_start p" by (meson leD le_less_trans less_imp_le order_trans)
  then have n': "hash_range n' = (nnr_range_start p, hi)" "extends_range n"
    using takeover_step [OF ring_leave_first.hyps(4,5,8) r le(1) disjI2 [OF adj]] by simp_all
  have "orderly bld n'" using orderly_step [of bld n t n'] n'(2) ring_leave_first by simp
  with shares_merge [OF s] n'(1) ring_leave_first show ?case by simp
qed

end
