(* ===== verification/Wire_Properties.thy ===== *)
theory Wire_Properties
  imports Udp_Facts Entry_Store
begin

text \<open>
  The properties of the wire format and of the two wrappers, each with a concrete instance.
\<close>

section \<open>The wire format\<close>

text \<open>C11: Serialising a well-formed PDU and parsing the bytes, whatever follows them, gives the
  PDU back and uses exactly its bytes; only the type byte of a lookup response changes.\<close>

theorem pdu_roundtrip:
  "wf_pdu p \<Longrightarrow> parse_pdu (to_bytes p @ rest) = Ret (Some (norm_pdu p, length (to_bytes p)))"
  by (rule wire.dec_enc_append)

definition demo_ssn :: rstring where
  "demo_ssn = [49, 49, 49, 49, 49, 49, 49, 49, 49, 49, 49, 49]"

definition demo_insert :: PDU where
  "demo_insert = ValInsert (ValInsertPdu_new demo_ssn [65, 100, 97] [97, 64, 98])"

definition demo_lookup :: PDU where
  "demo_lookup = ValLookup (ValLookupPdu_new demo_ssn 0x7F000001 4711)"

lemma demo_wf: "wf_pdu demo_insert" "norm_pdu demo_insert = demo_insert"
  "wf_pdu demo_lookup" "norm_pdu demo_lookup = demo_lookup"
  by (simp_all add: demo_insert_def demo_lookup_def demo_ssn_def wf_pdu_def ValInsertPdu_new_def ValInsertPdu_ok_def
      ValLookupPdu_new_def ValLookupPdu_ok_def pdu_consts string_len_def len_utf8_def)

lemma demo_bytes: "to_bytes demo_insert =
    [100, 49, 49, 49, 49, 49, 49, 49, 49, 49, 49, 49, 49, 3, 65, 100, 97, 3, 97, 64, 98]"
  by (simp add: demo_insert_def demo_ssn_def ValInsertPdu_new_def ValInsertPdu_to_vec_def pdu_consts
      string_len_def len_utf8_def char_to_u8_def)

lemma demo_sendable: "sendable demo_insert" "sendable demo_lookup"
  by (simp add: sendable_def demo_wf demo_bytes BUFFER_SIZE_def)
    (simp add: sendable_def demo_wf BUFFER_SIZE_def, simp add: demo_lookup_def ValLookupPdu_new_def
      ValLookupPdu_to_vec_def demo_ssn_def)

theorem pdu_roundtrip_witness:
  "parse_pdu (to_bytes demo_insert @ [7, 7]) = Ret (Some (demo_insert, 21))"
  using pdu_roundtrip [OF demo_wf(1), of "[7, 7]"] by (simp add: demo_wf demo_bytes)

text \<open>C25: A PDU that was parsed serialises to the very bytes it was read from (unless it is a
  lookup response), so a node that forwards it forwards it unchanged.\<close>

theorem pdu_forward_transparent:
  "parse_pdu b = Ret (Some (p, n)) \<Longrightarrow> (\<And>r. p \<noteq> ValLookupResponse r) \<Longrightarrow>
     to_bytes p = take n b \<and> parse_pdu (to_bytes p @ c) = Ret (Some (p, n))"
  using parse_pdu_to_bytes [of b p n] wire.dec_enc_append [of p c] wire.dec_used [of b p n]
  by (cases p) auto

theorem pdu_forward_transparent_witness:
  "to_bytes demo_insert = take 21 (to_bytes demo_insert @ [0])"
proof -
  have "parse_pdu (to_bytes demo_insert @ [0]) = Ret (Some (demo_insert, 21))"
    using wire.dec_enc_append [OF demo_wf(1), of "[0]"] by (simp add: demo_wf demo_bytes)
  from pdu_forward_transparent [OF this] show ?thesis by (simp add: demo_insert_def)
qed

text \<open>C30: Parsing panics in exactly two situations: the first byte is no PDU type, or the bytes of
  an insert or a lookup response end right after the name, before the length of the email.\<close>

theorem pdu_panics_exactly:
  "(\<exists>e. parse_pdu b = Panic e) = (b \<noteq> [] \<and> (hd b \<notin> set pdu_ids \<or>
     (hd b \<in> {VAL_INSERT_ID, VAL_LOOKUP_RESPONSE_ID} \<and> 14 \<le> length b \<and>
      length b = 14 + unat (b ! 13))))"
  by (auto simp: parse_pdu_Panic_iff)

theorem pdu_panics_exactly_witness:
  "\<exists>e. parse_pdu (take 17 (to_bytes demo_insert)) = Panic e"
  unfolding pdu_panics_exactly by (simp add: demo_bytes pdu_consts)

text \<open>C38: The length of a name is counted in bytes of UTF-8 but the name is written with one byte
  a char: an insert of a valid number with one two-byte char in the name and no email makes the
  parser of its receiver panic.\<close>

theorem insert_two_byte_char_panics:
  assumes "length ssn = SSN_LENGTH" "string_len name = length name + 1" "length name < 255"
  shows "parse_pdu (to_bytes (ValInsert (ValInsertPdu_new ssn name []))) = Panic SplitAtMid"
proof -
  let ?b = "to_bytes (ValInsert (ValInsertPdu_new ssn name []))"
  have b: "?b = VAL_INSERT_ID # map char_to_u8 ssn @ of_nat (length name + 1) # map char_to_u8 name @ [0]"
    using assms by (simp add: ValInsertPdu_to_vec_def ValInsertPdu_new_def string_len_def)
  have "?b ! 13 = of_nat (length name + 1)" "length ?b = 15 + length name" "hd ?b = VAL_INSERT_ID"
    unfolding b using assms(1) by (simp_all add: nth_append pdu_consts)
  moreover have "unat (of_nat (length name + 1) :: u8) = length name + 1"
    using assms(3) by (intro unat_of_nat_u8) simp
  ultimately show ?thesis by (auto simp: parse_pdu_Panic_iff b)
qed

theorem insert_two_byte_char_panics_witness:
  "parse_pdu (to_bytes (ValInsert (ValInsertPdu_new demo_ssn [82, 0xE9] []))) = Panic SplitAtMid"
  by (rule insert_two_byte_char_panics) (simp_all add: demo_ssn_def pdu_consts string_len_def len_utf8_def)

section \<open>Streams\<close>

text \<open>C10: PDUs sent on a stream arrive in order, none lost, doubled or cut, whatever short writes
  and would-blocks the sender meets and however the network cuts the bytes into reads, as long
  as no reading round ends where the parser panics or overfills the buffer.\<close>

theorem tcp_transport:
  assumes "writable s" "outbox s = []" "list_all wf_pdu ps" "inbox r = []" "peer_addr r = Some a"
  shows "\<exists>s'. tcp_send_all w s ps = Ret s' \<and>
    (\<forall>css. concat (concat css) = outbox s' \<and> clean_rounds [] css \<longrightarrow>
      (\<exists>w'. tcp_receive_rounds TcpWrapper_new r css = Ret (w', r) \<and> buffered w' = [] \<and>
        incoming_queue w' = map (\<lambda>p. (norm_pdu p, a)) ps))"
proof -
  obtain s' where s': "tcp_send_all w s ps = Ret s'" "outbox s' = concat (map to_bytes ps)"
    using tcp_send_all_writable [OF assms(1)] assms(2) by fastforce
  have f: "frames parse_pdu (concat (map to_bytes ps)) (map norm_pdu ps) []"
    using wire.frames_concat [OF assms(3) wire_done [of "[]"]] by simp
  have "\<exists>w'. tcp_receive_rounds TcpWrapper_new r css = Ret (w', r) \<and> buffered w' = [] \<and>
        incoming_queue w' = map (\<lambda>p. (norm_pdu p, a)) ps"
    if css: "concat (concat css) = outbox s'" "clean_rounds [] css" for css
  proof -
    obtain w' us where w': "tcp_receive_rounds TcpWrapper_new r css = Ret (w', r)"
      "frames parse_pdu (concat (concat css)) us (buffered w')"
      "incoming_queue w' = map (\<lambda>p. (p, a)) us"
      using tcp_receive_rounds_frames [of TcpWrapper_new r a css] assms(4,5) css(2) by auto
    then show ?thesis
      using frames_unique [OF w'(2)] f css(1) s'(2) by (auto simp: comp_def)
  qed
  then show ?thesis using s'(1) by blast
qed

text \<open>A stream whose kernel takes five bytes, blocks once, then takes everything.\<close>

definition demo_stream :: tcp_stream where
  "demo_stream = \<lparr>peer_addr = Some (V4 (0x7F000001, 9000)), inbox = [], writes = [WTake 5, WWouldBlock],
     outbox = [], shutdown_ok = True, is_shut = False\<rparr>"

lemma demo_stream_ok: "writable demo_stream" "outbox demo_stream = []" "inbox demo_stream = []"
  "peer_addr demo_stream = Some (V4 (0x7F000001, 9000))"
  by (simp_all add: demo_stream_def writable_def)

lemma demo_clean: "clean_rounds [] [[take 5 (to_bytes demo_insert), drop 5 (to_bytes demo_insert)]]"
proof -
  have "frames parse_pdu (to_bytes demo_insert) [demo_insert] []"
    using wire.frames_concat [of "[demo_insert]" "[]" "[]" "[]"] wire_done [of "[]"]
    by (simp add: demo_wf)
  moreover have "frames parse_pdu [] [] []" by (rule wire_done) simp
  ultimately show ?thesis
    unfolding clean_rounds_def by (auto simp: le_Suc_eq demo_bytes BUFFER_SIZE_def)
qed

theorem tcp_transport_witness:
  "\<exists>w'. tcp_receive_rounds TcpWrapper_new demo_stream
      [[take 5 (to_bytes demo_insert), drop 5 (to_bytes demo_insert)]] = Ret (w', demo_stream) \<and>
    incoming_queue w' = [(demo_insert, V4 (0x7F000001, 9000))]"
proof -
  obtain s' where s': "tcp_send_all TcpWrapper_new demo_stream [demo_insert] = Ret s'"
    "\<forall>css. concat (concat css) = outbox s' \<and> clean_rounds [] css \<longrightarrow>
      (\<exists>w'. tcp_receive_rounds TcpWrapper_new demo_stream css = Ret (w', demo_stream) \<and> buffered w' = [] \<and>
        incoming_queue w' = map (\<lambda>p. (norm_pdu p, V4 (0x7F000001, 9000))) [demo_insert])"
    using tcp_transport [OF demo_stream_ok(1,2) _ demo_stream_ok(3,4), of "[demo_insert]" TcpWrapper_new]
    by (auto simp: demo_wf)
  have "outbox s' = to_bytes demo_insert"
    using tcp_send_all_writable [OF demo_stream_ok(1), of TcpWrapper_new "[demo_insert]"] s'(1)
    by (simp add: demo_stream_ok)
  then have "concat (concat [[take 5 (to_bytes demo_insert), drop 5 (to_bytes demo_insert)]]) = outbox s'"
    by simp
  then show ?thesis using s'(2) demo_clean by (fastforce simp: demo_wf simp del: tcp_receive_rounds.simps)
qed

text \<open>However the kernel cuts the writes, a send that returns has written exactly the bytes of
  the PDU behind what was written before, and a send returns whenever no write fails or stalls.\<close>

theorem tcp_send_exact:
  "(TcpWrapper_send w s p = Ret s' \<longrightarrow> outbox s' = outbox s @ to_bytes p \<and> inbox s' = inbox s) \<and>
   (writable s \<longrightarrow> (\<exists>t. TcpWrapper_send w s p = Ret t \<and> writable t))"
  using TcpWrapper_send_writable [of s w p]
  by (auto dest!: TcpWrapper_send_facts) (metis tcp_stream.select_convs(4) tcp_stream.surjective tcp_stream.update_convs(4), metis tcp_stream.select_convs(2) tcp_stream.surjective tcp_stream.update_convs(3,4))

theorem tcp_send_exact_witness:
  "\<exists>t. TcpWrapper_send TcpWrapper_new demo_stream demo_insert = Ret t \<and> outbox t = to_bytes demo_insert"
  using tcp_send_exact [of TcpWrapper_new demo_stream demo_insert] demo_stream_ok by force

text \<open>Reading keeps the buffer well formed and the framing intact: the bytes taken from the
  stream, appended to those left over before, are cut into PDUs that join the queue in order,
  and what is left is too short to be a PDU.\<close>

theorem tcp_try_read_frames:
  assumes "TcpWrapper_try_read w s = Ret (w', s', c)" "wf_wrapper w"
  shows "wf_wrapper w' \<and> (\<exists>bs ps ms. pending (inbox s) = bs @ pending (inbox s') \<and>
      frames parse_pdu (buffered w @ bs) ps (buffered w') \<and> parse_pdu (buffered w') = Ret None \<and>
      incoming_queue w' = incoming_queue w @ ms \<and> map fst ms = ps)"
  using TcpWrapper_try_read_facts [OF assms] frames_rest by metis

text \<open>A read that delivers the first 18 bytes of an insert.\<close>

theorem tcp_try_read_frames_witness:
  "\<exists>w'. TcpWrapper_try_read TcpWrapper_new (demo_stream\<lparr>inbox := [RData (take 18 (to_bytes demo_insert))]\<rparr>)
       = Ret (w', demo_stream, False) \<and> buffered w' = take 18 (to_bytes demo_insert) \<and> wf_wrapper w'"
proof -
  let ?b = "take 18 (to_bytes demo_insert)" and ?s = "demo_stream\<lparr>inbox := [RData (take 18 (to_bytes demo_insert))]\<rparr>"
  have "parse_pdu ?b = Ret None"
    by (simp add: demo_bytes parse_defs into_pdu_def ValInsertPdu_try_parse_def pdu_consts
        read_be_u8_def split_at_def Let_def)
  then have f: "frames parse_pdu (buffered TcpWrapper_new @ concat [?b]) [] ?b"
    by (simp add: wire_done)
  obtain w' where w': "TcpWrapper_try_read TcpWrapper_new ?s = Ret (w', demo_stream, False)"
    "buffered w' = ?b"
    using TcpWrapper_try_read_chunks [OF TcpWrapper_new_facts(1) _ _ _ _ f, of ?s "[]"]
    by (auto simp: demo_stream_def demo_bytes BUFFER_SIZE_def)
  then show ?thesis using tcp_try_read_frames [OF w'(1)] by simp
qed

text \<open>C39: A stream that has more bytes waiting than the buffer has room for is reported as closed
  although it is open and the rest of the bytes is still to be read: the read into the full
  buffer returns 0, which the loop takes for the end of the stream.\<close>

theorem full_buffer_reports_close:
  assumes "wf_wrapper w" "inbox s = map RData cs" "free_space w < length (concat cs)"
    and "TcpWrapper_try_read w s = Ret (w', s', c)"
  shows "c \<and> pending (inbox s') \<noteq> [] \<and> REof \<notin> set (inbox s)"
  using tcp_read_loop_full [OF assms(1,3)] assms(2,4)
  by (auto simp: TcpWrapper_try_read_def obind_eq_Ret)

text \<open>A buffer filled to the last byte with \<open>NET_ALIVE\<close> PDUs, and one more byte waiting.\<close>

lemma alive_frames: "frames parse_pdu (replicate k NET_ALIVE_ID) (replicate k (NetAlive NetAlivePdu_new)) []"
proof -
  have "concat (map to_bytes (replicate k (NetAlive NetAlivePdu_new))) = replicate k NET_ALIVE_ID"
    by (induction k) (simp_all add: NetAlivePdu_to_vec_def NetAlivePdu_new_def)
  then show ?thesis
    using wire.frames_concat [of "replicate k (NetAlive NetAlivePdu_new)" "[]" "[]" "[]"]
      wire_done [of "[]"] by (simp add: wf_pdu_def NetAlivePdu_new_def list_all_iff)
qed

theorem full_buffer_reports_close_witness:
  "\<exists>w' s'. TcpWrapper_try_read
      \<lparr>incoming_queue = [], buffer = replicate BUFFER_SIZE NET_ALIVE_ID, buffer_fill = BUFFER_SIZE\<rparr>
      (demo_stream\<lparr>inbox := [RData [NET_ALIVE_ID]]\<rparr>) = Ret (w', s', True) \<and> pending (inbox s') \<noteq> []"
proof -
  let ?w = "\<lparr>incoming_queue = [], buffer = replicate BUFFER_SIZE NET_ALIVE_ID, buffer_fill = BUFFER_SIZE\<rparr>"
  let ?s = "demo_stream\<lparr>inbox := [RData [NET_ALIVE_ID]]\<rparr>"
  have wf: "wf_wrapper ?w" "free_space ?w = 0" "buffered ?w = replicate BUFFER_SIZE NET_ALIVE_ID"
    by (simp_all add: wf_wrapper_def free_space_def buffered_def)
  have "tcp_read_loop ?w (inbox ?s) = Ret (?w, inbox ?s, True)"
    using wf(2) by (subst tcp_read_loop_eq [OF wf(1)]) simp
  moreover have "\<exists>w'. parse_loop (Ret (V4 (0x7F000001, 9000))) ?w = Ret w'"
    using parse_loop_frames [OF alive_frames wf(1), of BUFFER_SIZE] wf(3) by metis
  ultimately obtain w' s' where r: "TcpWrapper_try_read ?w ?s = Ret (w', s', True)"
    by (auto simp: TcpWrapper_try_read_def unwrap_io_def demo_stream_def)
  then show ?thesis
    using full_buffer_reports_close [OF wf(1) _ _ r, of "[[NET_ALIVE_ID]]"] wf(2) by auto
qed

section \<open>Datagrams\<close>

text \<open>C40: The UDP wrapper keeps one buffer for all senders: when a datagram of one sender ends
  inside a PDU, the next datagram of any other sender is read as its continuation and the PDU is
  attributed to that other sender.\<close>

theorem udp_mixes_senders:
  assumes "wf_pdu p" "to_bytes p = x @ y" "parse_pdu x = Ret None" "length (to_bytes p) \<le> BUFFER_SIZE"
    and "arrivals u = [Datagram x a, Datagram y b]"
  shows "\<exists>w. UdpWrapper_try_read UdpWrapper_new u = Ret (w, u\<lparr>arrivals := []\<rparr>) \<and>
    incoming_queue w = [(norm_pdu p, b)] \<and> buffered w = []"
proof -
  have "length x + length y \<le> BUFFER_SIZE" using assms(2,4) by simp
  moreover have "frames parse_pdu (buffered UdpWrapper_new @ x) [] x" using wire_done [OF assms(3)] by simp
  ultimately obtain w1 where w1: "wf_wrapper w1" "buffered w1 = x" "incoming_queue w1 = []"
    "udp_read_loop UdpWrapper_new [Datagram x a, Datagram y b] = udp_read_loop w1 [Datagram y b]"
    using udp_read_loop_datagram [OF UdpWrapper_new_facts(1) _ _, of x "[]" x a "[Datagram y b]"] by auto
  have "frames parse_pdu (x @ y) [norm_pdu p] []"
    using wire.frames_concat [of "[p]" "[]" "[]" "[]"] wire_done [of "[]"] assms(1,2) by simp
  moreover have "length y \<le> free_space w1"
    using \<open>length x + length y \<le> BUFFER_SIZE\<close> w1(1,2) length_buffered [OF w1(1)] by (simp add: free_space_def)
  ultimately obtain w2 where w2: "wf_wrapper w2" "buffered w2 = []" "incoming_queue w2 = [(norm_pdu p, b)]"
    "udp_read_loop w1 [Datagram y b] = udp_read_loop w2 []"
    using udp_read_loop_datagram [OF w1(1), of y "[norm_pdu p]" "[]" b "[]"] w1(2,3) by auto
  have "udp_read_loop w2 [] = Ret (w2, [])" by (simp add: udp_read_loop_eq [OF w2(1)])
  then show ?thesis using w1(4) w2 assms(5) by (simp add: UdpWrapper_try_read_def)
qed

definition demo_udp :: udp_socket where
  "demo_udp = \<lparr>udp_local = Some (V4 (0, 5000)), arrivals = [], sends = [], sent_datagrams = []\<rparr>"

theorem udp_mixes_senders_witness:
  "\<exists>w. UdpWrapper_try_read UdpWrapper_new (demo_udp\<lparr>arrivals :=
        [Datagram (take 5 (to_bytes demo_insert)) (V4 (1, 1)),
         Datagram (drop 5 (to_bytes demo_insert)) (V4 (2, 2))]\<rparr>) = Ret (w, demo_udp) \<and>
     incoming_queue w = [(demo_insert, V4 (2, 2))]"
proof -
  let ?u = "demo_udp\<lparr>arrivals := [Datagram (take 5 (to_bytes demo_insert)) (V4 (1, 1)),
      Datagram (drop 5 (to_bytes demo_insert)) (V4 (2, 2))]\<rparr>"
  have "parse_pdu (take 5 (to_bytes demo_insert)) = Ret None"
    by (simp add: demo_bytes parse_defs into_pdu_def ValInsertPdu_try_parse_def pdu_consts
        read_be_u8_def split_at_def Let_def)
  from udp_mixes_senders [OF demo_wf(1) _ this, of "drop 5 (to_bytes demo_insert)" ?u "V4 (1, 1)" "V4 (2, 2)"]
  obtain w where "UdpWrapper_try_read UdpWrapper_new ?u = Ret (w, ?u\<lparr>arrivals := []\<rparr>)"
    "incoming_queue w = [(norm_pdu demo_insert, V4 (2, 2))]"
    by (auto simp: demo_bytes BUFFER_SIZE_def)
  then show ?thesis by (auto simp: demo_wf demo_udp_def)
qed

text \<open>Whole datagrams are delivered whole: each datagram that carries one well-formed PDU is
  queued with its own sender, in the order of arrival.\<close>

theorem udp_datagrams:
  assumes "list_all (sendable \<circ> fst) ms" "arrivals u = datagrams ms"
  shows "\<exists>w. UdpWrapper_try_read UdpWrapper_new u = Ret (w, u\<lparr>arrivals := []\<rparr>) \<and>
    incoming_queue w = received ms \<and> buffered w = []"
  using UdpWrapper_reads [OF UdpWrapper_new_facts(1,2) assms(1), of u "[]" "[]"] assms(2)
  by (auto simp: round_ends_def UdpWrapper_new_def)

theorem udp_datagrams_witness:
  "\<exists>w. UdpWrapper_try_read UdpWrapper_new (demo_udp\<lparr>arrivals :=
        [Datagram (to_bytes demo_insert) (V4 (1, 1)), Datagram (to_bytes demo_insert) (V4 (2, 2))]\<rparr>)
       = Ret (w, demo_udp) \<and>
     incoming_queue w = [(demo_insert, V4 (1, 1)), (demo_insert, V4 (2, 2))]"
  using udp_datagrams [of "[(demo_insert, V4 (1, 1)), (demo_insert, V4 (2, 2))]" "demo_udp\<lparr>arrivals :=
        [Datagram (to_bytes demo_insert) (V4 (1, 1)), Datagram (to_bytes demo_insert) (V4 (2, 2))]\<rparr>"]
  by (auto simp: demo_wf demo_sendable datagrams_def demo_udp_def)

end
