(* ===== verification/Node_Properties.thy ===== *)
theory Node_Properties
  imports Node_Start Wire_Properties
begin

text \<open>
  The properties of the node, each with a concrete instance.
\<close>

section \<open>Example nodes\<close>

definition demo_link :: "socket_addr_v4 \<Rightarrow> tcp_stream" where
  "demo_link a = \<lparr>peer_addr = Some (V4 a), inbox = [], writes = [], outbox = [], shutdown_ok = True,
     is_shut = False\<rparr>"

definition demo_entry :: entry where
  "demo_entry = Entry_new demo_ssn [65, 100, 97] [97, 64, 98]"

text \<open>A node that owns every hash, stores one entry and has two neighbours.\<close>

definition demo_node :: node where
  "demo_node = \<lparr>state = Q6, own_address = Some 0x0A000001, stored = [demo_entry],
     hash_range = (0, 255), last_alive = 0, last_pdu = None,
     successor_listen = Some (V4 (0x0A000002, 7001)), should_close = False, running = True,
     tracker_addr = V4 (0x0A0000FF, 9999),
     udp_wrapper = UdpWrapper_new, udp_sock = demo_udp,
     successor_wrapper = TcpWrapper_new, successor = Some (demo_link (0x0A000002, 7001)),
     predecessor_wrapper = TcpWrapper_new, predecessor = Some (demo_link (0x0A000003, 50123)),
     listen_socket = \<lparr>local_addr = Some (V4 (0, 7000)), accepts = []\<rparr>,
     now = 0, syscalls = [], connects = [], dropped = []\<rparr>"

lemma demo_link_ready: "link_ready (demo_link a)" "writable (demo_link a)" "inbox (demo_link a) = []"
  "outbox (demo_link a) = []" "peer_addr (demo_link a) = Some (V4 a)"
  by (simp_all add: demo_link_def link_ready_def writable_def)

lemma demo_udp_ready: "udp_ready demo_udp"
  by (simp add: demo_udp_def udp_ready_def)

lemma demo_can_send: "can_send demo_node"
  by (simp add: can_send_def demo_node_def demo_udp_ready demo_link_ready)

lemma demo_hash: "hash_ssn demo_ssn = 17"
  by (simp add: hash_ssn_def demo_ssn_def)

lemma demo_plain: "plain demo_entry"
  by (simp add: plain_def demo_entry_def Entry_new_def demo_ssn_def pdu_consts)

section \<open>Values\<close>

text \<open>C26: The hash of a number is the djb2 hash of its chars modulo 256, for every string: the
  wrap-around of the 32-bit arithmetic and the final reduction agree.\<close>

theorem hash_is_djb2:
  "unat (hash_ssn ssn) = djb2 ssn mod 256 \<and> entry_hash (Entry_new ssn name email) = hash_ssn ssn"
  by (simp add: unat_hash_ssn entry_hash_def Entry_new_def)

text \<open>C5: A node that drains a queue of value PDUs does, in order, what an abstract service does:
  it stores an entry under a new number, deletes, answers each lookup by a datagram to the address
  it carries with what is stored at that moment, and passes on unchanged, on the stream to its
  successor, exactly the PDUs whose number is outside its range.\<close>

theorem values_served:
  assumes "can_send n" "list_all (is_value \<circ> fst) (queue_of token n)"
  shows "\<exists>n'. drain token n = Ret n' \<and> queue_of token n' = [] \<and>
    abs_node n' = fold (val_spec (owned n)) (map fst (queue_of token n)) (abs_node n) \<and>
    hash_range n' = hash_range n \<and> predecessor n' = predecessor n \<and>
    (queue_of token n \<noteq> [] \<longrightarrow> state n' = Q6 \<and> last_pdu n' = None)"
  using drain_refines [OF assms] by blast

theorem values_served_witness:
  "\<exists>n'. drain PREDECESSOR (demo_node\<lparr>predecessor_wrapper :=
        TcpWrapper_new\<lparr>incoming_queue := [(demo_lookup, V4 (1, 1))]\<rparr>\<rparr>) = Ret n' \<and>
     sent_datagrams (udp_sock n') = [(V4 (0x7F000001, 4711), to_bytes (ValLookupResponse
       (ValLookupResponsePdu_new demo_ssn [65, 100, 97] [97, 64, 98])))]"
proof -
  let ?n = "demo_node\<lparr>predecessor_wrapper := TcpWrapper_new\<lparr>incoming_queue := [(demo_lookup, V4 (1, 1))]\<rparr>\<rparr>"
  have q: "queue_of PREDECESSOR ?n = [(demo_lookup, V4 (1, 1))]"
    by (simp add: queue_of_def wrapper_of_def UDP_def SUCCESSOR_def PREDECESSOR_def)
  have "can_send ?n" using demo_can_send by (simp add: can_send_def owned_def)
  moreover have "list_all (is_value \<circ> fst) (queue_of PREDECESSOR ?n)"
    unfolding q by (simp add: is_value_def demo_lookup_def)
  ultimately obtain n' where n': "drain PREDECESSOR ?n = Ret n'"
    "abs_node n' = fold (val_spec (owned ?n)) [demo_lookup] (abs_node ?n)"
    using values_served q by fastforce
  have "hash_ssn demo_ssn \<in> owned ?n"
    by (simp add: demo_node_def owned_def range_set_def demo_hash)
  then have "v_replies (abs_node n') = [(V4 (0x7F000001, 4711), to_bytes (ValLookupResponse
       (ValLookupResponsePdu_new demo_ssn [65, 100, 97] [97, 64, 98])))]"
    unfolding n'(2) by (simp add: val_spec_def demo_lookup_def ValLookupPdu_new_def abs_node_def
        demo_node_def demo_udp_def store_of_def demo_entry_def Entry_new_def lookup_reply_def)
  then show ?thesis using n'(1) by (simp add: abs_node_def)
qed

text \<open>C22: A lookup after an insert of a new number is answered with the entry inserted; a second
  insert under the same number changes no answer, the first entry keeps being found.\<close>

theorem insert_then_lookup:
  assumes "can_send n" "hash_ssn (vi_ssn p) \<in> owned n" "store_of n (vi_ssn p) = None"
    and "vi_ssn p' = vi_ssn p" "vl_ssn q = vi_ssn p"
  shows "\<exists>n1 n2 n3. handle_pdu (ValInsert p) s1 n = Ret n1 \<and> handle_pdu (ValInsert p') s2 n1 = Ret n2 \<and>
    handle_pdu (ValLookup q) s3 n2 = Ret n3 \<and>
    sent_datagrams (udp_sock n3) = sent_datagrams (udp_sock n) @
      [(V4 (vl_sender_address q, vl_sender_port q), to_bytes (ValLookupResponse
         (ValLookupResponsePdu_new (vi_ssn p) (vi_name p) (vi_email p))))]"
proof -
  have val: "is_value (ValInsert x)" "is_value (ValLookup y)" for x y by (simp_all add: is_value_def)
  obtain n1 where n1: "handle_pdu (ValInsert p) s1 n = Ret n1" "can_send n1" "keeps n n1"
    "abs_node n1 = val_spec (owned n) (ValInsert p) (abs_node n)"
    using handle_pdu_refines [OF assms(1) val(1)] by blast
  obtain n2 where n2: "handle_pdu (ValInsert p') s2 n1 = Ret n2" "can_send n2" "keeps n1 n2"
    "abs_node n2 = val_spec (owned n1) (ValInsert p') (abs_node n1)"
    using handle_pdu_refines [OF n1(2) val(1)] by blast
  obtain n3 where n3: "handle_pdu (ValLookup q) s3 n2 = Ret n3"
    "abs_node n3 = val_spec (owned n2) (ValLookup q) (abs_node n2)"
    using handle_pdu_refines [OF n2(2) val(2)] by blast
  have own: "owned n1 = owned n" "owned n2 = owned n"
    using n1(3) n2(3) by (simp_all add: keeps_def owned_def)
  have "v_replies (abs_node n3) = sent_datagrams (udp_sock n) @
      [(V4 (vl_sender_address q, vl_sender_port q), to_bytes (ValLookupResponse
         (ValLookupResponsePdu_new (vi_ssn p) (vi_name p) (vi_email p))))]"
    using assms(2-5) unfolding n3(2) n2(4) n1(4) own
    by (simp add: val_spec_def abs_node_def lookup_reply_def Entry_new_def)
  then show ?thesis using n1(1) n2(1) n3(1) by (simp add: abs_node_def)
qed

theorem insert_then_lookup_witness:
  "\<exists>n1 n2 n3. handle_pdu demo_insert (SrcUDP (V4 (1, 1))) (demo_node\<lparr>stored := []\<rparr>) = Ret n1 \<and>
     handle_pdu (ValInsert (ValInsertPdu_new demo_ssn [66] [])) (SrcUDP (V4 (1, 1))) n1 = Ret n2 \<and>
     handle_pdu demo_lookup (SrcUDP (V4 (1, 1))) n2 = Ret n3 \<and>
     sent_datagrams (udp_sock n3) = [(V4 (0x7F000001, 4711), to_bytes (ValLookupResponse
       (ValLookupResponsePdu_new demo_ssn [65, 100, 97] [97, 64, 98])))]"
  using insert_then_lookup [of "demo_node\<lparr>stored := []\<rparr>" "ValInsertPdu_new demo_ssn [65, 100, 97] [97, 64, 98]"
      "ValInsertPdu_new demo_ssn [66] []" "ValLookupPdu_new demo_ssn 0x7F000001 4711"] demo_can_send
  by (simp add: demo_insert_def demo_lookup_def ValInsertPdu_new_def ValLookupPdu_new_def can_send_def
      owned_def range_set_def demo_hash store_of_def demo_node_def demo_udp_def)

section \<open>The state machine\<close>

definition demo_env :: node_env where
  "demo_env = \<lparr>env_handler_ok = True, env_udp = Some demo_udp,
     env_listener = Some \<lparr>local_addr = Some (V4 (0, 7000)), accepts = []\<rparr>, env_now = 0,
     env_syscalls = [], env_connects = []\<rparr>"

definition demo_tracker :: socket_addr where
  "demo_tracker = V4 (0x0A0000FF, 9999)"

definition demo_start :: node where
  "demo_start = \<lparr>state = Q1, own_address = None, stored = [], hash_range = (0, 0),
     last_alive = - 100000000000, last_pdu = None, successor_listen = None,
     should_close = False, running = True, tracker_addr = demo_tracker,
     udp_wrapper = UdpWrapper_new, udp_sock = demo_udp,
     successor_wrapper = TcpWrapper_new, successor = None,
     predecessor_wrapper = TcpWrapper_new, predecessor = None,
     listen_socket = \<lparr>local_addr = Some (V4 (0, 7000)), accepts = []\<rparr>,
     now = 0, syscalls = [], connects = [], dropped = []\<rparr>"

lemma demo_new: "Node_new demo_env demo_tracker = Ret demo_start"
  by (simp add: Node_new_def demo_env_def demo_start_def unwrap_io_def get_listen_addr_def
      demo_udp_def secs_def Let_def)

definition demo_tick :: tick where
  "demo_tick = \<lparr>tick_elapsed = 1, tick_events = [UDP], tick_signal = False\<rparr>"

lemma demo_tick_known: "known_tokens demo_tick"
  by (simp add: known_tokens_def demo_tick_def)

text \<open>C8: A node never panics because a state finds the wrong PDU pending, because it indexes a
  buffer out of bounds, because an event has an unknown token, or because the listen address of
  its successor is not set: whatever the peers, the network and the operating system do.\<close>

theorem run_never_panics:
  assumes "list_all known_tokens ts"
  shows "node_main bld ts e tracker \<notin>
    Panic ` {InvalidStateChange, SliceIndex, UnknownToken, MissingAddress}"
proof
  assume "node_main bld ts e tracker \<in> Panic ` {InvalidStateChange, SliceIndex, UnknownToken, MissingAddress}"
  then obtain err where err: "node_main bld ts e tracker = Panic err"
    "err \<in> {InvalidStateChange, SliceIndex, UnknownToken, MissingAddress}" by blast
  have "Node_new e (V4 tracker) \<noteq> Panic err"
    using err(2) by (auto simp: Node_new_def obind_eq_Panic unwrap_io_def get_listen_addr_def Let_def
        split: if_splits option.splits socket_addr.splits)
  then obtain n where n: "Node_new e (V4 tracker) = Ret n" "run_node bld ts n = Panic err"
    using err(1) by (auto simp: node_main_def obind_eq_Panic)
  from safe_PanicD [OF reachable_run [OF reachable_new [OF n(1)] assms] n(2)] err(2)
  show False by (auto simp: never_def)
qed

theorem run_never_panics_witness:
  "node_main Debug [demo_tick, demo_tick] demo_env (1, 2) \<notin>
     Panic ` {InvalidStateChange, SliceIndex, UnknownToken, MissingAddress}"
  by (rule run_never_panics) (simp add: demo_tick_known)

text \<open>C14: Every pass of the loop goes along an edge of the state graph, and the loop ends exactly
  in the two states that leave the network.\<close>

theorem states_follow_graph:
  assumes "reachable bld n" "running n" "known_tokens t" "node_step bld t n = Ret n'"
  shows "state n' \<in> set (next_states (state n)) \<and>
    (\<not> running n' \<longleftrightarrow> state n \<in> {Q10, Q18} \<and> state n' = state n)"
  using node_step_moves [OF reachable_inv [OF assms(1)] assms(2-4)] by (simp add: moves_def)

theorem states_follow_graph_witness:
  "\<exists>n'. node_step Release demo_tick demo_start = Ret n' \<and> state n' = Q2 \<and> running n'"
proof -
  have "udp_ready (udp_sock demo_start)" by (simp add: demo_start_def demo_udp_ready)
  from send_udp_ready [OF this, of "StunLookup StunLookupPdu_new" demo_tracker] obtain n' where
    n': "node_step Release demo_tick demo_start = Ret n'"
    by (auto simp: node_step_def q1_def demo_start_def Let_def)
  have "running demo_start" "state demo_start = Q1" by (simp_all add: demo_start_def)
  then show ?thesis
    using states_follow_graph [OF reachable_new [OF demo_new] _ demo_tick_known n'] n' by auto
qed

text \<open>C15: After at most five passes a running node is idle again in \<open>q6\<close>, has stopped, or has
  panicked or is blocked in a call: the states between cannot go round in circles.\<close>

theorem idle_within_five:
  assumes "reachable bld n" "running n" "list_all known_tokens ts" "length ts = 5"
  shows "\<exists>k \<le> 5. case run_node bld (take k ts) n of
    Ret n' \<Rightarrow> state n' = Q6 \<or> \<not> running n' | Panic _ \<Rightarrow> True | Blocked \<Rightarrow> True"
proof -
  have "rank (state n) \<le> 5" by (cases "state n") auto
  moreover obtain k where "k \<le> rank (state n)" "case run_node bld (take k ts) n of
    Ret n' \<Rightarrow> state n' = Q6 \<or> \<not> running n' | _ \<Rightarrow> True"
    using run_node_idle [OF assms(1-3)] assms(4) calculation by auto
  ultimately show ?thesis by (intro exI [of _ k]) simp
qed

theorem idle_within_five_witness:
  "\<exists>k \<le> 5. case run_node Debug (take k (replicate 5 demo_tick)) demo_start of
    Ret n' \<Rightarrow> state n' = Q6 \<or> \<not> running n' | Panic _ \<Rightarrow> True | Blocked \<Rightarrow> True"
  using idle_within_five [OF reachable_new [OF demo_new], of "replicate 5 demo_tick" Debug]
  by (simp add: demo_start_def demo_tick_known list_all_iff del: take_replicate)

text \<open>C9: Once it has a range, a node stores only entries whose hash lies in it, through inserts,
  splits, transfers and merges, in every run in which the \<open>NET_NEW_RANGE\<close> PDUs it handles extend
  its range.\<close>

theorem entries_stay_owned:
  assumes "orderly bld n" "state n \<notin> {Q1, Q2, Q3, Q4, Q7, Q8}"
  shows "\<forall>e \<in> set (stored n). entry_hash e \<in> range_set (hash_range n)"
  using orderly_store [OF assms(1)] assms(2) by (simp add: store_defs list_all_iff)

text \<open>An environment in which the tracker answers that the node is the first one, and a client sends
  an insert.\<close>

definition first_udp :: udp_socket where
  "first_udp = demo_udp\<lparr>arrivals :=
     [Datagram (to_bytes (StunResponse (StunResponsePdu_new 5))) demo_tracker, DWouldBlock,
      Datagram (to_bytes (NetGetNodeResponse (NetGetNodeResponsePdu_new 0 0))) demo_tracker, DWouldBlock,
      Datagram (to_bytes demo_insert) (V4 (1, 1)), DWouldBlock]\<rparr>"

definition first_env :: node_env where
  "first_env = demo_env\<lparr>env_udp := Some first_udp\<rparr>"

lemma first_arrivals: "arrivals first_udp =
     [Datagram (to_bytes (StunResponse (StunResponsePdu_new 5))) demo_tracker, DWouldBlock,
      Datagram (to_bytes (NetGetNodeResponse (NetGetNodeResponsePdu_new 0 0))) demo_tracker, DWouldBlock,
      Datagram (to_bytes demo_insert) (V4 (1, 1)), DWouldBlock]"
  by (simp add: first_udp_def)

lemma first_ready: "udp_ready first_udp" "env_udp first_env = Some first_udp" "env_syscalls first_env = []"
  by (simp_all add: first_udp_def demo_udp_def udp_ready_def first_env_def demo_env_def)

lemma first_new: "Node_new first_env demo_tracker = Ret (demo_start\<lparr>udp_sock := first_udp\<rparr>)"
  by (simp add: Node_new_def first_env_def demo_env_def demo_start_def unwrap_io_def
      get_listen_addr_def first_udp_def demo_udp_def secs_def Let_def)

lemma first_runs:
  "\<exists>n'. run_node Debug [demo_tick, demo_tick, demo_tick, demo_tick] (demo_start\<lparr>udp_sock := first_udp\<rparr>) = Ret n' \<and>
     orderly Debug n' \<and> state n' = Q6 \<and> running n' \<and> own_address n' = Some 5 \<and> hash_range n' = (0, 255) \<and>
     stored n' = [] \<and> udp_idle n' \<and>
     \<not> should_close n' \<and> arrivals (udp_sock n') = [Datagram (to_bytes demo_insert) (V4 (1, 1)), DWouldBlock]"
proof -
  from starts_alone [OF first_new first_ready(2,1,3) first_arrivals, of demo_tick demo_tick demo_tick demo_tick Debug]
  show ?thesis by (auto simp: demo_tick_known simp del: run_node.simps)
qed

theorem entries_stay_owned_witness:
  "\<exists>n e. orderly Debug n \<and> e \<in> set (stored n) \<and> e_name e = [65, 100, 97] \<and>
     (\<forall>e \<in> set (stored n). entry_hash e \<in> range_set (hash_range n))"
proof -
  obtain n where n: "orderly Debug n" "state n = Q6" "running n" "hash_range n = (0, 255)" "stored n = []"
    "udp_idle n" "arrivals (udp_sock n) = [Datagram (to_bytes demo_insert) (V4 (1, 1)), DWouldBlock]"
    "\<not> should_close n" using first_runs by blast
  have full: "owned n = UNIV"
  proof -
    have "h \<le> 255" for h :: u8 using unat_u8_less [of h] by (simp add: word_le_nat_alt)
    then show ?thesis using n(4) by (auto simp: owned_def range_set_def)
  qed
  have "can_send n" using n(6) full by (simp add: can_send_def udp_idle_def)
  moreover have "is_value demo_insert" "length (to_bytes demo_insert) \<le> BUFFER_SIZE"
    by (simp add: is_value_def demo_insert_def, simp add: demo_bytes BUFFER_SIZE_def)
  ultimately obtain n' where n': "q6 demo_tick n = Ret n'" "state n' = Q6"
    "abs_node n' = val_spec (owned n) demo_insert
      ((abs_node n)\<lparr>v_replies := v_replies (abs_node n) @ alive_due demo_tick n\<rparr>)"
    using q6_serves_datagram [OF n(6), of demo_tick demo_insert "V4 (1, 1)" "[]"] n(7,8)
    by (auto simp: demo_tick_def demo_wf)
  have "store_of n' demo_ssn = Some demo_entry"
    using arg_cong [OF n'(3), of v_store] n(5) full
    by (simp add: abs_node_def store_of_eq val_spec_def demo_insert_def ValInsertPdu_new_def demo_entry_def)
  then have "demo_entry \<in> set (stored n')" using first_entry_Some by (auto simp: store_of_def)
  moreover have o: "orderly Debug n'"
    using orderly_step [OF n(1,3) demo_tick_known] n(2) n'(1) by (simp add: node_step_def)
  moreover have "\<forall>e \<in> set (stored n'). entry_hash e \<in> range_set (hash_range n')"
    using entries_stay_owned [OF o] n'(2) by simp
  moreover have "e_name demo_entry = [65, 100, 97]" by (simp add: demo_entry_def Entry_new_def)
  ultimately show ?thesis by blast
qed

text \<open>A node whose tracker knows no other node asks it for its address and for a node, and is
  then idle, owns every hash and has no neighbour.\<close>

theorem first_node_starts:
  assumes "Node_new e tracker = Ret n" "env_udp e = Some u" "udp_ready u" "env_syscalls e = []"
    and "arrivals u = Datagram (to_bytes (StunResponse (StunResponsePdu_new ip))) a # DWouldBlock #
      Datagram (to_bytes (NetGetNodeResponse (NetGetNodeResponsePdu_new 0 0))) b # DWouldBlock # ds"
    and "list_all known_tokens [t1, t2, t3, t4]"
  shows "\<exists>n'. run_node bld [t1, t2, t3, t4] n = Ret n' \<and> state n' = Q6 \<and> own_address n' = Some ip \<and>
    owned n' = UNIV \<and> stored n' = [] \<and> successor n' = None \<and> predecessor n' = None \<and>
    sent_datagrams (udp_sock n') = sent_datagrams u @ [(tracker, to_bytes (StunLookup StunLookupPdu_new)),
      (tracker, to_bytes (NetGetNode NetGetNodePdu_new))]"
proof -
  have "h \<le> 255" for h :: u8 using unat_u8_less [of h] by (simp add: word_le_nat_alt)
  then have "range_set (0, 255) = UNIV" by (auto simp: range_set_def)
  then show ?thesis using starts_alone [OF assms] by (force simp: owned_def)
qed

theorem first_node_starts_witness:
  "\<exists>n'. run_node Debug [demo_tick, demo_tick, demo_tick, demo_tick] (demo_start\<lparr>udp_sock := first_udp\<rparr>) = Ret n' \<and>
     state n' = Q6 \<and> own_address n' = Some 5 \<and> owned n' = UNIV"
proof -
  from first_node_starts [OF first_new first_ready(2,1,3) first_arrivals, of demo_tick demo_tick demo_tick demo_tick Debug]
  show ?thesis by (auto simp: demo_tick_known simp del: run_node.simps)
qed

section \<open>Ranges\<close>

text \<open>C16: Splitting a range of at least two hashes gives two non-empty ranges that cover it, do not
  overlap and differ in size by at most one, in a debug and in a release build; merging the upper
  part back as \<open>q15\<close> does gives the range again.\<close>

theorem split_partitions:
  assumes "hash_range n = (lo, hi)" "lo < hi"
  shows "\<exists>m mins. split_range bld n = Ret ((mins, hi), n\<lparr>hash_range := (lo, m)\<rparr>) \<and>
    range_set (lo, hi) = range_set (lo, m) \<union> range_set (mins, hi) \<and>
    range_set (lo, m) \<inter> range_set (mins, hi) = {} \<and> lo \<le> m \<and> mins \<le> hi \<and>
    card (range_set (mins, hi)) \<le> card (range_set (lo, m)) \<and>
    card (range_set (lo, m)) \<le> card (range_set (mins, hi)) + 1 \<and>
    taken_over (lo, m) (NetNewRangePdu_new mins hi) = (lo, hi)"
proof -
  let ?m = "split_point lo hi" and ?p = "NetNewRangePdu_new (split_point lo hi + 1) hi"
  have le: "lo \<le> hi" using assms(2) by simp
  note b = split_point_bounds [OF le]
  have m: "?m < hi" using b(3) assms(2) by simp
  note adj = split_adjacent [OF assms(2)]
  have mins: "?m + 1 \<le> hi" "unat (?m + 1) = unat ?m + 1"
    using adj adjacent_not_top [OF adj] unat_Suc_u8 [of ?m] by (simp_all add: adjacent_def)
  have c: "card (range_set (lo, ?m)) = unat ?m - unat lo + 1"
    "card (range_set (?m + 1, hi)) = unat hi - unat (?m + 1) + 1"
    using card_range_set [OF b(1)] card_range_set [OF mins(1)] by simp_all
  have u: "unat ?m = (unat hi - unat lo) div 2 + unat lo" "unat lo < unat hi"
    using unat_split_point [OF le] assms(2) by (simp_all add: word_less_nat_alt)
  have "taken_over (lo, ?m) ?p = (lo, hi)"
    using taken_over_adjacent [of lo ?m ?p] adj by (simp add: NetNewRangePdu_new_def)
  moreover have "split_range bld n = Ret ((?m + 1, hi), n\<lparr>hash_range := (lo, ?m)\<rparr>)"
    using split_range_defined [OF assms(1) le] assms(2) by simp
  moreover have "card (range_set (?m + 1, hi)) \<le> card (range_set (lo, ?m))"
    "card (range_set (lo, ?m)) \<le> card (range_set (?m + 1, hi)) + 1"
    unfolding c mins(2) u(1) using u(2) by linarith+
  ultimately show ?thesis
    using range_set_split [OF b(1) m] b(1) mins(1) by blast
qed

theorem split_partitions_witness:
  "\<exists>m mins. split_range Debug demo_node = Ret ((mins, 255), demo_node\<lparr>hash_range := (0, m)\<rparr>) \<and>
     range_set (0, m) \<inter> range_set (mins, 255) = {}"
  using split_partitions [of demo_node 0 255 Debug] by (auto simp: demo_node_def)

text \<open>C37: The ranges that cannot be split are split all the same.  A node that owns one hash below
  255 keeps it and gives the empty range \<open>(k + 1, k)\<close> away; a node that owns only 255 panics in a
  debug build, and in a release build gives the range (0, 255) of all hashes away; a node with an
  empty range \<open>(k + 1, k)\<close> panics in a debug build, and in a release build keeps \<open>(k + 1, k + 128)\<close>,
  which is not empty if \<open>k\<close> is below 127.\<close>

theorem split_of_single:
  assumes "k \<noteq> 255"
  shows "split_range bld (n\<lparr>hash_range := (k, k)\<rparr>) = Ret ((k + 1, k), n\<lparr>hash_range := (k, k)\<rparr>) \<and>
    range_set (k + 1, k) = {} \<and>
    split_range Debug (n\<lparr>hash_range := (255, 255)\<rparr>) = Panic ArithOverflow \<and>
    split_range Release (n\<lparr>hash_range := (255, 255)\<rparr>) = Ret ((0, 255), n\<lparr>hash_range := (255, 255)\<rparr>) \<and>
    split_range Debug (n\<lparr>hash_range := (k + 1, k)\<rparr>) = Panic ArithOverflow \<and>
    split_range Release (n\<lparr>hash_range := (k + 1, k)\<rparr>) = Ret ((k + 129, k), n\<lparr>hash_range := (k + 1, k + 128)\<rparr>) \<and>
    (k < 127 \<longrightarrow> range_set (k + 1, k + 128) \<noteq> {})"
proof -
  have k: "unat (k + 1) = unat k + 1" using assms by (rule unat_Suc_u8)
  have lt: "k < k + 1" using k by (simp add: word_less_nat_alt)
  then have empty: "range_set (k + 1, k) = {}" by (auto simp: range_set_def)
  have one: "split_range bld (n\<lparr>hash_range := (k, k)\<rparr>) = Ret ((k + 1, k), n\<lparr>hash_range := (k, k)\<rparr>)"
    using k unat_u8_less [of "k + 1"] by (simp add: split_range_def sub_u8_def add_u8_Ret)
  have "k - (k + 1) = (- 1 :: u8)" "(- 1 :: u8) div 2 = 127" by simp_all
  then have none: "split_range Debug (n\<lparr>hash_range := (k + 1, k)\<rparr>) = Panic ArithOverflow"
    "split_range Release (n\<lparr>hash_range := (k + 1, k)\<rparr>) = Ret ((k + 129, k), n\<lparr>hash_range := (k + 1, k + 128)\<rparr>)"
    using lt by (simp_all add: split_range_def sub_u8_def add_u8_def add.commute)
  have "range_set (k + 1, k + 128) \<noteq> {}" if "k < 127"
  proof -
    have "k + 1 \<le> k + 128" using that by (simp add: word_le_nat_alt word_less_nat_alt unat_word_ariths)
    then show ?thesis by (auto simp: range_set_def)
  qed
  then show ?thesis using empty one none by (simp add: split_range_def sub_u8_def add_u8_def)
qed

theorem split_of_single_witness:
  "split_range Debug (demo_node\<lparr>hash_range := (17, 17)\<rparr>) = Ret ((18, 17), demo_node\<lparr>hash_range := (17, 17)\<rparr>) \<and>
   split_range Release (demo_node\<lparr>hash_range := (18, 17)\<rparr>) = Ret ((146, 17), demo_node\<lparr>hash_range := (18, 145)\<rparr>)"
  using split_of_single [of 17 Debug demo_node] by simp

text \<open>C21: A transfer sends every entry of the range once, in order, behind what was sent before, and
  keeps exactly the others: together they are the entries there were, and every number is found on
  the side its hash belongs to.\<close>

theorem transfer_conserves:
  assumes "link_stream succ n = Some s" "writable s"
  shows "\<exists>n' s' sent. transfer succ lo hi n = Ret n' \<and> link_stream succ n' = Some s' \<and> hash_range n' = hash_range n \<and>
    sent = filter (\<lambda>e. entry_hash e \<in> range_set (lo, hi)) (stored n) \<and>
    stored n' = filter (\<lambda>e. entry_hash e \<notin> range_set (lo, hi)) (stored n) \<and>
    outbox s' = outbox s @ concat (map (to_bytes \<circ> insert_of) sent) \<and>
    mset (stored n) = mset sent + mset (stored n') \<and>
    (\<forall>k. store_of n k = (if hash_ssn k \<in> range_set (lo, hi) then first_entry k sent else store_of n' k))"
proof -
  obtain s' where s': "transfer succ lo hi n = Ret ((if succ then n\<lparr>successor := Some s'\<rparr>
      else n\<lparr>predecessor := Some s'\<rparr>)\<lparr>stored := kept lo hi (stored n)\<rparr>)"
    "outbox s' = outbox s @ concat (map (to_bytes \<circ> insert_of) (moved lo hi (stored n)))"
    using transfer_ready [OF assms] by blast
  let ?n' = "(if succ then n\<lparr>successor := Some s'\<rparr> else n\<lparr>predecessor := Some s'\<rparr>)\<lparr>stored := kept lo hi (stored n)\<rparr>"
  have "link_stream succ ?n' = Some s'" "stored ?n' = kept lo hi (stored n)" "hash_range ?n' = hash_range n"
    by (simp_all add: link_stream_def)
  then show ?thesis
    using s' moved_kept_mset [of "stored n" lo hi] first_entry_moved [of _ lo hi "stored n"]
      first_entry_kept [of _ lo hi "stored n"] moved_def [of lo hi "stored n"] kept_def [of lo hi "stored n"]
    by (intro exI [of _ ?n'] exI [of _ s'] exI [of _ "moved lo hi (stored n)"]) (simp add: store_of_def)
qed

theorem transfer_conserves_witness:
  "\<exists>n' s'. transfer True 0 127 (demo_node\<lparr>stored := [demo_entry, demo_entry]\<rparr>) = Ret n' \<and>
    link_stream True n' = Some s' \<and> stored n' = [] \<and>
    outbox s' = to_bytes (insert_of demo_entry) @ to_bytes (insert_of demo_entry)"
proof -
  let ?n = "demo_node\<lparr>stored := [demo_entry, demo_entry]\<rparr>"
  have s: "link_stream True ?n = Some (demo_link (0x0A000002, 7001))"
    by (simp add: link_stream_def demo_node_def)
  have h: "entry_hash demo_entry \<in> range_set (0, 127)"
    by (simp add: demo_entry_def entry_hash_def Entry_new_def demo_hash range_set_def)
  from transfer_conserves [OF s demo_link_ready(2), of 0 127] show ?thesis
    using h by (auto simp: demo_link_ready simp del: to_bytes.simps)
qed

section \<open>Joining and leaving\<close>

text \<open>C1: A join in a ring of several nodes.  The node with the largest span sends its successor a
  \<open>NET_CLOSE_CONNECTION\<close> and shuts that stream down, connects to the new node, keeps its range up to the
  middle, and sends the new node the address of the old successor, the range above the middle and the
  entries of that range; the new node connects to that address and takes that range, and after it has
  handled what it received every number is found in the node whose range has its hash, with the
  entry it had before.\<close>

theorem join_hands_over:
  assumes "last_pdu n = Some (NetJoin p)" "successor n = Some s" "link_ready s" "peer_addr s = Some (V4 old)"
    and "offers c cs n" "outbox c = []" "hash_range n = (lo, hi)" "lo < hi" "list_all plain (stored n)"
    and "ready_to_join d ds b" "peer_addr r = Some a"
  shows "\<exists>n' s' c'. q13 bld n = Ret n' \<and> state n' = Q6 \<and> hash_range n' = (lo, split_point lo hi) \<and>
    dropped n' = dropped n @ [s'] \<and> is_shut s' \<and>
    outbox s' = outbox s @ to_bytes (NetCloseConnection NetCloseConnectionPdu_new) \<and>
    successor n' = Some c' \<and> peer_addr c' = Some (get_src_socket_addr p) \<and>
    outbox c' = to_bytes (NetJoinResponse (NetJoinResponsePdu_new (fst old) (snd old) (split_point lo hi + 1) hi)) @
      concat (map (to_bytes \<circ> insert_of) (moved (split_point lo hi + 1) hi (stored n))) \<and>
    (\<forall>chunks. concat chunks = outbox c' \<and> length (outbox c') \<le> BUFFER_SIZE \<longrightarrow>
      (\<exists>b' b''. q8 (b\<lparr>predecessor := Some (r\<lparr>inbox := map RData chunks\<rparr>)\<rparr>) = Ret b' \<and> state b' = Q6 \<and>
        successor_listen b' = Some (V4 old) \<and> successor b' = Some (d\<lparr>peer_addr := Some (V4 old)\<rparr>) \<and>
        drain PREDECESSOR b' = Ret b'' \<and> hash_range b'' = (split_point lo hi + 1, hi) \<and>
        (\<forall>k. hash_ssn k \<in> range_set (lo, split_point lo hi) \<longrightarrow> store_of n' k = store_of n k) \<and>
        (\<forall>k. hash_ssn k \<in> range_set (split_point lo hi + 1, hi) \<longrightarrow> store_of b'' k = store_of n k)))"
proof -
  let ?m = "split_point lo hi"
  let ?es = "moved (?m + 1) hi (stored n)"
  obtain n' s' c' where n': "q13 bld n = Ret n'" "state n' = Q6" "hash_range n' = (lo, ?m)"
    "stored n' = kept (?m + 1) hi (stored n)" "successor n' = Some c'"
    "peer_addr c' = Some (get_src_socket_addr p)" "outbox c' = join_bytes old (?m + 1) hi ?es"
    "dropped n' = dropped n @ [s']" "is_shut s'"
    "outbox s' = outbox s @ to_bytes (NetCloseConnection NetCloseConnectionPdu_new)"
    using q13_joins [OF assms(1-5,7,8), of bld] assms(6) by auto
  have lower: "hash_ssn k \<notin> range_set (?m + 1, hi)" if "hash_ssn k \<in> range_set (lo, ?m)" for k
    using that range_set_split(2) [of lo ?m hi] split_point_bounds [of lo hi] assms(8) by auto
  have "\<exists>b' b''. q8 (b\<lparr>predecessor := Some (r\<lparr>inbox := map RData chunks\<rparr>)\<rparr>) = Ret b' \<and> state b' = Q6 \<and>
      successor_listen b' = Some (V4 old) \<and> successor b' = Some (d\<lparr>peer_addr := Some (V4 old)\<rparr>) \<and>
      drain PREDECESSOR b' = Ret b'' \<and> hash_range b'' = (?m + 1, hi) \<and>
      (\<forall>k. store_of b'' k = first_entry k ?es)"
    if "concat chunks = outbox c'" "length (outbox c') \<le> BUFFER_SIZE" for chunks
  proof (rule receives_range [where r = "r\<lparr>inbox := map RData chunks\<rparr>" and cs = chunks and a = a])
    show "ready_to_join d ds (b\<lparr>predecessor := Some (r\<lparr>inbox := map RData chunks\<rparr>)\<rparr>)"
      using assms(10) by (simp add: ready_to_join_def offers_def queue_of_def wrapper_of_def
          UDP_def SUCCESSOR_def PREDECESSOR_def)
  qed (use that n'(7) assms(9,11) moved_plain moved_owned in auto)
  moreover have "\<forall>k. hash_ssn k \<in> range_set (lo, ?m) \<longrightarrow> store_of n' k = store_of n k"
    "\<forall>k. hash_ssn k \<in> range_set (?m + 1, hi) \<longrightarrow> first_entry k ?es = store_of n k"
    using lower n'(4) first_entry_moved first_entry_kept by (auto simp: store_of_eq)
  ultimately show ?thesis
    using n' unfolding join_bytes_def by (intro exI [of _ n'] exI [of _ s'] exI [of _ c']) fastforce
qed

definition demo_join :: NetJoinPdu where
  "demo_join = NetJoinPdu_new 0x0A000009 7009 255 0 7000"

text \<open>The demo node about to let a node in, and a node that waits for its range.\<close>

definition demo_host :: node where
  "demo_host = demo_node\<lparr>state := Q13, last_pdu := Some (NetJoin demo_join),
     connects := [Some (demo_link (0x0A000009, 7009))]\<rparr>"

definition demo_joiner :: node where
  "demo_joiner = demo_start\<lparr>state := Q8, connects := [Some (demo_link (0x0A000002, 7001))]\<rparr>"

lemma demo_offers: "offers (demo_link (0x0A000009, 7009)) [] demo_host"
  "offers (demo_link (0x0A000002, 7001)) [] demo_joiner"
  by (simp_all add: offers_def demo_host_def demo_joiner_def demo_node_def demo_start_def demo_link_ready)

lemma demo_ready_to_join: "ready_to_join (demo_link (0x0A000002, 7001)) [] demo_joiner"
  using demo_offers(2)
  by (simp add: ready_to_join_def demo_joiner_def demo_start_def demo_udp_ready queue_of_def
      wrapper_of_def UDP_def SUCCESSOR_def PREDECESSOR_def)

theorem join_hands_over_witness:
  "\<exists>n' s' c'. q13 Debug demo_host = Ret n' \<and> hash_range n' = (0, 127) \<and> successor n' = Some c' \<and>
    dropped n' = [s'] \<and> outbox s' = to_bytes (NetCloseConnection NetCloseConnectionPdu_new) \<and>
    (\<forall>chunks. concat chunks = outbox c' \<and> length (outbox c') \<le> BUFFER_SIZE \<longrightarrow>
      (\<exists>b' b''. q8 (demo_joiner\<lparr>predecessor := Some ((demo_link (3, 3))\<lparr>inbox := map RData chunks\<rparr>)\<rparr>) = Ret b' \<and>
        drain PREDECESSOR b' = Ret b'' \<and> hash_range b'' = (128, 255)))"
proof -
  have h: "last_pdu demo_host = Some (NetJoin demo_join)" "successor demo_host = Some (demo_link (0x0A000002, 7001))"
    "hash_range demo_host = (0, 255)" "(0 :: u8) < 255" "list_all plain (stored demo_host)" "dropped demo_host = []"
    by (simp_all add: demo_host_def demo_node_def demo_plain)
  have m: "split_point 0 255 = 127" by (simp add: split_point_def)
  from join_hands_over [OF h(1,2) demo_link_ready(1,5) demo_offers(1) demo_link_ready(4) h(3-5)
      demo_ready_to_join demo_link_ready(5), of Debug "(3, 3)"]
  obtain n' s' c' where r: "q13 Debug demo_host = Ret n'" "hash_range n' = (0, 127)" "successor n' = Some c'"
    "dropped n' = [s']" "outbox s' = to_bytes (NetCloseConnection NetCloseConnectionPdu_new)"
    "\<forall>chunks. concat chunks = outbox c' \<and> length (outbox c') \<le> BUFFER_SIZE \<longrightarrow>
      (\<exists>b' b''. q8 (demo_joiner\<lparr>predecessor := Some ((demo_link (3, 3))\<lparr>inbox := map RData chunks\<rparr>)\<rparr>) = Ret b' \<and>
        drain PREDECESSOR b' = Ret b'' \<and> hash_range b'' = (128, 255))"
    unfolding m h(6) demo_link_ready(4) by fastforce
  then show ?thesis by blast
qed

text \<open>C24: The first join: a node that is alone connects to the new node, keeps its range up to the middle,
  gives the new node the range above the middle, itself as neighbour and the entries of that range,
  and accepts the new node as its predecessor.\<close>

theorem first_join:
  assumes "last_pdu n = Some (NetJoin p)" "offers c cs n" "hash_range n = (lo, hi)" "lo < hi"
    and "own_address n = Some own" "local_addr (listen_socket n) = Some (V4 la)"
    and "accepts (listen_socket n) = Some pr # prs"
  shows "\<exists>n' c'. q5 bld n = Ret n' \<and> state n' = Q6 \<and> hash_range n' = (lo, split_point lo hi) \<and>
    stored n' = kept (split_point lo hi + 1) hi (stored n) \<and> successor n' = Some c' \<and>
    peer_addr c' = Some (get_src_socket_addr p) \<and> predecessor n' = Some pr \<and>
    outbox c' = outbox c @
      to_bytes (NetJoinResponse (NetJoinResponsePdu_new own (snd la) (split_point lo hi + 1) hi)) @
      concat (map (to_bytes \<circ> insert_of) (moved (split_point lo hi + 1) hi (stored n)))"
  using q5_joins [OF assms, of bld] by (auto simp: join_bytes_def)

theorem first_join_witness:
  "\<exists>n'. q5 Debug (demo_host\<lparr>successor := None, listen_socket := \<lparr>local_addr = Some (V4 (0, 7000)),
      accepts = [Some (demo_link (4, 4))]\<rparr>\<rparr>) = Ret n' \<and> hash_range n' = (0, 127) \<and>
     stored n' = [demo_entry] \<and> predecessor n' = Some (demo_link (4, 4))"
proof -
  let ?n = "demo_host\<lparr>successor := None, listen_socket := \<lparr>local_addr = Some (V4 (0, 7000)),
      accepts = [Some (demo_link (4, 4))]\<rparr>\<rparr>"
  have "offers (demo_link (0x0A000009, 7009)) [] ?n" using demo_offers(1) by (simp add: offers_def)
  moreover have "last_pdu ?n = Some (NetJoin demo_join)" "hash_range ?n = (0, 255)" "(0 :: u8) < 255"
    "own_address ?n = Some 0x0A000001" "local_addr (listen_socket ?n) = Some (V4 (0, 7000))"
    "accepts (listen_socket ?n) = Some (demo_link (4, 4)) # []"
    by (simp_all add: demo_host_def demo_node_def)
  moreover have m: "split_point 0 255 = 127" by (simp add: split_point_def)
  moreover have "kept 128 255 (stored ?n) = [demo_entry]"
    by (simp add: kept_def demo_host_def demo_node_def demo_entry_def entry_hash_def Entry_new_def demo_hash range_set_def)
  ultimately show ?thesis using first_join [of ?n demo_join _ _ 0 255 _ "(0, 7000)" _ _ Debug] by fastforce
qed

text \<open>C19: A join request on its way round the ring: a node that is alone answers it, the node whose
  listen address it carries lets the new node in, every other node passes it to its successor with
  the larger of the span it carries and its own, putting its own listen address in only if its own
  span is strictly larger.\<close>

theorem join_request_routed:
  assumes "last_pdu n = Some (NetJoin p)" "local_addr (listen_socket n) = Some (V4 la)"
    and "hash_range n = (lo, hi)" "lo \<le> hi" "\<And>s. successor n = Some s \<Longrightarrow> link_ready s"
  shows "\<exists>m. q12 n = Ret m \<and> last_pdu m = Some (NetJoin p) \<and>
    state m = (if successor n = None then Q5 else if la = (nj_max_address p, nj_max_port p) then Q13 else Q14) \<and>
    (\<forall>s. successor n = Some s \<longrightarrow> (\<exists>m' s' p'. q14 bld m = Ret m' \<and> state m' = Q6 \<and> successor m' = Some s' \<and>
      outbox s' = outbox s @ to_bytes (NetJoin p') \<and> nj_max_span p' = max (nj_max_span p) (hi - lo) \<and>
      get_src_socket_addr p' = get_src_socket_addr p \<and>
      get_max_socket_addr p' = (if nj_max_span p < hi - lo then V4 la else get_max_socket_addr p)))"
proof -
  let ?q = "if successor n = None then Q5 else if la = (nj_max_address p, nj_max_port p) then Q13 else Q14"
  let ?m = "n\<lparr>state := ?q\<rparr>"
  let ?p = "with_larger_span (hi - lo) la p"
  have "\<exists>m' s' p'. q14 bld ?m = Ret m' \<and> state m' = Q6 \<and> successor m' = Some s' \<and>
      outbox s' = outbox s @ to_bytes (NetJoin p') \<and> nj_max_span p' = max (nj_max_span p) (hi - lo) \<and>
      get_src_socket_addr p' = get_src_socket_addr p \<and>
      get_max_socket_addr p' = (if nj_max_span p < hi - lo then V4 la else get_max_socket_addr p)"
    if s: "successor n = Some s" for s
  proof -
    obtain s' where "q14 bld ?m = Ret (?m\<lparr>last_pdu := None, successor := Some s', state := Q6\<rparr>)"
      "outbox s' = outbox s @ to_bytes (NetJoin ?p)"
      using q14_forwards [of ?m p s lo hi la bld] assms s by auto
    moreover have "get_src_socket_addr ?p = get_src_socket_addr p"
      "get_max_socket_addr ?p = (if nj_max_span p < hi - lo then V4 la else get_max_socket_addr p)"
      by (auto simp: with_larger_span_def get_src_socket_addr_def get_max_socket_addr_def)
    ultimately show ?thesis using with_larger_span_max [of "hi - lo" la p] by fastforce
  qed
  then show ?thesis
    using q12_decides [OF assms(1,2)] assms(1) by (intro exI [of _ ?m]) simp
qed

theorem join_request_routed_witness:
  "\<exists>m m' s' p'. q12 (demo_node\<lparr>last_pdu := Some (NetJoin (NetJoinPdu_new 9 9 0 0 0))\<rparr>) = Ret m \<and>
     state m = Q14 \<and> q14 Release m = Ret m' \<and> successor m' = Some s' \<and>
     outbox s' = to_bytes (NetJoin p') \<and> nj_max_span p' = 255 \<and> get_max_socket_addr p' = V4 (0, 7000)"
proof -
  let ?n = "demo_node\<lparr>last_pdu := Some (NetJoin (NetJoinPdu_new 9 9 0 0 0))\<rparr>"
  have n: "last_pdu ?n = Some (NetJoin (NetJoinPdu_new 9 9 0 0 0))"
    "local_addr (listen_socket ?n) = Some (V4 (0, 7000))" "hash_range ?n = (0, 255)" "(0 :: u8) \<le> 255"
    "successor ?n = Some (demo_link (0x0A000002, 7001))"
    by (simp_all add: demo_node_def)
  have "\<And>s. successor ?n = Some s \<Longrightarrow> link_ready s" using n(5) demo_link_ready by simp
  from join_request_routed [OF n(1-4) this, of Release] n(5) show ?thesis
    by (auto simp: NetJoinPdu_new_def demo_link_ready max_def)
qed

text \<open>C20: When a neighbour that leaves asks, a node takes its range over: the new range is the union of
  the two, whether the neighbour is the successor, above, or the predecessor, below, no entry is
  touched, and the answer goes to that neighbour and says \<open>NET_NEW_RANGE_RESPONSE\<close>.\<close>

theorem range_taken_over:
  assumes "last_pdu n = Some (NetNewRange p)" "hash_range n = (lo, hi)" "lo \<le> hi"
    and "successor n = Some s" "predecessor n = Some r" "link_ready s" "link_ready r"
    and "adjacent (lo, hi) (nnr_range_start p, nnr_range_end p) \<or>
      adjacent (nnr_range_start p, nnr_range_end p) (lo, hi)"
  shows "\<exists>n' t. q15 bld n = Ret n' \<and> state n' = Q6 \<and> stored n' = stored n \<and>
    range_set (hash_range n') = range_set (lo, hi) \<union> range_set (nnr_range_start p, nnr_range_end p) \<and>
    link_stream (hi < nnr_range_start p) n' = Some t \<and>
    outbox t = outbox (if hi < nnr_range_start p then s else r) @
      to_bytes (NetNewRangeResponse NetNewRangeResponsePdu_new)"
proof -
  let ?r = "(lo, hi)" and ?r' = "(nnr_range_start p, nnr_range_end p)"
  note side = takeover_side [OF assms(3,8)]
  let ?t = "if hi < nnr_range_start p then s else r"
  have "link_stream (from_successor (hash_range n) p) n = Some ?t" "link_ready ?t"
    using assms(2,4-7) side(1) by (simp_all add: link_stream_def)
  from q15_takes_over [OF assms(1) this, of bld] obtain n' t where
    n': "q15 bld n = Ret n'" "state n' = Q6" "hash_range n' = taken_over ?r p" "stored n' = stored n"
    "link_stream (hi < nnr_range_start p) n' = Some t"
    "outbox t = outbox ?t @ to_bytes (NetNewRangeResponse NetNewRangeResponsePdu_new)"
    using assms(2) side(1) by auto
  then show ?thesis using takeover_union [OF assms(3,8)] by (metis (no_types))
qed

theorem range_taken_over_witness:
  "\<exists>n'. q15 Debug (demo_node\<lparr>hash_range := (0, 99), last_pdu := Some (NetNewRange (NetNewRangePdu_new 100 149))\<rparr>) = Ret n' \<and>
     range_set (hash_range n') = range_set (0, 99) \<union> range_set (100, 149)"
proof -
  let ?n = "demo_node\<lparr>hash_range := (0, 99), last_pdu := Some (NetNewRange (NetNewRangePdu_new 100 149))\<rparr>"
  have "last_pdu ?n = Some (NetNewRange (NetNewRangePdu_new 100 149))" "hash_range ?n = (0, 99)" "(0 :: u8) \<le> 99"
    "successor ?n = Some (demo_link (0x0A000002, 7001))" "predecessor ?n = Some (demo_link (0x0A000003, 50123))"
    by (simp_all add: demo_node_def)
  from range_taken_over [OF this demo_link_ready(1) demo_link_ready(1), of Debug] show ?thesis
    by (auto simp: NetNewRangePdu_new_def adjacent_def)
qed

text \<open>C2: A node that leaves sends all its entries to the neighbour that has taken its range over, its
  successor if its range starts at 0 and its predecessor otherwise, then a \<open>NET_CLOSE_CONNECTION\<close> to
  the successor and a \<open>NET_LEAVING\<close> with the successor's address to the predecessor, and stops
  without any entry; when a neighbour has read this, the successor is about to close its predecessor
  and the predecessor to connect to that address, the one that got the entries finds every number
  of the leaving node with the entry it had there, and both find all their own numbers as before.\<close>

theorem leave_hands_over:
  assumes "state n = Q18" "store_inv n" "hash_range n = (lo, hi)" "successor n = Some s" "predecessor n = Some r"
    and "link_ready s" "link_ready r" "outbox s = []" "outbox r = []" "successor_listen n = Some (V4 a)"
    and "list_all plain (stored n)"
  shows "\<exists>n' s' r'. q18 n = Ret n' \<and> \<not> running n' \<and> stored n' = [] \<and> successor n' = Some s' \<and>
    predecessor n' = Some r' \<and> is_shut s' \<and> is_shut r' \<and>
    outbox s' = concat (map (to_bytes \<circ> insert_of) (if lo = 0 then stored n else [])) @
      to_bytes (NetCloseConnection NetCloseConnectionPdu_new) \<and>
    outbox r' = concat (map (to_bytes \<circ> insert_of) (if lo = 0 then [] else stored n)) @
      to_bytes (NetLeaving (NetLeavingPdu_new (fst a) (snd a))) \<and>
    (\<forall>succ m x b chunks. link_stream succ m = Some x \<and> peer_addr x = Some b \<and> inbox x = map RData chunks \<and>
       concat chunks = outbox (if succ then r' else s') \<and> length (concat chunks) \<le> BUFFER_SIZE \<and>
       wf_wrapper (link_wrapper succ m) \<and> buffered (link_wrapper succ m) = [] \<and>
       queue_of (link_token succ) m = [] \<and> can_send m \<and> (succ = (lo \<noteq> 0) \<longrightarrow> owned n \<subseteq> owned m \<and>
       list_all (\<lambda>e. entry_hash e \<notin> owned n) (stored m)) \<longrightarrow>
       (\<exists>m'. handle_event (link_token succ) m = Ret m' \<and> hash_range m' = hash_range m \<and>
          state m' = (if succ then Q16 else Q17) \<and>
          (succ \<longrightarrow> last_pdu m' = Some (NetLeaving (NetLeavingPdu_new (fst a) (snd a)))) \<and>
          (\<forall>k. store_of m' k = (if succ = (lo \<noteq> 0) \<and> hash_ssn k \<in> owned n then store_of n k else store_of m k))))"
proof -
  obtain n' s' r' where n': "q18 n = Ret n'" "\<not> running n'" "stored n' = []" "successor n' = Some s'"
    "predecessor n' = Some r'" "is_shut s'" "is_shut r'"
    and s': "outbox s' = concat (map (to_bytes \<circ> insert_of) (if lo = 0 then stored n else [])) @
      to_bytes (NetCloseConnection NetCloseConnectionPdu_new)"
    and r': "outbox r' = concat (map (to_bytes \<circ> insert_of) (if lo = 0 then [] else stored n)) @
      to_bytes (NetLeaving (NetLeavingPdu_new (fst a) (snd a)))"
    using q18_leaves [OF assms(3-7,10,2,1)] assms(8,9) by (auto simp del: to_bytes.simps)
  have own: "entries_owned n" using assms(1,2) by (simp add: store_inv_def)
  have "\<exists>m'. handle_event (link_token succ) m = Ret m' \<and> hash_range m' = hash_range m \<and>
      state m' = (if succ then Q16 else Q17) \<and>
      (succ \<longrightarrow> last_pdu m' = Some (NetLeaving (NetLeavingPdu_new (fst a) (snd a)))) \<and>
      (\<forall>k. store_of m' k = (if succ = (lo \<noteq> 0) \<and> hash_ssn k \<in> owned n then store_of n k else store_of m k))"
    if "link_stream succ m = Some x" "peer_addr x = Some b" "inbox x = map RData chunks"
      "concat chunks = outbox (if succ then r' else s')" "length (concat chunks) \<le> BUFFER_SIZE"
      "wf_wrapper (link_wrapper succ m)" "buffered (link_wrapper succ m) = []"
      "queue_of (link_token succ) m = []" "can_send m"
      "succ = (lo \<noteq> 0) \<longrightarrow> owned n \<subseteq> owned m \<and> list_all (\<lambda>e. entry_hash e \<notin> owned n) (stored m)"
    for succ m x b chunks
  proof -
    let ?es = "if succ = (lo \<noteq> 0) then stored n else []"
    have bytes: "concat chunks = concat (map (to_bytes \<circ> insert_of) ?es) @ to_bytes (farewell succ a)"
      using that(4) s' r' by (simp add: farewell_def del: to_bytes.simps)
    have es: "list_all plain ?es" "list_all (\<lambda>e. entry_hash e \<in> owned m) ?es"
      using assms(11) own that(10) by (auto simp: entries_owned_def list_all_iff)
    have store: "(case store_of m k of Some e \<Rightarrow> Some e | None \<Rightarrow> first_entry k ?es) =
        (if succ = (lo \<noteq> 0) \<and> hash_ssn k \<in> owned n then store_of n k else store_of m k)" for k
      using store_after_leave [OF own] that(10) by (simp split: option.splits)
    show ?thesis
      using neighbour_after_leave [OF that(1-3) bytes that(5) es(1) that(6-9) es(2)]
      unfolding store by (auto simp: farewell_def)
  qed
  then show ?thesis using n' s' r' by blast
qed

text \<open>The demo node leaves; a neighbour without entries that has taken its range over reads it.\<close>

theorem leave_hands_over_witness:
  "\<exists>n' s'. q18 (demo_node\<lparr>state := Q18\<rparr>) = Ret n' \<and> \<not> running n' \<and> stored n' = [] \<and> successor n' = Some s' \<and>
    is_shut s' \<and> outbox s' = to_bytes (insert_of demo_entry) @ to_bytes (NetCloseConnection NetCloseConnectionPdu_new) \<and>
    (\<exists>m'. handle_event PREDECESSOR (demo_node\<lparr>stored := [],
       predecessor := Some ((demo_link (3, 3))\<lparr>inbox := [RData (outbox s')]\<rparr>)\<rparr>) = Ret m' \<and>
       state m' = Q17 \<and> store_of m' demo_ssn = Some demo_entry)"
proof -
  let ?n = "demo_node\<lparr>state := Q18\<rparr>"
  have n: "state ?n = Q18" "hash_range ?n = (0, 255)" "successor ?n = Some (demo_link (0x0A000002, 7001))"
    "predecessor ?n = Some (demo_link (0x0A000003, 50123))" "successor_listen ?n = Some (V4 (0x0A000002, 7001))"
    "list_all plain (stored ?n)"
    by (simp_all add: demo_node_def demo_plain)
  have inv: "store_inv ?n"
    by (simp add: store_defs demo_node_def range_set_def demo_entry_def entry_hash_def Entry_new_def demo_hash)
  obtain n' s' where r: "q18 ?n = Ret n'" "\<not> running n'" "stored n' = []" "successor n' = Some s'" "is_shut s'"
    "outbox s' = to_bytes (insert_of demo_entry) @ to_bytes (NetCloseConnection NetCloseConnectionPdu_new)" and
    all: "\<And>m x b chunks. link_stream False m = Some x \<Longrightarrow> peer_addr x = Some b \<Longrightarrow> inbox x = map RData chunks \<Longrightarrow>
       concat chunks = outbox s' \<Longrightarrow> length (concat chunks) \<le> BUFFER_SIZE \<Longrightarrow>
       wf_wrapper (link_wrapper False m) \<Longrightarrow> buffered (link_wrapper False m) = [] \<Longrightarrow>
       queue_of (link_token False) m = [] \<Longrightarrow> can_send m \<Longrightarrow> owned ?n \<subseteq> owned m \<Longrightarrow>
       list_all (\<lambda>e. entry_hash e \<notin> owned ?n) (stored m) \<Longrightarrow>
       \<exists>m'. handle_event (link_token False) m = Ret m' \<and> state m' = Q17 \<and>
          (\<forall>k. hash_ssn k \<in> owned ?n \<longrightarrow> store_of m' k = store_of ?n k)"
    using leave_hands_over [OF n(1) inv n(2-4) demo_link_ready(1) demo_link_ready(1) demo_link_ready(4) demo_link_ready(4) n(5,6)]
    by (fastforce simp: demo_node_def simp del: to_bytes.simps)
  let ?x = "(demo_link (3, 3))\<lparr>inbox := [RData (outbox s')]\<rparr>"
  let ?m = "demo_node\<lparr>stored := [], predecessor := Some ?x\<rparr>"
  have "insert_of demo_entry = demo_insert"
    by (simp add: insert_of_def demo_entry_def Entry_new_def demo_insert_def)
  then have len: "length (outbox s') \<le> BUFFER_SIZE"
    unfolding r(6) by (simp add: demo_bytes NetCloseConnectionPdu_to_vec_def BUFFER_SIZE_def)
  have "link_token False = PREDECESSOR" "hash_ssn demo_ssn \<in> owned ?n" "store_of ?n demo_ssn = Some demo_entry"
    by (simp_all add: link_token_def owned_def demo_node_def range_set_def demo_hash store_of_def demo_entry_def Entry_new_def)
  moreover have "link_stream False ?m = Some ?x" "peer_addr ?x = Some (V4 (3, 3))" "inbox ?x = map RData [outbox s']"
    "wf_wrapper (link_wrapper False ?m)" "buffered (link_wrapper False ?m) = []" "queue_of (link_token False) ?m = []"
    "can_send ?m" "owned ?n \<subseteq> owned ?m" "stored ?m = []"
    using demo_can_send by (simp_all add: link_stream_def link_wrapper_def demo_link_ready link_queue demo_node_def
        can_send_def owned_def)
  ultimately obtain m' where "handle_event PREDECESSOR ?m = Ret m'" "state m' = Q17" "store_of m' demo_ssn = Some demo_entry"
    using all [of ?m ?x "V4 (3, 3)" "[outbox s']"] len by auto
  then show ?thesis using r by blast
qed

section \<open>Requests that are lost\<close>

text \<open>C33: A join request that is handled in the pass in which the node is told to leave is dropped:
  the state it asked for is overwritten, it is neither answered nor passed on.\<close>

theorem close_drops_join:
  assumes "udp_idle n" "predecessor_rests n" "queue_of PREDECESSOR n = [(NetJoin p, a)]"
    and "tick_events t = [PREDECESSOR]" "tick_signal t"
  shows "\<exists>n'. q6 t n = Ret n' \<and> state n' = Q10 \<and> queue_of PREDECESSOR n' = [] \<and> successor n' = successor n \<and>
    hash_range n' = hash_range n \<and> sent_datagrams (udp_sock n') = sent_datagrams (udp_sock n) @ alive_due t n"
proof -
  obtain n1 where n1: "predecessor_wrapper n1 = predecessor_wrapper n" "successor n1 = successor n"
    "hash_range n1 = hash_range n" "syscalls n1 = []"
    "sent_datagrams (udp_sock n1) = sent_datagrams (udp_sock n) @ alive_due t n"
    "\<forall>m. drain PREDECESSOR n1 = Ret m \<and> syscalls m = [] \<longrightarrow> q6 t n = Ret (if should_close m \<or> tick_signal t
      then m\<lparr>should_close := True, state := Q10\<rparr> else m\<lparr>should_close := False\<rparr>)"
    using q6_predecessor_queue [OF assms(1,2,4)] by blast
  let ?m = "n1\<lparr>predecessor_wrapper := (predecessor_wrapper n1)\<lparr>incoming_queue := []\<rparr>,
    last_pdu := Some (NetJoin p), state := Q12\<rparr>"
  have q: "queue_of PREDECESSOR n1 = [(NetJoin p, a)]" "queue_of PREDECESSOR ?m = []"
    using assms(3) n1(1) by (simp_all add: queue_of_def wrapper_of_def UDP_def SUCCESSOR_def PREDECESSOR_def)
  have "drain PREDECESSOR n1 = Ret ?m" using drain_join [OF q(1)] drain_empty [OF q(2)] by simp
  then have "q6 t n = Ret (?m\<lparr>should_close := True, state := Q10\<rparr>)"
    using n1(4,6) assms(5) by simp
  then show ?thesis
    using n1(2,3,5) by (simp add: queue_of_def wrapper_of_def UDP_def SUCCESSOR_def PREDECESSOR_def)
qed

text \<open>The demo node with a join request from its predecessor.\<close>

definition demo_asked :: "message list \<Rightarrow> node" where
  "demo_asked ms = demo_node\<lparr>predecessor_wrapper := TcpWrapper_new\<lparr>incoming_queue := ms\<rparr>\<rparr>"

lemma demo_asked_facts: "udp_idle (demo_asked ms)" "predecessor_rests (demo_asked ms)"
  "queue_of PREDECESSOR (demo_asked ms) = ms" "can_send (demo_asked ms)"
  using TcpWrapper_new_facts UdpWrapper_new_facts demo_can_send
  by (auto simp: demo_asked_def demo_node_def udp_idle_def predecessor_rests_def demo_udp_ready queue_of_def
      wrapper_of_def UDP_def SUCCESSOR_def PREDECESSOR_def can_send_def owned_def demo_link_def
      wf_wrapper_def buffered_def)

theorem close_drops_join_witness:
  "\<exists>n'. q6 \<lparr>tick_elapsed = 1, tick_events = [PREDECESSOR], tick_signal = True\<rparr>
      (demo_asked [(NetJoin demo_join, V4 (1, 1))]) = Ret n' \<and> state n' = Q10 \<and> queue_of PREDECESSOR n' = []"
  using close_drops_join [OF demo_asked_facts(1-3), of "\<lparr>tick_elapsed = 1, tick_events = [PREDECESSOR], tick_signal = True\<rparr>"]
  by auto

text \<open>C34: A join request is dropped as well when a value PDU is behind it in the batch: the value is
  served as if it had come alone, the state goes back to \<open>q6\<close>, and nothing of the request is left.\<close>

theorem value_drops_join:
  assumes "udp_idle n" "predecessor_rests n" "can_send n" "is_value v"
    and "queue_of PREDECESSOR n = [(NetJoin p, a), (v, b)]"
    and "tick_events t = [PREDECESSOR]" "\<not> tick_signal t" "\<not> should_close n"
  shows "\<exists>n'. q6 t n = Ret n' \<and> state n' = Q6 \<and> last_pdu n' = None \<and> queue_of PREDECESSOR n' = [] \<and>
    abs_node n' = val_spec (owned n) v ((abs_node n)\<lparr>v_replies := v_replies (abs_node n) @ alive_due t n\<rparr>)"
proof -
  obtain n1 where n1: "predecessor_wrapper n1 = predecessor_wrapper n" "successor n1 = successor n"
    "hash_range n1 = hash_range n" "stored n1 = stored n" "udp_ready (udp_sock n1)" "syscalls n1 = []"
    "should_close n1 = should_close n"
    "sent_datagrams (udp_sock n1) = sent_datagrams (udp_sock n) @ alive_due t n"
    "\<forall>m. drain PREDECESSOR n1 = Ret m \<and> syscalls m = [] \<longrightarrow> q6 t n = Ret (if should_close m \<or> tick_signal t
      then m\<lparr>should_close := True, state := Q10\<rparr> else m\<lparr>should_close := False\<rparr>)"
    using q6_predecessor_queue [OF assms(1,2,6)] by blast
  let ?m = "n1\<lparr>predecessor_wrapper := (predecessor_wrapper n1)\<lparr>incoming_queue := [(v, b)]\<rparr>,
    last_pdu := Some (NetJoin p), state := Q12\<rparr>"
  have q: "queue_of PREDECESSOR n1 = [(NetJoin p, a), (v, b)]" "queue_of PREDECESSOR ?m = [(v, b)]"
    using assms(5) n1(1) by (simp_all add: queue_of_def wrapper_of_def UDP_def SUCCESSOR_def PREDECESSOR_def)
  have "can_send ?m" using assms(3) n1(2,3,5) by (simp add: can_send_def owned_def)
  moreover have "list_all (is_value \<circ> fst) (queue_of PREDECESSOR ?m)" unfolding q(2) using assms(4) by simp
  ultimately obtain m where m: "drain PREDECESSOR ?m = Ret m" "queue_of PREDECESSOR m = []"
    "abs_node m = fold (val_spec (owned ?m)) (map fst (queue_of PREDECESSOR ?m)) (abs_node ?m)"
    "state m = Q6 \<and> last_pdu m = None"
    using drain_refines [of ?m PREDECESSOR] q(2) by auto
  have d: "drain PREDECESSOR n1 = Ret m" using drain_join [OF q(1)] m(1) by simp
  from drain_syscalls [OF d] have "q6 t n = Ret (m\<lparr>should_close := False\<rparr>)"
    using n1(6,7,9) d assms(7,8) by simp
  moreover have "abs_node ?m = (abs_node n)\<lparr>v_replies := v_replies (abs_node n) @ alive_due t n\<rparr>" "owned ?m = owned n"
    using n1 by (simp_all add: abs_node_def store_of_eq owned_def)
  ultimately show ?thesis
    using m q(2) by (simp add: abs_node_def store_of_eq queue_of_def wrapper_of_def UDP_def
        SUCCESSOR_def PREDECESSOR_def)
qed

theorem value_drops_join_witness:
  "\<exists>n'. q6 \<lparr>tick_elapsed = 1, tick_events = [PREDECESSOR], tick_signal = False\<rparr>
      (demo_asked [(NetJoin demo_join, V4 (1, 1)), (demo_lookup, V4 (1, 1))]) = Ret n' \<and>
     state n' = Q6 \<and> last_pdu n' = None"
proof -
  have "is_value demo_lookup" "\<not> should_close (demo_asked ms)" for ms
    by (simp_all add: is_value_def demo_lookup_def demo_asked_def demo_node_def)
  then show ?thesis
    using value_drops_join [OF demo_asked_facts(1,2,4), of demo_lookup "[(NetJoin demo_join, V4 (1, 1)), (demo_lookup, V4 (1, 1))]"
        demo_join "V4 (1, 1)" "V4 (1, 1)" "\<lparr>tick_elapsed = 1, tick_events = [PREDECESSOR], tick_signal = False\<rparr>"]
      demo_asked_facts(3) by auto
qed

text \<open>C35: The entries that reach a joining node together with the answer to its join are not stored when
  it takes its range: they wait in the queue of the predecessor's wrapper.  However many passes
  follow, each without an event or with one datagram in which somebody looks up a number of that
  range, none of them is stored and none leaves the queue, and the node answers every one of these
  lookups, the only datagrams it sends besides its signs of life, as if it had no such number.\<close>

theorem joined_entries_wait:
  assumes "ready_to_join c ds b" "predecessor b = Some r" "peer_addr r = Some a" "inbox r = map RData cs"
    and "concat cs = join_bytes next lo hi es" "length (concat cs) \<le> BUFFER_SIZE" "list_all plain es"
    and "udp_idle b" "state b = Q8" "running b" "\<not> should_close b"
    and "list_all (\<lambda>(t, x). asks (range_set (lo, hi)) t x) ps"
    and "arrivals (udp_sock b) = concat (map (brings \<circ> snd) ps) @ ds'"
  shows "\<exists>b' out. run_node bld (t # map fst ps) b = Ret b' \<and> state b' = Q6 \<and> hash_range b' = (lo, hi) \<and>
    stored b' = [] \<and> queue_of PREDECESSOR b' = map (\<lambda>e. (insert_of e, a)) es \<and>
    sent_datagrams (udp_sock b') = sent_datagrams (udp_sock b) @ out \<and>
    answers out = concat (map (not_found \<circ> snd) ps)"
proof -
  have "cs \<noteq> []" using assms(5) join_bytes_nonempty [of "next" lo hi es] by auto
  then obtain b1 where b1: "q8 b = Ret b1" "state b1 = Q6" "hash_range b1 = (lo, hi)" "stored b1 = []"
    "queue_of PREDECESSOR b1 = map (\<lambda>e. (insert_of e, a)) es" "udp_sock b1 = udp_sock b"
    "successor b1 = Some (c\<lparr>peer_addr := Some (V4 next)\<rparr>)" "udp_wrapper b1 = udp_wrapper b"
    "syscalls b1 = syscalls b" "running b1 = running b" "should_close b1 = should_close b"
    using q8_takes_range [OF assms(2,4) _ assms(3,5,6,7)] assms(1) by (auto simp: ready_to_join_def)
  have idle: "udp_idle b1" "owned b1 = range_set (lo, hi)"
    using assms(8) b1(3,6,8,9) by (simp_all add: udp_idle_def owned_def)
  have "can_send b1"
    using b1(6,7) assms(1) by (simp add: can_send_def ready_to_join_def offers_def link_ready_def writable_def)
  from run_unanswered [OF idle(1) this _ b1(2) _ b1(4), of ps ds' bld] obtain b' out where
    b': "run_node bld (map fst ps) b1 = Ret b'" "state b' = Q6" "stored b' = []" "hash_range b' = hash_range b1"
    "predecessor_wrapper b' = predecessor_wrapper b1"
    "sent_datagrams (udp_sock b') = sent_datagrams (udp_sock b1) @ out" "answers out = concat (map (not_found \<circ> snd) ps)"
    using b1(6,10,11) assms(10-13) idle(2) by auto
  have "run_node bld (t # map fst ps) b = Ret b'"
    using assms(9,10) b1(1) b'(1) by (simp add: node_step_def)
  moreover have "queue_of PREDECESSOR b' = queue_of PREDECESSOR b1"
    using b'(5) by (simp add: queue_of_def wrapper_of_def UDP_def SUCCESSOR_def PREDECESSOR_def)
  ultimately show ?thesis using b1(3,5,6) b' by auto
qed

text \<open>The new node owns the number 17 and is asked for it twice, with a quiet pass between.\<close>

theorem joined_entries_wait_witness:
  "\<exists>b' out. run_node Debug [demo_tick, demo_tick, demo_tick\<lparr>tick_events := []\<rparr>, demo_tick]
      (demo_joiner\<lparr>predecessor := Some ((demo_link (3, 3))\<lparr>inbox :=
         map RData [join_bytes (0x0A000002, 7001) 0 127 [demo_entry]]\<rparr>),
       udp_sock := demo_udp\<lparr>arrivals := [Datagram (to_bytes demo_lookup) (V4 (1, 1)), DWouldBlock,
         Datagram (to_bytes demo_lookup) (V4 (1, 1)), DWouldBlock]\<rparr>\<rparr>) = Ret b' \<and>
     stored b' = [] \<and> queue_of PREDECESSOR b' = [(insert_of demo_entry, V4 (3, 3))] \<and>
     sent_datagrams (udp_sock b') = out \<and> map snd (answers out) =
       replicate 2 (to_bytes (ValLookupResponse (lookup_reply None)))"
proof -
  let ?r = "(demo_link (3, 3))\<lparr>inbox := map RData [join_bytes (0x0A000002, 7001) 0 127 [demo_entry]]\<rparr>"
  let ?d = "Datagram (to_bytes demo_lookup) (V4 (1, 1))"
  let ?b = "demo_joiner\<lparr>predecessor := Some ?r, udp_sock := demo_udp\<lparr>arrivals := [?d, DWouldBlock, ?d, DWouldBlock]\<rparr>\<rparr>"
  obtain q where q: "demo_lookup = ValLookup q" "vl_ssn q = demo_ssn"
    by (simp add: demo_lookup_def ValLookupPdu_new_def)
  let ?ps = "[(demo_tick, Some (q, V4 (1, 1))), (demo_tick\<lparr>tick_events := []\<rparr>, None), (demo_tick, Some (q, V4 (1, 1)))]"
  have b: "ready_to_join (demo_link (0x0A000002, 7001)) [] ?b" "udp_idle ?b" "state ?b = Q8" "running ?b"
    "\<not> should_close ?b" "sent_datagrams (udp_sock ?b) = []"
    using demo_ready_to_join UdpWrapper_new_facts by (simp_all add: ready_to_join_def offers_def queue_of_def wrapper_of_def
        UDP_def SUCCESSOR_def PREDECESSOR_def udp_idle_def demo_joiner_def demo_start_def demo_udp_def udp_ready_def)
  have "insert_of demo_entry = demo_insert"
    by (simp add: insert_of_def demo_entry_def Entry_new_def demo_insert_def)
  then have len: "length (concat [join_bytes (0x0A000002, 7001) 0 127 [demo_entry]]) \<le> BUFFER_SIZE"
    by (simp add: join_bytes_def demo_bytes NetJoinResponsePdu_to_vec_def BUFFER_SIZE_def)
  have ps: "list_all (\<lambda>(t, x). asks (range_set (0, 127)) t x) ?ps"
    "arrivals (udp_sock ?b) = concat (map (brings \<circ> snd) ?ps) @ []"
    using q demo_sendable(2) by (simp_all add: asks_def brings_def demo_tick_def demo_hash range_set_def del: to_bytes.simps)
  from joined_entries_wait [OF b(1) _ _ _ _ len _ b(2-5) ps, of ?r "V4 (3, 3)" "(0x0A000002, 7001)" "[demo_entry]" Debug demo_tick]
  show ?thesis
    using b(6) demo_plain by (auto simp: demo_link_ready not_found_def numeral_2_eq_2 simp del: to_bytes.simps run_node.simps)
qed

section \<open>Signs of life and strangers\<close>

text \<open>A node tells its tracker that it is alive, with one \<open>NET_ALIVE\<close> datagram, in the first idle pass
  that starts at least eleven seconds after the last time, and in no earlier one.\<close>

theorem alive_every_eleven_seconds:
  assumes "udp_idle n"
  shows "\<exists>n'. send_alive n = Ret n' \<and> sent_datagrams (udp_sock n') = sent_datagrams (udp_sock n) @
      (if secs 11 \<le> now n - last_alive n then [(tracker_addr n, [NET_ALIVE_ID])] else []) \<and>
    last_alive n' = (if secs 11 \<le> now n - last_alive n then now n else last_alive n)"
proof -
  have "elapsed_secs (now n) (last_alive n) > 10 \<longleftrightarrow> secs 11 \<le> now n - last_alive n"
    by (simp add: elapsed_secs_def secs_def) linarith
  moreover have "to_bytes (NetAlive NetAlivePdu_new) = [NET_ALIVE_ID]"
    by (simp add: NetAlivePdu_to_vec_def NetAlivePdu_new_def)
  ultimately show ?thesis using send_alive_idle [OF assms] by auto
qed

theorem alive_every_eleven_seconds_witness:
  "\<exists>n'. send_alive (demo_node\<lparr>now := secs 12\<rparr>) = Ret n' \<and>
     sent_datagrams (udp_sock n') = [(V4 (0x0A0000FF, 9999), [NET_ALIVE_ID])]"
proof -
  have "udp_idle (demo_node\<lparr>now := secs 12\<rparr>)"
    by (simp add: udp_idle_def demo_node_def demo_udp_ready)
  from alive_every_eleven_seconds [OF this] show ?thesis
    by (auto simp: demo_node_def demo_udp_def secs_def)
qed

text \<open>The demo node with something to read.\<close>

definition demo_strange :: "u8 list \<Rightarrow> node" where
  "demo_strange bs = demo_node\<lparr>udp_sock := demo_udp\<lparr>arrivals := [Datagram bs (V4 (6, 6)), DWouldBlock]\<rparr>\<rparr>"

lemma demo_strange_facts: "udp_idle (demo_strange bs)" "running (demo_strange bs)" "state (demo_strange bs) = Q6"
  "\<not> should_close (demo_strange bs)" "arrivals (udp_sock (demo_strange bs)) = [Datagram bs (V4 (6, 6)), DWouldBlock]"
  "tick_events demo_tick = [UDP]" "\<not> tick_signal demo_tick" "hash_range (demo_strange bs) = (0, 255)"
  "predecessor (demo_strange bs) = Some (demo_link (0x0A000003, 50123))" "stored (demo_strange bs) = [demo_entry]"
  by (simp_all add: demo_strange_def demo_tick_def demo_node_def udp_idle_def udp_ready_def demo_udp_def)

text \<open>C31: Anyone can stop an idle node with one datagram: an unknown type byte makes the parser panic,
  a \<open>NET_CLOSE_CONNECTION\<close> is refused with a panic, and a \<open>NET_NEW_RANGE\<close> makes a node that has no
  neighbour on the side the new range points to unwrap a stream it does not have, in the pass after.\<close>

theorem strangers_stop_node:
  assumes "udp_idle n" "running n" "state n = Q6" "\<not> should_close n" "tick_events t = [UDP]" "\<not> tick_signal t"
    and "arrivals (udp_sock n) = Datagram bs a # DWouldBlock # ds" "length bs \<le> BUFFER_SIZE"
  shows "(bs \<noteq> [] \<and> hd bs \<notin> set pdu_ids \<longrightarrow> run_node bld (t # ts) n = Panic (InvalidPdu bs)) \<and>
    (bs = to_bytes (NetCloseConnection NetCloseConnectionPdu_new) \<longrightarrow> run_node bld (t # ts) n = Panic IllegalClose) \<and>
    (bs = to_bytes (NetNewRange (NetNewRangePdu_new lo hi)) \<and>
      link_stream (from_successor (hash_range n) (NetNewRangePdu_new lo hi)) n = None \<longrightarrow>
      run_node bld (t # t' # ts) n = Panic UnwrapNone)"
proof -
  have open': "udp_open n" "buffered (udp_wrapper n) = []" "wf_wrapper (udp_wrapper n)"
    using assms(1) by (simp_all add: udp_idle_open udp_open_def)
  have fs: "length bs \<le> free_space (udp_wrapper n)"
    using assms(8) open'(2) length_buffered [OF open'(3)] by (simp add: free_space_def)
  have step: "run_node bld (t # us) n = obind (q6 t n) (run_node bld us)" for us
    using assms(2,3) by (simp add: node_step_def)
  have "q6 t n = Panic (InvalidPdu bs)" if "bs \<noteq> []" "hd bs \<notin> set pdu_ids"
  proof (rule q6_panics [OF open'(1) assms(5) fs assms(7)])
    have "parse_pdu bs = Panic (InvalidPdu bs)" using that by (simp add: parse_pdu_Panic_iff)
    then show "parse_loop (Ret a) (filled (udp_wrapper n) bs) = Panic (InvalidPdu bs)"
      using filled_facts [OF open'(3) fs] open'(2) by (simp add: parse_loop_eq)
  qed
  moreover have "q6 t n = Panic IllegalClose" if "bs = to_bytes (NetCloseConnection NetCloseConnectionPdu_new)"
    using q6_refuses_close [OF assms(1,5)] assms(7) that by blast
  moreover have "run_node bld (t # t' # ts) n = Panic UnwrapNone"
    if "bs = to_bytes (NetNewRange (NetNewRangePdu_new lo hi))"
      "link_stream (from_successor (hash_range n) (NetNewRangePdu_new lo hi)) n = None"
  proof -
    let ?p = "NetNewRangePdu_new lo hi"
    have arr: "arrivals (udp_sock n) = Datagram (to_bytes (NetNewRange ?p)) a # DWouldBlock # ds"
      using assms(7) that(1) by simp
    obtain la u w where q6: "q6 t n = Ret (n\<lparr>now := now n + tick_elapsed t, last_alive := la, udp_sock := u,
        udp_wrapper := w, last_pdu := Some (NetNewRange ?p), state := Q15, should_close := False\<rparr>)"
      using q6_takes_new_range [OF assms(1,5,6,4) arr] by blast
    let ?n = "n\<lparr>now := now n + tick_elapsed t, last_alive := la, udp_sock := u,
        udp_wrapper := w, last_pdu := Some (NetNewRange ?p), state := Q15, should_close := False\<rparr>"
    have "link_stream (from_successor (hash_range ?n) ?p) ?n = None"
      using that(2) by (cases "from_successor (hash_range n) ?p") (simp_all add: link_stream_def)
    then have "q15 bld ?n = Panic UnwrapNone" by (intro q15_no_stream) simp_all
    then show ?thesis unfolding step q6 using assms(2) by (simp add: node_step_def)
  qed
  ultimately show ?thesis by (simp add: step del: run_node.simps to_bytes.simps)
qed

theorem strangers_stop_node_witness:
  "run_node Debug [demo_tick] (demo_strange [9]) = Panic (InvalidPdu [9]) \<and>
   run_node Debug [demo_tick] (demo_strange (to_bytes (NetCloseConnection NetCloseConnectionPdu_new))) = Panic IllegalClose \<and>
   run_node Debug [demo_tick, demo_tick] ((demo_strange (to_bytes (NetNewRange (NetNewRangePdu_new 3 4))))\<lparr>predecessor := None\<rparr>) =
     Panic UnwrapNone"
proof -
  note s = strangers_stop_node [OF demo_strange_facts(1-4) demo_strange_facts(6,7,5), where bld = Debug and ts = "[]"]
  let ?new = "to_bytes (NetNewRange (NetNewRangePdu_new 3 4))"
  let ?n = "(demo_strange ?new)\<lparr>predecessor := None\<rparr>"
  have "udp_idle ?n" "running ?n" "state ?n = Q6" "\<not> should_close ?n"
    "arrivals (udp_sock ?n) = [Datagram ?new (V4 (6, 6)), DWouldBlock]"
    using demo_strange_facts(1-5) [of ?new] by (simp_all add: udp_idle_def)
  moreover have "length ?new \<le> BUFFER_SIZE"
    "length (to_bytes (NetCloseConnection NetCloseConnectionPdu_new)) \<le> BUFFER_SIZE"
    by (simp_all add: NetNewRangePdu_new_def NetNewRangePdu_to_vec_def NetCloseConnectionPdu_to_vec_def BUFFER_SIZE_def)
  moreover have "link_stream (from_successor (hash_range ?n) (NetNewRangePdu_new 3 4)) ?n = None"
    by (simp add: link_stream_def from_successor_def demo_strange_facts)
  ultimately show ?thesis
    using s [where bs = "[9]"] s [where bs = "to_bytes (NetCloseConnection NetCloseConnectionPdu_new)"]
      strangers_stop_node [where n = ?n and t = demo_tick and bs = ?new and a = "V4 (6, 6)" and ds = "[]"
        and bld = Debug and ts = "[]" and lo = 3 and hi = 4 and t' = demo_tick] demo_strange_facts(6,7)
    by (simp add: pdu_ids_def BUFFER_SIZE_def del: run_node.simps to_bytes.simps)
qed

text \<open>C29: Nor does a node check who sends a \<open>NET_NEW_RANGE\<close>: one such datagram from anyone makes an
  idle node take whatever the datagram says for the end of its range, if the range in the datagram begins
  right behind its own, and for the start of its range otherwise, without touching an entry, and answer
  to its neighbour on that side.\<close>

theorem strangers_set_range:
  assumes "udp_idle n" "running n" "state n = Q6" "\<not> should_close n" "tick_events t = [UDP]" "\<not> tick_signal t"
    and "arrivals (udp_sock n) = Datagram (to_bytes (NetNewRange p)) a # DWouldBlock # ds"
    and "p = NetNewRangePdu_new lo hi" "hash_range n = (rmin, rmax)" "side \<longleftrightarrow> rmax \<noteq> 255 \<and> lo = rmax + 1"
    and "link_stream side n = Some s" "link_ready s"
  shows "\<exists>n' s'. run_node bld [t, t'] n = Ret n' \<and> state n' = Q6 \<and> stored n' = stored n \<and>
    hash_range n' = (if side then (rmin, hi) else (lo, rmax)) \<and> link_stream side n' = Some s' \<and>
    outbox s' = outbox s @ to_bytes (NetNewRangeResponse NetNewRangeResponsePdu_new)"
proof -
  obtain la u w where q6: "q6 t n = Ret (n\<lparr>now := now n + tick_elapsed t, last_alive := la, udp_sock := u,
      udp_wrapper := w, last_pdu := Some (NetNewRange p), state := Q15, should_close := False\<rparr>)"
    using q6_takes_new_range [OF assms(1,5,6,4)] assms(7,8) by blast
  let ?n = "n\<lparr>now := now n + tick_elapsed t, last_alive := la, udp_sock := u,
      udp_wrapper := w, last_pdu := Some (NetNewRange p), state := Q15, should_close := False\<rparr>"
  have side: "from_successor (hash_range ?n) p = side" "taken_over (hash_range ?n) p = (if side then (rmin, hi) else (lo, rmax))"
    using assms(8-10) by (simp_all add: from_successor_def taken_over_def NetNewRangePdu_new_def)
  moreover have "link_stream side ?n = Some s" using assms(11) by (cases side) (simp_all add: link_stream_def)
  ultimately obtain n' s' where "q15 bld ?n = Ret n'" "state n' = Q6" "hash_range n' = (if side then (rmin, hi) else (lo, rmax))"
    "stored n' = stored n" "link_stream side n' = Some s'"
    "outbox s' = outbox s @ to_bytes (NetNewRangeResponse NetNewRangeResponsePdu_new)"
    using q15_takes_over [of ?n p s bld] assms(12) by auto
  then show ?thesis
    using q6 assms(2,3) by (intro exI [of _ n'] exI [of _ s']) (simp add: node_step_def del: to_bytes.simps)
qed

theorem strangers_set_range_witness:
  "\<exists>n'. run_node Debug [demo_tick, demo_tick] (demo_strange (to_bytes (NetNewRange (NetNewRangePdu_new 200 100)))) = Ret n' \<and>
     hash_range n' = (200, 255) \<and> stored n' = [demo_entry]"
proof -
  let ?p = "NetNewRangePdu_new 200 100"
  let ?n = "demo_strange (to_bytes (NetNewRange ?p))"
  have "link_stream False ?n = Some (demo_link (0x0A000003, 50123))" by (simp add: link_stream_def demo_strange_facts)
  from strangers_set_range [OF demo_strange_facts(1-4) demo_strange_facts(6,7,5) refl demo_strange_facts(8) _ this demo_link_ready(1), of Debug]
  show ?thesis by (auto simp: demo_strange_facts)
qed

end
