(* ===== verification/Ring_Properties.thy ===== *)
theory Ring_Properties
  imports Ring Ring_Ranges Node_Properties
begin

text \<open>
  The properties of a ring of nodes: where a value ends up, which node lets a new one in, and
  when none does.
\<close>

text \<open>C6: In a ring whose nodes own every hash between them, a value PDU that a client sends to any
  node reaches the first node, in the order of the ring, whose range has its hash, which serves it; the
  nodes before it change nothing but their streams, on which they pass its bytes on, and the nodes
  behind it never see it.\<close>

theorem value_reaches_owner:
  assumes "asked t p n" "is_value p" "list_all ring_node ns" "owned n \<union> (\<Union>m \<in> set ns. owned m) = UNIV"
  shows "\<exists>n' ns' v. tour bld t n ns = Ret (n', ns') \<and>
    v = (abs_node n)\<lparr>v_replies := v_replies (abs_node n) @ alive_due t n\<rparr> \<and>
    (if hash_ssn (value_ssn p) \<in> owned n then abs_node n' = serve_value p v \<and> ns' = ns
     else abs_node n' = v\<lparr>v_forwarded := to_bytes p\<rparr> \<and>
       (\<exists>as b cs as' b'. ns = as @ b # cs \<and> ns' = as' @ b' # cs \<and>
         list_all (\<lambda>a. hash_ssn (value_ssn p) \<notin> owned a) as \<and> hash_ssn (value_ssn p) \<in> owned b \<and>
         abs_node b' = serve_value p (abs_node b) \<and>
         list_all2 (\<lambda>a a'. abs_node a' = (abs_node a)\<lparr>v_forwarded := to_bytes p\<rparr>) as as'))"
proof -
  let ?h = "hash_ssn (value_ssn p)"
  let ?v = "(abs_node n)\<lparr>v_replies := v_replies (abs_node n) @ alive_due t n\<rparr>"
  obtain n' where n': "enter bld t n = Ret n'" "abs_node n' = val_spec (owned n) p ?v"
    "put_out n' = (if ?h \<in> owned n then [] else to_bytes p)"
    using value_enters [OF assms(1,2)] by blast
  show ?thesis
  proof (cases "?h \<in> owned n")
    case True
    then have "tour bld t n ns = Ret (n', ns)" using n'(1,3) by (simp add: tour_def)
    then show ?thesis using True n'(2) by (simp add: val_spec_def)
  next
    case False
    then have "\<exists>b \<in> set ns. ?h \<in> owned b" using assms(4) by blast
    then obtain as b cs where ns: "ns = as @ b # cs" "?h \<in> owned b" "\<forall>a \<in> set as. ?h \<notin> owned a"
      using split_list_first_prop [of ns "\<lambda>b. ?h \<in> owned b"] by blast
    then have as: "list_all (\<lambda>a. ?h \<notin> owned a) as" by (simp add: list_all_iff)
    have "list_all ring_node (as @ [b])" "sendable p" using assms(1,3) ns(1) by (simp_all add: asked_def)
    from relay_value [OF this(1) assms(2) this(2) as ns(2), of bld t cs] obtain as' b' where
      r: "relay bld t (to_bytes p) ns = Ret (as' @ b' # cs)" "abs_node b' = serve_value p (abs_node b)"
      "list_all2 (\<lambda>a a'. abs_node a' = (abs_node a)\<lparr>v_forwarded := to_bytes p\<rparr>) as as'"
      using ns(1) by blast
    have "tour bld t n ns = Ret (n', as' @ b' # cs)" using n'(1,3) False r(1) by (simp add: tour_def)
    moreover have "v_forwarded ?v = []"
      using assms(1) by (auto simp: asked_def ring_node_def abs_node_def)
    then have "abs_node n' = ?v\<lparr>v_forwarded := to_bytes p\<rparr>" using n'(2) False by (simp add: val_spec_def)
    moreover have "\<exists>as1 b1 cs1 as2 b2. ns = as1 @ b1 # cs1 \<and> as' @ b' # cs = as2 @ b2 # cs1 \<and>
         list_all (\<lambda>a. ?h \<notin> owned a) as1 \<and> ?h \<in> owned b1 \<and> abs_node b2 = serve_value p (abs_node b1) \<and>
         list_all2 (\<lambda>a a'. abs_node a' = (abs_node a)\<lparr>v_forwarded := to_bytes p\<rparr>) as1 as2"
      using ns(1,2) as r(2,3) by blast
    ultimately show ?thesis using False by simp
  qed
qed

text \<open>A ring of two nodes, the first of which is asked.\<close>

definition demo_upper :: node where
  "demo_upper = demo_node\<lparr>hash_range := (129, 255)\<rparr>"

definition demo_lower :: node where
  "demo_lower = demo_node\<lparr>hash_range := (0, 128), listen_socket := \<lparr>local_addr = Some (V4 (0, 7001)), accepts = []\<rparr>\<rparr>"

definition demo_gets :: "PDU \<Rightarrow> node \<Rightarrow> node" where
  "demo_gets p n = n\<lparr>udp_sock := demo_udp\<lparr>arrivals := [Datagram (to_bytes p) (V4 (9, 9)), DWouldBlock]\<rparr>\<rparr>"

lemma demo_ring: "ring_node demo_node"
  using TcpWrapper_new_facts by (simp add: ring_node_def demo_node_def predecessor_rests_def demo_udp_ready queue_of_def
      wrapper_of_def UDP_def SUCCESSOR_def PREDECESSOR_def demo_link_ready wf_wrapper_def buffered_def)

lemma demo_ring_nodes: "ring_node demo_upper" "ring_node demo_lower" "owned demo_upper \<union> owned demo_lower = UNIV"
proof -
  show "ring_node demo_upper" "ring_node demo_lower" using demo_ring
    by (simp_all add: demo_upper_def demo_lower_def ring_node_def predecessor_rests_def queue_of_def
      wrapper_of_def UDP_def SUCCESSOR_def PREDECESSOR_def)
  have "range_set (0, 255) = range_set (0, 128) \<union> range_set (129, 255 :: u8)"
    using range_set_split [of 0 128 255] by simp
  moreover have "h \<le> 255" for h :: u8 using unat_u8_less [of h] by (simp add: word_le_nat_alt)
  then have "range_set (0, 255) = UNIV" by (auto simp: range_set_def)
  ultimately show "owned demo_upper \<union> owned demo_lower = UNIV"
    by (auto simp: owned_def demo_upper_def demo_lower_def)
qed

lemma demo_gets_asked:
  assumes "ring_node n" "udp_idle n" "\<not> should_close n" "sendable p"
  shows "asked demo_tick p (demo_gets p n)"
  using assms demo_udp_ready by (auto simp: asked_def demo_gets_def demo_tick_def ring_node_def udp_idle_def udp_ready_def
      predecessor_rests_def queue_of_def wrapper_of_def UDP_def SUCCESSOR_def PREDECESSOR_def)

lemma demo_asked_ring: "sendable p \<Longrightarrow> asked demo_tick p (demo_gets p demo_upper)"
  using demo_ring_nodes(1) UdpWrapper_new_facts
  by (intro demo_gets_asked) (simp_all add: demo_upper_def demo_node_def udp_idle_def demo_udp_ready wf_wrapper_def buffered_def)

lemma demo_lookup_sendable: "sendable demo_lookup"
  using demo_plain by (simp add: plain_def demo_entry_def Entry_new_def sendable_def wf_pdu_def demo_lookup_def
      ValLookupPdu_new_def ValLookupPdu_ok_def ascii_latin1 ValLookupPdu_to_vec_def BUFFER_SIZE_def pdu_consts)

theorem value_reaches_owner_witness:
  "\<exists>n' b'. tour Debug demo_tick (demo_gets demo_lookup demo_upper) [demo_lower] = Ret (n', [b']) \<and>
     put_out n' = to_bytes demo_lookup \<and>
     sent_datagrams (udp_sock b') = [(V4 (0x7F000001, 4711), to_bytes (ValLookupResponse
       (ValLookupResponsePdu_new demo_ssn [65, 100, 97] [97, 64, 98])))]"
proof -
  let ?n = "demo_gets demo_lookup demo_upper"
  have own: "owned ?n \<union> (\<Union>m \<in> set [demo_lower]. owned m) = UNIV"
    using demo_ring_nodes(3) by (simp add: owned_def demo_gets_def)
  have v: "is_value demo_lookup" "value_ssn demo_lookup = demo_ssn"
    by (simp_all add: is_value_def demo_lookup_def ValLookupPdu_new_def)
  have h: "hash_ssn (value_ssn demo_lookup) \<notin> owned ?n"
    by (simp add: v(2) demo_hash owned_def range_set_def demo_gets_def demo_upper_def)
  have r: "list_all ring_node [demo_lower]" using demo_ring_nodes(2) by simp
  from value_reaches_owner [OF demo_asked_ring [OF demo_lookup_sendable] v(1) r own, of Debug] obtain n' ns' v where
    "tour Debug demo_tick ?n [demo_lower] = Ret (n', ns')" "abs_node n' = v\<lparr>v_forwarded := to_bytes demo_lookup\<rparr>"
    "\<exists>as b cs as' b'. [demo_lower] = as @ b # cs \<and> ns' = as' @ b' # cs \<and>
       list_all (\<lambda>a. hash_ssn (value_ssn demo_lookup) \<notin> owned a) as \<and> hash_ssn (value_ssn demo_lookup) \<in> owned b \<and>
       abs_node b' = serve_value demo_lookup (abs_node b) \<and>
       list_all2 (\<lambda>a a'. abs_node a' = (abs_node a)\<lparr>v_forwarded := to_bytes demo_lookup\<rparr>) as as'"
    unfolding if_not_P [OF h] by blast
  then have n': "tour Debug demo_tick ?n [demo_lower] = Ret (n', ns')" "v_forwarded (abs_node n') = to_bytes demo_lookup"
    "\<exists>as b cs as' b'. [demo_lower] = as @ b # cs \<and> ns' = as' @ b' # cs \<and>
       abs_node b' = serve_value demo_lookup (abs_node b) \<and>
       list_all2 (\<lambda>a a'. abs_node a' = (abs_node a)\<lparr>v_forwarded := to_bytes demo_lookup\<rparr>) as as'"
    by (simp_all del: to_bytes.simps) blast
  then obtain b' where b': "ns' = [b']" "abs_node b' = serve_value demo_lookup (abs_node demo_lower)"
    by (auto simp: Cons_eq_append_conv)
  have "v_replies (abs_node b') = [(V4 (0x7F000001, 4711), to_bytes (ValLookupResponse
       (ValLookupResponsePdu_new demo_ssn [65, 100, 97] [97, 64, 98])))]"
    unfolding b'(2) by (simp add: demo_lookup_def ValLookupPdu_new_def abs_node_def demo_lower_def
        demo_node_def demo_udp_def store_of_def demo_entry_def Entry_new_def lookup_reply_def)
  then show ?thesis using n'(1,2) b'(1) by (simp add: abs_node_def put_out_def)
qed

text \<open>C4: A join request that a new node sends to any node of a ring goes round once and collects the
  span and the listen address of the first node with the widest range, and in the second round it is
  that node, and no other, that lets the new node in: it halves its range, connects to the new node
  and sends it the upper half with its entries, and its old successor's address; the nodes before it
  only pass the request on and keep ranges and entries.  All listen addresses are different, as
  they are on one host.\<close>

theorem join_finds_widest:
  assumes "list_all in_ring (n # ns)" "distinct (map listens (n # ns))" "n # ns = as @ w # bs"
    and "\<forall>a \<in> set as. span a < span w" "\<forall>b \<in> set bs. span b \<le> span w" "0 < span w"
    and "asked t (NetJoin (NetJoinPdu_new ip port 0 0 0)) n"
    and "successor w = Some s" "peer_addr s = Some (V4 old)" "offers c cs w" "outbox c = []" "hash_range w = (lo, hi)"
  shows "\<exists>n' ns' as' w' bs' q as'' w'' c'.
    tour bld t n ns = Ret (n', ns') \<and> n' # ns' = as' @ w' # bs' \<and> list_all2 passed_on as as' \<and> list_all2 passed_on bs bs' \<and>
    put_out (last (n' # ns')) = to_bytes (NetJoin q) \<and> q = NetJoinPdu_new ip port (span w) (fst (listens w)) (snd (listens w)) \<and>
    relay bld t (to_bytes (NetJoin q)) (map delivered as' @ [delivered w']) = Ret (as'' @ [w'']) \<and> list_all2 passed_on as as'' \<and>
    state w'' = Q6 \<and> hash_range w'' = (lo, split_point lo hi) \<and> successor w'' = Some c' \<and> peer_addr c' = Some (V4 (ip, port)) \<and>
    stored w'' = kept (split_point lo hi + 1) hi (stored w) \<and>
    outbox c' = join_bytes old (split_point lo hi + 1) hi (moved (split_point lo hi + 1) hi (stored w))"
proof -
  let ?p = "NetJoinPdu_new ip port 0 0 0"
  let ?q = "NetJoinPdu_new ip port (span w) (fst (listens w)) (snd (listens w))"
  have p: "nj_pdu_type ?p = NET_JOIN_ID" "carried ?p = (0, 0)" "nj_max_span ?p = 0" "found w ?p = ?q"
    by (simp_all add: NetJoinPdu_new_def carried_def)
  have q: "nj_pdu_type ?q = NET_JOIN_ID" "carried ?q = listens w" "nj_max_span ?q = span w" "get_src_socket_addr ?q = V4 (ip, port)"
    by (simp_all add: NetJoinPdu_new_def carried_def get_src_socket_addr_def)
  from join_first_round [OF assms(1,2,7) p(1,2), of bld] obtain n' ns' where
    tour: "tour bld t n ns = Ret (n', ns')" "list_all2 passed_on (n # ns) (n' # ns')"
    and out: "put_out (last (n' # ns')) = to_bytes (NetJoin (fold collect (n # ns) ?p))" by blast
  have q': "fold collect (n # ns) ?p = ?q"
    using fold_collect_widest [OF assms(4,5), of ?p] assms(3,6) p(3,4) by simp
  obtain as' w' bs' where split: "n' # ns' = as' @ w' # bs'" "list_all2 passed_on as as'" "passed_on w w'"
    "list_all2 passed_on bs bs'"
    using tour(2) unfolding assms(3) by (auto simp: list_all2_append1 list_all2_Cons1)
  have "distinct (map listens as)" "listens w \<notin> listens ` set as" "\<forall>a \<in> set as. span a \<le> nj_max_span ?q"
    using assms(2,4) q(3) unfolding assms(3) by (auto simp: less_imp_le)
  moreover have "in_ring w" using assms(1) unfolding assms(3) by simp
  then have "lo < hi" using assms(6,12) by (auto simp: span_def in_ring_def le_less)
  ultimately show ?thesis
    using join_second_round [OF split(2,3) _ _ _ q(2,1) assms(8-12), of bld t] tour(1) split out q(4)
    unfolding q' by metis
qed

definition demo_door :: node where
  "demo_door = demo_lower\<lparr>connects := [Some (demo_link (0x0A000009, 7009))]\<rparr>"

lemma demo_in_ring:
  "in_ring (demo_gets p demo_upper)" "in_ring demo_door" "listens (demo_gets p demo_upper) = (0, 7000)"
  "listens demo_door = (0, 7001)" "span (demo_gets p demo_upper) = 126" "span demo_door = 128"
  using demo_ring_nodes(1,2) demo_udp_ready
  by (auto simp: in_ring_def ring_node_def predecessor_rests_def queue_of_def wrapper_of_def UDP_def SUCCESSOR_def
      PREDECESSOR_def listens_def span_def demo_gets_def demo_door_def demo_upper_def demo_lower_def demo_node_def udp_ready_def)

theorem join_finds_widest_witness:
  "\<exists>n' b' b'' c'. tour Debug demo_tick (demo_gets (NetJoin (NetJoinPdu_new 0x0A000009 7009 0 0 0)) demo_upper) [demo_door] = Ret (n', [b']) \<and>
     put_out b' = to_bytes (NetJoin (NetJoinPdu_new 0x0A000009 7009 128 0 7001)) \<and>
     (\<exists>n''. relay Debug demo_tick (put_out b') [delivered n', delivered b'] = Ret [n'', b''] \<and> hash_range n'' = (129, 255)) \<and>
     successor b'' = Some c' \<and> peer_addr c' = Some (V4 (0x0A000009, 7009))"
proof -
  let ?p = "NetJoinPdu_new 0x0A000009 7009 0 0 0" and ?q = "NetJoinPdu_new 0x0A000009 7009 128 0 7001"
  let ?n = "demo_gets (NetJoin ?p) demo_upper" and ?c = "demo_link (0x0A000009, 7009)"
  have a: "asked demo_tick (NetJoin ?p) ?n" by (rule demo_asked_ring) (simp add: NetJoin_wire NetJoinPdu_new_def)
  have r: "list_all in_ring (?n # [demo_door])" "distinct (map listens (?n # [demo_door]))" "?n # [demo_door] = [?n] @ demo_door # []"
    "\<forall>a \<in> set [?n]. span a < span demo_door" "\<forall>b \<in> set []. span b \<le> span demo_door" "0 < span demo_door"
    by (simp_all add: demo_in_ring)
  have d: "successor demo_door = Some (demo_link (0x0A000002, 7001))" "peer_addr (demo_link (0x0A000002, 7001)) = Some (V4 (0x0A000002, 7001))"
    "offers ?c [] demo_door" "outbox ?c = []" "hash_range demo_door = (0, 128)"
    by (simp_all add: demo_door_def demo_lower_def demo_node_def offers_def demo_link_ready)
  from join_finds_widest [OF r a d, of Debug] obtain n' ns' as' w' bs' as'' w'' c' where
    *: "tour Debug demo_tick ?n [demo_door] = Ret (n', ns')" "n' # ns' = as' @ w' # bs'" "list_all2 passed_on [?n] as'"
    "list_all2 passed_on [] bs'" "put_out (last (n' # ns')) = to_bytes (NetJoin ?q)"
    "relay Debug demo_tick (to_bytes (NetJoin ?q)) (map delivered as' @ [delivered w']) = Ret (as'' @ [w''])"
    "list_all2 passed_on [?n] as''" "successor w'' = Some c'" "peer_addr c' = Some (V4 (0x0A000009, 7009))"
    unfolding demo_in_ring fst_conv snd_conv by blast
  obtain n'' where **: "as' = [n']" "ns' = [w']" "as'' = [n'']" "passed_on ?n n''"
    using *(2,3,4,7) by (auto simp: list_all2_Cons1)
  then have "hash_range n'' = (129, 255)" by (simp add: passed_on_def demo_gets_def demo_upper_def)
  then show ?thesis using * ** by (auto simp del: to_bytes.simps relay.simps)
qed

section \<open>Who is responsible\<close>

text \<open>A ring grows when one of its nodes lets in a new one that gets what it is sent.\<close>

lemma ring_grows:
  assumes "ring bld (as @ n # bs)" "running n" "state n = Q13" "fresh_connects n"
    and "last_pdu n = Some (NetJoin p)" "successor n = Some s" "link_ready s" "peer_addr s = Some (V4 old)"
    and "offers c cs n" "hash_range n = (lo, hi)" "lo < hi" "list_all plain (stored n)"
  shows "\<exists>n' c'. q13 bld n = Ret n' \<and> successor n' = Some c' \<and>
    (\<forall>b r a chunks d ds. orderly bld b \<and> running b \<and> state b = Q8 \<and> ready_to_join d ds b \<and> predecessor b = Some r \<and>
      peer_addr r = Some a \<and> inbox r = map RData chunks \<and> concat chunks = outbox c' \<and> length (outbox c') \<le> BUFFER_SIZE \<longrightarrow>
      (\<exists>b'. q8 b = Ret b' \<and> ring bld (as @ n' # b' # bs)))"
proof -
  let ?m = "split_point lo hi" and ?t = "\<lparr>tick_elapsed = 0, tick_events = [], tick_signal = False\<rparr>"
  let ?es = "moved (?m + 1) hi (stored n)"
  have t: "known_tokens ?t" by (simp add: known_tokens_def)
  have "Some c \<in> set (connects n)" using assms(9) by (simp add: offers_def)
  then have "outbox c = []" using assms(4) unfolding fresh_connects_def by blast
  then obtain n' c' where n': "q13 bld n = Ret n'" "hash_range n' = (lo, ?m)" "successor n' = Some c'" "outbox c' = join_bytes old (?m + 1) hi ?es"
    using q13_joins [OF assms(5-11), of bld] by auto
  let ?r = "NetJoinResponsePdu_new (fst old) (snd old) (?m + 1) hi"
  have "hands_out n' ?r"
    using n'(3,4) wire.dec_enc_append [OF NetJoinResponse_wf] by (auto simp: hands_out_def join_bytes_def simp del: to_bytes.simps)
  then have step: "node_step bld ?t n = Ret n'" "hands_out n' ?r" using n'(1) assms(3) by (simp_all add: node_step_def)
  have "\<exists>b'. q8 b = Ret b' \<and> ring bld (as @ n' # b' # bs)"
    if b: "orderly bld b" "running b" "state b = Q8" "ready_to_join d ds b" "predecessor b = Some r"
      "peer_addr r = Some a" "inbox r = map RData chunks" "concat chunks = outbox c'" "length (outbox c') \<le> BUFFER_SIZE"
    for b r a chunks d ds
  proof -
    have "chunks \<noteq> []" using b(8) n'(4) join_bytes_nonempty by (metis concat.simps(1))
    then obtain b' where b': "q8 b = Ret b'" "hash_range b' = (?m + 1, hi)"
      using q8_takes_range [OF b(5,7) _ b(6), of old "?m + 1" hi ?es d ds] b n'(4) moved_plain [OF assms(12)]
      by (auto simp: ready_to_join_def)
    then have "ring bld (as @ n' # b' # bs)"
      using ring_join [OF assms(1,2) _ assms(4) _ t step b(1-3) t] assms(3,10,11) b(3)
      by (simp add: node_step_def NetJoinResponsePdu_new_def)
    then show ?thesis using b'(1) by blast
  qed
  then show ?thesis using n'(1,3) by blast
qed

text \<open>C3: However a ring came about, by joins and leaves one after the other and any other passes of
  its nodes in between, its ranges are those of the specification: for every number exactly one of its nodes is
  responsible, and no other node stores an entry for it.  It never has more than 256 nodes.\<close>

theorem ring_partitions_hashes:
  assumes "ring bld ns"
  shows "shares (map hash_range ns) \<and> length ns \<in> {1..256} \<and>
    (\<forall>k. \<exists>i < length ns. hash_ssn k \<in> owned (ns ! i) \<and>
      (\<forall>j < length ns. j \<noteq> i \<longrightarrow> hash_ssn k \<notin> owned (ns ! j) \<and> store_of (ns ! j) k = None))"
proof -
  have inv: "shares (map hash_range ns)" "list_all (orderly bld) ns" using ring_inv [OF assms] by simp_all
  have none: "store_of n k = None" if "n \<in> set ns" "hash_ssn k \<notin> owned n" for n k
  proof -
    have "store_inv n" using inv(2) that(1) orderly_store by (auto simp: list_all_iff)
    then have "list_all (\<lambda>e. entry_hash e \<in> owned n) (stored n)" by (auto simp: store_defs split: if_splits)
    then show ?thesis using that(2) first_entry_Some [of k "stored n"]
      by (cases "store_of n k") (auto simp: store_of_def list_all_iff entry_hash_def)
  qed
  have "\<exists>i < length ns. hash_ssn k \<in> owned (ns ! i) \<and> (\<forall>j < length ns. j \<noteq> i \<longrightarrow> hash_ssn k \<notin> owned (ns ! j))" for k
    using shares_partition(1) [OF inv(1), of "hash_ssn k"] by (auto simp: owned_def)
  then show ?thesis using inv(1) shares_partition(2,3) [OF inv(1)] none by (auto simp: Suc_le_eq) (metis nth_mem)
qed

theorem ring_partitions_hashes_witness:
  "\<exists>n. ring Debug [n] \<and> own_address n = Some 5 \<and> (\<forall>k. hash_ssn k \<in> owned n)"
proof -
  obtain n where n: "orderly Debug n" "running n" "state n = Q4" "own_address n = Some 5"
    using node_asks [OF first_new first_ready(2,1,3) first_arrivals, of demo_tick demo_tick demo_tick Debug] demo_tick_known
    by (auto simp del: run_node.simps)
  let ?n = "n\<lparr>hash_range := (0, 255), state := Q6\<rparr>"
  have "node_step Debug demo_tick n = Ret ?n" using n(3) by (simp add: node_step_def q4_def)
  then have ring: "ring Debug [?n]" using ring_first [OF n(1-3) demo_tick_known] by blast
  then have "\<forall>k. hash_ssn k \<in> owned ?n" using ring_partitions_hashes [OF ring] by simp
  then show ?thesis using ring n(4) by (intro exI [of _ ?n]) simp
qed

section \<open>A full ring\<close>

text \<open>The request on round after round.\<close>

fun rounds :: "build \<Rightarrow> tick \<Rightarrow> nat \<Rightarrow> u8 list \<Rightarrow> node list \<Rightarrow> (u8 list \<times> node list) outcome" where
  "rounds bld t 0 bs ns = Ret (bs, ns)"
| "rounds bld t (Suc k) bs ns = obind (relay bld t bs ns) (\<lambda>ns. rounds bld t k (put_out (last ns)) (map delivered ns))"

text \<open>C28: When every node of the ring is left with a single hash, no node lets a new one in: the join request
  comes out of every round as it went in, however many rounds it makes, and nothing else happens.\<close>

theorem join_circulates:
  assumes "ns \<noteq> []" "list_all in_ring ns" "distinct (map listens ns)" "\<forall>n \<in> set ns. span n = 0"
  shows "\<exists>ns'. rounds bld t k (to_bytes (NetJoin (NetJoinPdu_new ip port 0 0 0))) ns =
      Ret (to_bytes (NetJoin (NetJoinPdu_new ip port 0 0 0)), ns') \<and>
    map hash_range ns' = map hash_range ns \<and> map stored ns' = map stored ns"
  using assms
proof (induction k arbitrary: ns)
  case (Suc k)
  let ?p = "NetJoinPdu_new ip port 0 0 0"
  have "fold collect ns ?p = ?p" using Suc.prems(4) by (intro fold_collect_same) simp
  moreover have "carried ?p \<notin> listens ` set ns" "nj_pdu_type ?p = NET_JOIN_ID"
    using Suc.prems(2) by (auto simp: list_all_iff in_ring_def carried_def NetJoinPdu_new_def image_iff)
  ultimately obtain ns1 where ns1: "list_all2 passed_on ns ns1" "relay bld t (to_bytes (NetJoin ?p)) ns = Ret ns1"
    "put_out (last ns1) = to_bytes (NetJoin ?p)"
    using join_relay [OF Suc.prems(2,3), of ?p bld t] Suc.prems(1) by (auto simp del: to_bytes.simps dest: spec [of _ "[]"])
  note p = list_passed_on [OF ns1(1)]
  have z: "\<forall>n \<in> set (map delivered ns1). span n = 0"
  proof -
    have "set (map span (map delivered ns1)) = set (map span ns)" by (simp only: p(3))
    then show ?thesis using Suc.prems(4) by force
  qed
  have "distinct (map listens (map delivered ns1))" unfolding p(2) by (rule Suc.prems(3))
  moreover have "map delivered ns1 \<noteq> []" using Suc.prems(1) ns1(1) by auto
  ultimately obtain ns' where ns': "rounds bld t k (to_bytes (NetJoin ?p)) (map delivered ns1) = Ret (to_bytes (NetJoin ?p), ns')"
    "map hash_range ns' = map hash_range (map delivered ns1)" "map stored ns' = map stored (map delivered ns1)"
    using Suc.IH [OF _ p(1) _ z] by blast
  have "map hash_range (map delivered ns1) = map hash_range ns \<and> map stored (map delivered ns1) = map stored ns"
    using ns1(1) by (induction rule: list_all2_induct) (simp_all add: passed_on_def)
  then show ?case using ns1 ns' by (simp del: to_bytes.simps)
qed simp

theorem join_circulates_witness:
  "\<exists>ns'. rounds Debug demo_tick 1000 (to_bytes (NetJoin (NetJoinPdu_new 9 9 0 0 0))) [demo_upper\<lparr>hash_range := (7, 7)\<rparr>] =
     Ret (to_bytes (NetJoin (NetJoinPdu_new 9 9 0 0 0)), ns')"
proof -
  have "in_ring (demo_upper\<lparr>hash_range := (7, 7)\<rparr>)"
    using demo_in_ring(1) [of demo_lookup] demo_ring_nodes(1) by (simp add: in_ring_def ring_node_def predecessor_rests_def queue_of_def wrapper_of_def
        UDP_def SUCCESSOR_def PREDECESSOR_def listens_def demo_upper_def demo_node_def)
  then show ?thesis
    using join_circulates [of "[demo_upper\<lparr>hash_range := (7, 7)\<rparr>]" Debug demo_tick 1000 9 9]
    by (auto simp: span_def simp del: to_bytes.simps rounds.simps)
qed

end
