(* ===== verification/Expiring_Table.thy ===== *)
theory Expiring_Table
  imports Os_Sockets "HOL-Library.AList"
begin

text \<open>
  The interface of a table of keys that are forgotten when nothing is heard of them for too
  long, with what every client of such a table can rely on; and the table as the association
  list that models a \<open>HashMap\<close>.
\<close>

section \<open>The interface\<close>

text \<open>\<open>Beat k s\<close>: a sign of life of \<open>k\<close> at \<open>s\<close>.  \<open>Sweep s\<close>: the old keys are dropped at \<open>s\<close>.\<close>

datatype 'k life = Beat 'k instant | Sweep instant

locale expiring_table =
  fixes refresh :: "'k \<Rightarrow> instant \<Rightarrow> 't \<Rightarrow> 't"
    and sweep :: "int \<Rightarrow> instant \<Rightarrow> 't \<Rightarrow> 't"
    and seen :: "'t \<Rightarrow> 'k \<Rightarrow> instant option"
    and invar :: "'t \<Rightarrow> bool"
  assumes seen_refresh: "invar t \<Longrightarrow> seen (refresh k s t) k' = (if k' = k then Some s else seen t k')"
    and seen_sweep: "invar t \<Longrightarrow> seen (sweep limit s t) k =
      (case seen t k of None \<Rightarrow> None | Some u \<Rightarrow> if elapsed_secs s u < limit then Some u else None)"
    and invar_refresh: "invar t \<Longrightarrow> invar (refresh k s t)"
    and invar_sweep: "invar t \<Longrightarrow> invar (sweep limit s t)"
begin

primrec step :: "int \<Rightarrow> 'k life \<Rightarrow> 't \<Rightarrow> 't" where
  "step limit (Beat k s) t = refresh k s t"
| "step limit (Sweep s) t = sweep limit s t"

definition run :: "int \<Rightarrow> 'k life list \<Rightarrow> 't \<Rightarrow> 't" where
  "run limit es t = fold (step limit) es t"

lemma run_simps [simp]: "run limit [] t = t" "run limit (e # es) t = run limit es (step limit e t)"
  by (simp_all add: run_def)

lemma run_append: "run limit (es @ fs) t = run limit fs (run limit es t)"
  by (simp add: run_def)

lemma invar_step: "invar t \<Longrightarrow> invar (step limit e t)"
  by (cases e) (simp_all add: invar_refresh invar_sweep)

lemma invar_run: "invar t \<Longrightarrow> invar (run limit es t)"
  by (induction es arbitrary: t) (auto intro: invar_step)

lemma seen_step:
  "invar t \<Longrightarrow> seen (step limit e t) k = Some u \<Longrightarrow> seen t k = Some u \<or> e = Beat k u"
  by (cases e) (auto simp: seen_refresh seen_sweep split: if_splits option.splits)

text \<open>What the table says of a key it was told.\<close>

lemma seen_origin:
  "invar t \<Longrightarrow> seen (run limit es t) k = Some u \<Longrightarrow> seen t k = Some u \<or> Beat k u \<in> set es"
proof (induction es arbitrary: t)
  case (Cons e es)
  then show ?case using Cons.IH [OF invar_step [OF Cons.prems(1)]] seen_step [OF Cons.prems(1)] by fastforce
qed simp

text \<open>A key stays listed as long as every sweep comes within the limit after its last sign of life.\<close>

fun on_time :: "int \<Rightarrow> 'k \<Rightarrow> instant \<Rightarrow> 'k life list \<Rightarrow> bool" where
  "on_time limit k u [] \<longleftrightarrow> True"
| "on_time limit k u (Beat k' s # es) \<longleftrightarrow> on_time limit k (if k' = k then s else u) es"
| "on_time limit k u (Sweep s # es) \<longleftrightarrow> elapsed_secs s u < limit \<and> on_time limit k u es"

lemma seen_on_time:
  "invar t \<Longrightarrow> seen t k = Some u \<Longrightarrow> on_time limit k u es \<Longrightarrow> seen (run limit es t) k \<noteq> None"
proof (induction limit k u es arbitrary: t rule: on_time.induct)
  case (2 limit k u k' s es)
  then show ?case by (simp add: seen_refresh invar_refresh)
next
  case (3 limit k u s es)
  then show ?case by (simp add: seen_sweep invar_sweep)
qed simp

text \<open>Right after a sweep every listed key is fresh.\<close>

lemma seen_fresh:
  "invar t \<Longrightarrow> seen (run limit (es @ [Sweep s]) t) k = Some u \<Longrightarrow> elapsed_secs s u < limit"
  using invar_run [of t limit es]
  by (auto simp: run_append seen_sweep split: option.splits if_splits)

end

section \<open>The table as an association list\<close>

text \<open>
  \<open>HashMap::entry(k).or_insert(v)\<close>, assignment through the reference it returns, and
  \<open>retain\<close>.  The order of the list is not the iteration order of the map, which is random.
\<close>

definition or_insert :: "'k \<Rightarrow> 'v \<Rightarrow> ('k \<times> 'v) list \<Rightarrow> ('k \<times> 'v) list" where
  "or_insert k v al = (if k \<in> fst ` set al then al else AList.update k v al)"

definition retain_pairs :: "('k \<Rightarrow> 'v \<Rightarrow> bool) \<Rightarrow> ('k \<times> 'v) list \<Rightarrow> ('k \<times> 'v) list" where
  "retain_pairs p al = filter (\<lambda>(k, v). p k v) al"

abbreviation distinct_keys :: "('k \<times> 'v) list \<Rightarrow> bool" where
  "distinct_keys al \<equiv> distinct (map fst al)"

lemma map_of_retain_pairs:
  "distinct_keys al \<Longrightarrow> map_of (retain_pairs p al) k =
     (case map_of al k of None \<Rightarrow> None | Some v \<Rightarrow> if p k v then Some v else None)"
  by (induction al) (auto simp: retain_pairs_def rev_image_eqI split: option.splits
      dest: map_of_SomeD)

lemma distinct_retain_pairs: "distinct_keys al \<Longrightarrow> distinct_keys (retain_pairs p al)"
  by (induction al) (auto simp: retain_pairs_def)

lemma map_of_or_insert: "map_of (or_insert k v al) k' =
    (if k' = k \<and> map_of al k = None then Some v else map_of al k')"
  by (auto simp: or_insert_def update_conv' dom_map_of_conv_image_fst map_of_eq_None_iff)

lemma distinct_or_insert: "distinct_keys al \<Longrightarrow> distinct_keys (or_insert k v al)"
  by (simp add: or_insert_def distinct_update)

end
