(* ===== verification/Tracker.thy ===== *)
theory Tracker
  imports Udp_Facts Expiring_Table
begin

text \<open>
  The tracker, \<^verbatim>\<open>resources/TestNode/src/bin/tracker.rs\<close>: a UDP server that tells a peer its
  address, remembers which nodes are alive, and names one of them on request.

  \<open>main\<close> never returns; \<open>tracker_pass\<close> is one pass of its loop and \<open>run_tracker\<close> one pass per
  tick.  What is left to the environment is a script in the state, as with the sockets: the
  results of the system calls that are unwrapped, and which key the random order of the
  \<open>HashMap\<close> puts first each time it is asked.  Time passes in \<open>poll\<close>.
\<close>

section \<open>State\<close>

record tracker_node =
  tn_last_alive :: instant

record tracker =
  t_timeout :: "64 word"
  t_nodes :: "(socket_addr \<times> tracker_node) list"
  t_wrapper :: wrapper
  t_socket :: udp_socket
  t_now :: instant
  t_syscalls :: "bool list"
  t_picks :: "nat list"

definition tracker_node_new :: "tracker \<Rightarrow> tracker_node" where
  "tracker_node_new t = \<lparr>tn_last_alive = t_now t\<rparr>"

definition t_unwrap :: "tracker \<Rightarrow> tracker outcome" where
  "t_unwrap t = (case t_syscalls t of
     [] \<Rightarrow> Ret t
   | ok # oks \<Rightarrow> if ok then Ret (t\<lparr>t_syscalls := oks\<rparr>) else Panic UnwrapErr)"

text \<open>\<open>nodes.iter().next()\<close>: a key of the map, whichever its random order puts first.\<close>

definition first_key :: "tracker \<Rightarrow> socket_addr option \<times> tracker" where
  "first_key t =
     (if t_nodes t = [] then (None, t)
      else (Some (fst (t_nodes t ! ((case t_picks t of [] \<Rightarrow> 0 | i # _ \<Rightarrow> i) mod length (t_nodes t)))),
            t\<lparr>t_picks := tl (t_picks t)\<rparr>))"

section \<open>Serving\<close>

definition t_send :: "PDU \<Rightarrow> socket_addr \<Rightarrow> tracker \<Rightarrow> tracker outcome" where
  "t_send pdu rec t =
     obind (UdpWrapper_send (t_wrapper t) (t_socket t) pdu rec) (\<lambda>u. Ret (t\<lparr>t_socket := u\<rparr>))"

text \<open>The three arms of the \<open>match\<close> that do something.\<close>

definition serve_stun :: "socket_addr \<Rightarrow> tracker \<Rightarrow> tracker outcome" where
  "serve_stun sender t =
     (case sender of
        V4 s \<Rightarrow> t_send (StunResponse (StunResponsePdu_new (fst s))) sender t
      | V6 _ _ _ _ \<Rightarrow> Panic NotIpv4)"

definition serve_alive :: "socket_addr \<Rightarrow> tracker \<Rightarrow> tracker outcome" where
  "serve_alive sender t =
     (let nodes = or_insert sender (tracker_node_new t) (t_nodes t) in
      Ret (t\<lparr>t_nodes := AList.map_entry sender (\<lambda>node. node\<lparr>tn_last_alive := t_now t\<rparr>) nodes\<rparr>))"

definition serve_get_node :: "socket_addr \<Rightarrow> tracker \<Rightarrow> tracker outcome" where
  "serve_get_node sender t =
     obind (if t_nodes t = [] then Ret (NetGetNodeResponsePdu_new 0 0, t)
       else
         case first_key t of (first, t) \<Rightarrow>
         obind (unwrap first) (\<lambda>k.
         case k of
           V4 k \<Rightarrow> Ret (NetGetNodeResponsePdu_new (fst k) (snd k), t)
         | V6 _ _ _ _ \<Rightarrow> Panic NotIpv4)) (\<lambda>(r, t).
     t_send (NetGetNodeResponse r) sender t)"

fun serve_pdu :: "PDU \<Rightarrow> socket_addr \<Rightarrow> tracker \<Rightarrow> tracker outcome" where
  "serve_pdu (StunLookup _) sender t = serve_stun sender t"
| "serve_pdu (NetAlive _) sender t = serve_alive sender t"
| "serve_pdu (NetGetNode _) sender t = serve_get_node sender t"
| "serve_pdu _ sender t = Ret t"

lemma t_send_frame: "t_send p a t = Ret t' \<Longrightarrow> \<exists>u. t' = t\<lparr>t_socket := u\<rparr> \<and>
    arrivals u = arrivals (t_socket t) \<and>
    sent_datagrams u = sent_datagrams (t_socket t) @ [(a, to_bytes p)]"
  by (auto simp: t_send_def obind_eq_Ret dest: UdpWrapper_send_sent)

text \<open>Serving a PDU leaves the queue, the clock and what has arrived alone.\<close>

definition same_inputs :: "tracker \<Rightarrow> tracker \<Rightarrow> bool" where
  "same_inputs t t' \<longleftrightarrow> t_wrapper t' = t_wrapper t \<and> t_now t' = t_now t \<and> t_timeout t' = t_timeout t \<and>
     t_syscalls t' = t_syscalls t \<and> arrivals (t_socket t') = arrivals (t_socket t)"

lemma t_send_same: "t_send p a t = Ret t' \<Longrightarrow> same_inputs t t'"
  by (drule t_send_frame) (auto simp: same_inputs_def)

lemma first_key_same: "first_key t = (k, t') \<Longrightarrow> same_inputs t t'"
  by (auto simp: first_key_def same_inputs_def split: if_splits)

lemma same_inputs_trans: "same_inputs t t' \<Longrightarrow> same_inputs t' t'' \<Longrightarrow> same_inputs t t''"
  by (simp add: same_inputs_def)

lemma serve_get_node_answers:
  assumes "serve_get_node sender t = Ret t'"
  shows "\<exists>r t0. same_inputs t t0 \<and> t_nodes t0 = t_nodes t \<and> t_socket t0 = t_socket t \<and>
    t_send (NetGetNodeResponse r) sender t0 = Ret t' \<and>
    (if t_nodes t = [] then r = NetGetNodeResponsePdu_new 0 0
     else \<exists>k. V4 k \<in> fst ` set (t_nodes t) \<and> r = NetGetNodeResponsePdu_new (fst k) (snd k))"
proof (cases "t_nodes t = []")
  case True
  then show ?thesis using assms by (auto simp: serve_get_node_def same_inputs_def)
next
  case False
  obtain k t0 where k: "first_key t = (Some k, t0)" "k \<in> fst ` set (t_nodes t)"
    "same_inputs t t0" "t_nodes t0 = t_nodes t" "t_socket t0 = t_socket t"
    using False first_key_same by (auto simp: first_key_def same_inputs_def)
  show ?thesis
  proof (cases k)
    case (V4 a)
    then have "t_send (NetGetNodeResponse (NetGetNodeResponsePdu_new (fst a) (snd a))) sender t0 = Ret t'"
      using assms False k by (simp add: serve_get_node_def)
    then show ?thesis using V4 k(2-5) unfolding if_not_P [OF False] by blast
  next
    case V6
    then show ?thesis using assms False k by (simp add: serve_get_node_def)
  qed
qed

lemma serve_get_node_same: "serve_get_node sender t = Ret t' \<Longrightarrow> same_inputs t t'"
  using serve_get_node_answers [of sender t t'] by (auto intro: same_inputs_trans [OF _ t_send_same])

lemma serve_pdu_same: "serve_pdu p sender t = Ret t' \<Longrightarrow> same_inputs t t'"
  by (cases p) (auto simp: serve_stun_def serve_alive_def Let_def same_inputs_def [of t t]
      split: socket_addr.splits intro: t_send_same serve_get_node_same, simp_all add: same_inputs_def)

text \<open>\<open>while let Some((pdu, sender)) = wrapper.next_pdu() { match pdu { .. } }\<close>.\<close>

function serve_queue :: "tracker \<Rightarrow> tracker outcome" where
  "serve_queue t =
     (case UdpWrapper_next_pdu (t_wrapper t) of
        (None, w) \<Rightarrow> Ret (t\<lparr>t_wrapper := w\<rparr>)
      | (Some (pdu, sender), w) \<Rightarrow>
          obind (serve_pdu pdu sender (t\<lparr>t_wrapper := w\<rparr>)) (\<lambda>t. serve_queue t))"
  by pat_completeness auto
termination
  by (relation "measure (\<lambda>t. length (incoming_queue (t_wrapper t)))")
    (auto simp: UdpWrapper_next_pdu_def same_inputs_def dest!: serve_pdu_same split: list.splits)

declare serve_queue.simps [simp del]

text \<open>One iteration of \<open>for _ in events.iter()\<close>, and all of them.\<close>

definition serve_event :: "tracker \<Rightarrow> tracker outcome" where
  "serve_event t =
     obind (UdpWrapper_try_read (t_wrapper t) (t_socket t)) (\<lambda>(w, u).
     serve_queue (t\<lparr>t_wrapper := w, t_socket := u\<rparr>))"

primrec serve_events :: "nat \<Rightarrow> tracker \<Rightarrow> tracker outcome" where
  "serve_events 0 t = Ret t"
| "serve_events (Suc k) t = obind (serve_event t) (\<lambda>t. serve_events k t)"

section \<open>The loop\<close>

text \<open>The closure given to \<open>retain\<close>.\<close>

definition drop_inactive :: "tracker \<Rightarrow> tracker" where
  "drop_inactive t = t\<lparr>t_nodes := retain_pairs
     (\<lambda>k v. if elapsed_secs (t_now t) (tn_last_alive v) \<ge> uint (t_timeout t) then False else True)
     (t_nodes t)\<rparr>"

text \<open>What a pass meets: the time \<open>poll\<close> waited and the number of events it reports.\<close>

record tracker_tick =
  tt_elapsed :: int
  tt_events :: nat

definition tracker_pass :: "tracker_tick \<Rightarrow> tracker \<Rightarrow> tracker outcome" where
  "tracker_pass k t =
     obind (t_unwrap (t\<lparr>t_now := t_now t + tt_elapsed k\<rparr>)) (\<lambda>t.
     obind (serve_events (tt_events k) t) (\<lambda>t.
     Ret (drop_inactive t)))"

fun run_tracker :: "tracker_tick list \<Rightarrow> tracker \<Rightarrow> tracker outcome" where
  "run_tracker [] t = Ret t"
| "run_tracker (k # ks) t = obind (tracker_pass k t) (\<lambda>t. run_tracker ks t)"

text \<open>
  \<open>main\<close> up to its loop: the socket that was bound (\<open>None\<close>: the bind failed), its address,
  \<open>Poll::new\<close> and \<open>register\<close>.  Binding to \<open>0.0.0.0:port\<close> cannot fail to parse.
\<close>

definition tracker_start ::
  "64 word \<Rightarrow> udp_socket option \<Rightarrow> instant \<Rightarrow> bool list \<Rightarrow> nat list \<Rightarrow> tracker outcome" where
  "tracker_start timeout bound start oks picks =
     obind (unwrap_io bound) (\<lambda>socket.
     obind (unwrap_io (udp_local socket)) (\<lambda>_.
     let t = \<lparr>t_timeout = timeout, t_nodes = [], t_wrapper = UdpWrapper_new, t_socket = socket,
           t_now = start, t_syscalls = oks, t_picks = picks\<rparr> in
     obind (t_unwrap t) (\<lambda>t. t_unwrap t)))"

definition tracker_main ::
  "tracker_tick list \<Rightarrow> 64 word \<Rightarrow> udp_socket option \<Rightarrow> instant \<Rightarrow> bool list \<Rightarrow> nat list \<Rightarrow> tracker outcome" where
  "tracker_main ks timeout bound start oks picks =
     obind (tracker_start timeout bound start oks picks) (\<lambda>t. run_tracker ks t)"

end
