(* ===== verification/Tracker_Service.thy ===== *)
theory Tracker_Service
  imports Tracker
begin

text \<open>
  What the tracker promises.  The table of nodes is an expiring table; a queue of messages is
  served by answering each one with what the table holds at that moment; a run keeps the
  table fresh.
\<close>

section \<open>The table of nodes\<close>

type_synonym nodes = "(socket_addr \<times> tracker_node) list"

definition heard_from :: "socket_addr \<Rightarrow> instant \<Rightarrow> nodes \<Rightarrow> nodes" where
  "heard_from a s al =
     AList.map_entry a (\<lambda>node. node\<lparr>tn_last_alive := s\<rparr>) (or_insert a \<lparr>tn_last_alive = s\<rparr> al)"

definition drop_old :: "int \<Rightarrow> instant \<Rightarrow> nodes \<Rightarrow> nodes" where
  "drop_old limit s al = retain_pairs (\<lambda>_ v. elapsed_secs s (tn_last_alive v) < limit) al"

definition last_sign :: "nodes \<Rightarrow> socket_addr \<Rightarrow> instant option" where
  "last_sign al a = map_option tn_last_alive (map_of al a)"

lemma distinct_heard_from: "distinct_keys al \<Longrightarrow> distinct_keys (heard_from a s al)"
  by (simp add: heard_from_def AList.distinct_map_entry distinct_or_insert)

lemma last_sign_heard: "last_sign (heard_from a s al) k = (if k = a then Some s else last_sign al k)"
  by (auto simp: last_sign_def heard_from_def AList.map_of_map_entry map_of_or_insert split: option.splits)

lemma last_sign_drop_old: "distinct_keys al \<Longrightarrow> last_sign (drop_old limit s al) k =
    (case last_sign al k of None \<Rightarrow> None | Some u \<Rightarrow> if elapsed_secs s u < limit then Some u else None)"
  by (simp add: last_sign_def drop_old_def map_of_retain_pairs split: option.split)

interpretation nodes: expiring_table heard_from drop_old last_sign distinct_keys
  by unfold_locales
    (simp_all add: last_sign_heard distinct_heard_from last_sign_drop_old,
      simp add: drop_old_def distinct_retain_pairs)

lemma last_sign_keys: "a \<in> fst ` set al \<longleftrightarrow> last_sign al a \<noteq> None"
  by (simp add: last_sign_def map_of_eq_None_iff)

lemma keys_heard_from: "fst ` set (heard_from a s al) = insert a (fst ` set al)"
  by (rule set_eqI) (simp add: last_sign_keys last_sign_heard)

lemma last_sign_empty [simp]: "last_sign [] a = None"
  by (simp add: last_sign_def)

lemma serve_alive_eq: "serve_alive a t = Ret (t\<lparr>t_nodes := heard_from a (t_now t) (t_nodes t)\<rparr>)"
  by (simp add: serve_alive_def heard_from_def tracker_node_new_def Let_def)

lemma drop_inactive_eq:
  "drop_inactive t = t\<lparr>t_nodes := drop_old (uint (t_timeout t)) (t_now t) (t_nodes t)\<rparr>"
  by (simp add: drop_inactive_def drop_old_def not_le)

section \<open>Serving a queue\<close>

type_synonym datagram_out = "socket_addr \<times> u8 list"

text \<open>How one message may be answered, and what it does to the table.\<close>

definition get_node_reply :: "nodes \<Rightarrow> NetGetNodeResponsePdu \<Rightarrow> bool" where
  "get_node_reply al r \<longleftrightarrow>
     (if al = [] then r = NetGetNodeResponsePdu_new 0 0
      else \<exists>k. V4 k \<in> fst ` set al \<and> r = NetGetNodeResponsePdu_new (fst k) (snd k))"

fun answered :: "nodes \<Rightarrow> message \<Rightarrow> datagram_out list \<Rightarrow> bool" where
  "answered al (StunLookup _, a) out \<longleftrightarrow>
     (\<exists>s. a = V4 s \<and> out = [(a, to_bytes (StunResponse (StunResponsePdu_new (fst s))))])"
| "answered al (NetGetNode _, a) out \<longleftrightarrow>
     (\<exists>r. get_node_reply al r \<and> out = [(a, to_bytes (NetGetNodeResponse r))])"
| "answered al (_, a) out \<longleftrightarrow> out = []"

fun after :: "instant \<Rightarrow> message \<Rightarrow> nodes \<Rightarrow> nodes" where
  "after s (NetAlive _, a) al = heard_from a s al"
| "after s (_, a) al = al"

inductive served :: "instant \<Rightarrow> nodes \<Rightarrow> message list \<Rightarrow> datagram_out list \<Rightarrow> nodes \<Rightarrow> bool"
  for s :: instant where
  served_Nil: "served s al [] [] al"
| served_Cons: "answered al m out \<Longrightarrow> served s (after s m al) ms outs al' \<Longrightarrow>
    served s al (m # ms) (out @ outs) al'"

inductive_simps served_Nil_iff: "served s al [] outs al'"
inductive_simps served_Cons_iff: "served s al (m # ms) outs al'"

lemma serve_pdu_served:
  assumes "serve_pdu p a t = Ret t'"
  shows "\<exists>out. answered (t_nodes t) (p, a) out \<and> t_nodes t' = after (t_now t) (p, a) (t_nodes t) \<and>
    sent_datagrams (t_socket t') = sent_datagrams (t_socket t) @ out"
proof (cases p)
  case (StunLookup q)
  then obtain s where s: "a = V4 s" "t_send (StunResponse (StunResponsePdu_new (fst s))) a t = Ret t'"
    using assms by (cases a) (auto simp: serve_stun_def)
  then show ?thesis using t_send_frame [OF s(2)] StunLookup by auto
next
  case (NetGetNode q)
  then obtain r t0 where "t_nodes t0 = t_nodes t" "t_send (NetGetNodeResponse r) a t0 = Ret t'"
    "get_node_reply (t_nodes t) r" "t_socket t0 = t_socket t"
    using assms serve_get_node_answers [of a t t'] by (auto simp: get_node_reply_def)
  then show ?thesis using t_send_frame [of "NetGetNodeResponse r" a t0 t'] NetGetNode by auto
qed (use assms in \<open>auto simp: serve_alive_eq\<close>)

text \<open>A queue is served message by message, in order, to the end.\<close>

lemma serve_queue_served:
  "serve_queue t = Ret t' \<Longrightarrow> \<exists>outs.
     served (t_now t) (t_nodes t) (incoming_queue (t_wrapper t)) outs (t_nodes t') \<and>
     sent_datagrams (t_socket t') = sent_datagrams (t_socket t) @ outs \<and>
     same_inputs (t\<lparr>t_wrapper := (t_wrapper t)\<lparr>incoming_queue := []\<rparr>\<rparr>) t'"
proof (induction "incoming_queue (t_wrapper t)" arbitrary: t)
  case Nil
  have "t_wrapper t = (t_wrapper t)\<lparr>incoming_queue := []\<rparr>" using Nil.hyps by simp
  then have "same_inputs (t\<lparr>t_wrapper := (t_wrapper t)\<lparr>incoming_queue := []\<rparr>\<rparr>) t" by (simp add: same_inputs_def)
  moreover have "t' = t" using Nil serve_queue.simps [of t] by (simp add: UdpWrapper_next_pdu_def)
  ultimately show ?case using Nil.hyps served_Nil by fastforce
next
  case (Cons m ms)
  obtain p a where m: "m = (p, a)" by fastforce
  let ?t = "t\<lparr>t_wrapper := (t_wrapper t)\<lparr>incoming_queue := ms\<rparr>\<rparr>"
  obtain t1 where t1: "serve_pdu p a ?t = Ret t1" "serve_queue t1 = Ret t'"
    using Cons.prems Cons.hyps(2) [symmetric] m serve_queue.simps [of t]
    by (auto simp: UdpWrapper_next_pdu_def obind_eq_Ret)
  have same: "same_inputs ?t t1" by (rule serve_pdu_same [OF t1(1)])
  obtain out where out: "answered (t_nodes t) (p, a) out" "t_nodes t1 = after (t_now t) (p, a) (t_nodes t)"
    "sent_datagrams (t_socket t1) = sent_datagrams (t_socket t) @ out"
    using serve_pdu_served [OF t1(1)] by auto
  have "ms = incoming_queue (t_wrapper t1)" using same by (simp add: same_inputs_def)
  from Cons.hyps(1) [OF this t1(2)] obtain outs where
    outs: "served (t_now t) (t_nodes t1) ms outs (t_nodes t')"
    "sent_datagrams (t_socket t') = sent_datagrams (t_socket t1) @ outs"
    "same_inputs (t1\<lparr>t_wrapper := (t_wrapper t1)\<lparr>incoming_queue := []\<rparr>\<rparr>) t'"
    using same by (auto simp: same_inputs_def)
  have "served (t_now t) (t_nodes t) (m # ms) (out @ outs) (t_nodes t')"
    using served_Cons out(1,2) outs(1) m by metis
  then show ?case using Cons.hyps(2) [symmetric] out(3) outs(2,3) same by (auto simp: same_inputs_def)
qed

section \<open>Peers over IPv4\<close>

fun is_V4 :: "socket_addr \<Rightarrow> bool" where
  "is_V4 (V4 _) = True"
| "is_V4 (V6 _ _ _ _) = False"

text \<open>A tracker whose sends are not hindered, that has nothing queued and only knows IPv4 nodes.\<close>

definition t_idle :: "tracker \<Rightarrow> bool" where
  "t_idle t \<longleftrightarrow> wf_wrapper (t_wrapper t) \<and> buffered (t_wrapper t) = [] \<and>
     incoming_queue (t_wrapper t) = [] \<and> udp_ready (t_socket t) \<and> t_syscalls t = [] \<and>
     (\<forall>a \<in> fst ` set (t_nodes t). is_V4 a)"

lemma t_send_returns:
  "udp_ready (t_socket t) \<Longrightarrow> \<exists>u. t_send p a t = Ret (t\<lparr>t_socket := u\<rparr>) \<and> udp_ready u"
  using UdpWrapper_sends [of "t_socket t" "t_wrapper t" p a] by (auto simp: t_send_def)

lemma first_key_V4:
  assumes "t_nodes t \<noteq> []" "\<forall>a \<in> fst ` set (t_nodes t). is_V4 a"
  shows "\<exists>k i. first_key t = (Some (V4 k), t\<lparr>t_picks := i\<rparr>)"
proof -
  obtain k i where k: "first_key t = (Some k, t\<lparr>t_picks := i\<rparr>)" "k \<in> fst ` set (t_nodes t)"
    using assms(1) by (auto simp: first_key_def)
  then have "is_V4 k" using assms(2) by blast
  then show ?thesis using k(1) by (cases k) auto
qed

lemma serve_pdu_returns:
  assumes "udp_ready (t_socket t)" "is_V4 a" "\<forall>a \<in> fst ` set (t_nodes t). is_V4 a"
  shows "\<exists>t'. serve_pdu p a t = Ret t' \<and> udp_ready (t_socket t')"
proof (cases p)
  case (StunLookup q)
  then show ?thesis using assms(1,2) t_send_returns by (cases a) (fastforce simp: serve_stun_def)+
next
  case (NetGetNode q)
  show ?thesis
  proof (cases "t_nodes t = []")
    case True
    then show ?thesis using NetGetNode t_send_returns [OF assms(1)]
      by (fastforce simp: serve_get_node_def)
  next
    case False
    then obtain k i where "first_key t = (Some (V4 k), t\<lparr>t_picks := i\<rparr>)"
      using first_key_V4 assms(3) by blast
    then show ?thesis using NetGetNode False assms(1)
        t_send_returns [of "t\<lparr>t_picks := i\<rparr>" "NetGetNodeResponse (NetGetNodeResponsePdu_new (fst k) (snd k))" a]
      by (force simp: serve_get_node_def)
  qed
qed (use assms(1) in \<open>simp_all add: serve_alive_eq\<close>)

lemma after_V4: "is_V4 a \<Longrightarrow> \<forall>a \<in> fst ` set al. is_V4 a \<Longrightarrow> \<forall>a \<in> fst ` set (after s (p, a) al). is_V4 a"
  by (cases p) (simp_all only: after.simps keys_heard_from ball_simps simp_thms)

lemma serve_queue_returns:
  assumes "udp_ready (t_socket t)" "\<forall>a \<in> fst ` set (t_nodes t). is_V4 a"
    and "list_all (is_V4 \<circ> snd) (incoming_queue (t_wrapper t))"
  shows "\<exists>t'. serve_queue t = Ret t' \<and> udp_ready (t_socket t') \<and> (\<forall>a \<in> fst ` set (t_nodes t'). is_V4 a)"
  using assms
proof (induction "incoming_queue (t_wrapper t)" arbitrary: t)
  case Nil
  have "t\<lparr>t_wrapper := t_wrapper t\<rparr> = t" by simp
  then have "serve_queue t = Ret t" using Nil.hyps serve_queue.simps [of t] by (simp add: UdpWrapper_next_pdu_def)
  then show ?case using Nil.prems by simp
next
  case (Cons m ms)
  obtain p a where m: "m = (p, a)" by fastforce
  let ?t = "t\<lparr>t_wrapper := (t_wrapper t)\<lparr>incoming_queue := ms\<rparr>\<rparr>"
  have a: "is_V4 a" "list_all (is_V4 \<circ> snd) ms" using Cons.prems(3) m Cons.hyps(2) [symmetric] by simp_all
  obtain t1 where t1: "serve_pdu p a ?t = Ret t1" "udp_ready (t_socket t1)"
    using serve_pdu_returns [of ?t a p] Cons.prems a(1) by auto
  have "ms = incoming_queue (t_wrapper t1)" using serve_pdu_same [OF t1(1)] by (simp add: same_inputs_def)
  moreover have "t_nodes t1 = after (t_now t) (p, a) (t_nodes t)" using serve_pdu_served [OF t1(1)] by auto
  ultimately obtain t' where "serve_queue t1 = Ret t'" "udp_ready (t_socket t')" "\<forall>a \<in> fst ` set (t_nodes t'). is_V4 a"
    using Cons.hyps(1) [of t1] t1(2) after_V4 [OF a(1) Cons.prems(2)] a(2) by auto
  moreover have "serve_queue t = serve_queue t1"
    using Cons.hyps(2) [symmetric] m serve_queue.simps [of t] t1(1) by (simp add: UdpWrapper_next_pdu_def)
  ultimately show ?case by auto
qed

section \<open>A pass\<close>

lemma t_unwrap_idle: "t_syscalls t = [] \<Longrightarrow> t_unwrap t = Ret t"
  by (simp add: t_unwrap_def)

lemma t_unwrap_frame: "t_unwrap t = Ret t' \<Longrightarrow> \<exists>oks. t' = t\<lparr>t_syscalls := oks\<rparr>"
  by (auto simp: t_unwrap_def split: list.splits if_splits intro: exI [of _ "t_syscalls t"])

text \<open>A pass that the first datagram ends.\<close>

lemma tracker_pass_panics:
  assumes "t_syscalls t = []" "tt_events k = Suc e" "serve_event (t\<lparr>t_now := t_now t + tt_elapsed k\<rparr>) = Panic x"
  shows "tracker_pass k t = Panic x"
  using assms by (simp add: tracker_pass_def t_unwrap_idle)

lemma serve_event_refuses:
  assumes "wf_wrapper (t_wrapper t)" "buffered (t_wrapper t) = []" "incoming_queue (t_wrapper t) = []"
    and "sendable p" "arrivals (t_socket t) = Datagram (to_bytes p) a # DWouldBlock # ds"
    and "\<And>w u. serve_pdu (norm_pdu p) a (t\<lparr>t_socket := u, t_wrapper := w\<rparr>) = Panic x"
  shows "serve_event t = Panic x"
proof -
  obtain w where w: "UdpWrapper_try_read (t_wrapper t) (t_socket t) = Ret (w, (t_socket t)\<lparr>arrivals := ds\<rparr>)"
    "incoming_queue w = [(norm_pdu p, a)]"
    using udp_read_one [of "t_wrapper t" p "t_socket t" a ds] assms(1-5) by (auto simp: sendable_def)
  let ?t = "t\<lparr>t_wrapper := w, t_socket := (t_socket t)\<lparr>arrivals := ds\<rparr>\<rparr>"
  have "serve_queue ?t = Panic x"
    using w(2) assms(6) by (subst serve_queue.simps) (simp add: UdpWrapper_next_pdu_def)
  then show ?thesis using w(1) by (simp add: serve_event_def)
qed

text \<open>A pass over a batch of datagrams, each with one PDU of a peer over IPv4.\<close>

lemma tracker_pass_serves:
  assumes "t_idle t" "tt_events k = 1" "list_all (sendable \<circ> fst) ms" "list_all (is_V4 \<circ> snd) ms"
    and "arrivals (t_socket t) = datagrams ms @ ds" "round_ends ds ds'"
  shows "\<exists>t' outs al. tracker_pass k t = Ret t' \<and> t_idle t' \<and>
    t_now t' = t_now t + tt_elapsed k \<and> t_timeout t' = t_timeout t \<and> arrivals (t_socket t') = ds' \<and>
    served (t_now t') (t_nodes t) (received ms) outs al \<and>
    t_nodes t' = drop_old (uint (t_timeout t)) (t_now t') al \<and>
    sent_datagrams (t_socket t') = sent_datagrams (t_socket t) @ outs"
proof -
  note i = assms(1) [unfolded t_idle_def]
  obtain w where w: "UdpWrapper_try_read (t_wrapper t) (t_socket t) = Ret (w, (t_socket t)\<lparr>arrivals := ds'\<rparr>)"
    "wf_wrapper w" "buffered w = []" "incoming_queue w = received ms"
    using UdpWrapper_reads [of "t_wrapper t" ms "t_socket t" ds ds'] i assms(3,5,6) by auto
  let ?t = "t\<lparr>t_now := t_now t + tt_elapsed k, t_wrapper := w, t_socket := (t_socket t)\<lparr>arrivals := ds'\<rparr>\<rparr>"
  have "list_all (is_V4 \<circ> snd) (incoming_queue (t_wrapper ?t))" "udp_ready (t_socket ?t)"
    using assms(4) w(4) i by (auto simp: list_all_iff udp_ready_def)
  then obtain t1 where t1: "serve_queue ?t = Ret t1" "udp_ready (t_socket t1)" "\<forall>a \<in> fst ` set (t_nodes t1). is_V4 a"
    using serve_queue_returns [of ?t] i by auto
  from serve_queue_served [OF t1(1)] obtain outs where
    outs: "served (t_now t + tt_elapsed k) (t_nodes t) (received ms) outs (t_nodes t1)"
    "sent_datagrams (t_socket t1) = sent_datagrams (t_socket t) @ outs"
    "same_inputs (?t\<lparr>t_wrapper := w\<lparr>incoming_queue := []\<rparr>\<rparr>) t1"
    using w(4) by auto
  have "serve_events (tt_events k) (t\<lparr>t_now := t_now t + tt_elapsed k\<rparr>) = Ret t1"
    using assms(2) w(1) t1(1) by (simp add: serve_event_def)
  then have "tracker_pass k t = Ret (drop_inactive t1)"
    using i t_unwrap_idle [of "t\<lparr>t_now := t_now t + tt_elapsed k\<rparr>"] by (simp add: tracker_pass_def)
  moreover have "fst ` set (drop_old l s (t_nodes t1)) \<subseteq> fst ` set (t_nodes t1)" for l s
    by (rule image_mono) (auto simp: drop_old_def retain_pairs_def)
  then have "\<forall>a \<in> fst ` set (drop_old l s (t_nodes t1)). is_V4 a" for l s using t1(3) by blast
  then have "t_idle (drop_inactive t1)"
    using outs(3) w(2,3) t1(2) i unfolding t_idle_def same_inputs_def drop_inactive_eq
    by (simp add: wf_wrapper_def buffered_def)
  ultimately show ?thesis using outs by (intro exI [of _ "drop_inactive t1"] exI [of _ outs] exI [of _ "t_nodes t1"])
    (simp add: drop_inactive_eq same_inputs_def)
qed

section \<open>The life of the table\<close>

text \<open>The messages a pass handles, and the signs of life and sweeps of a whole run.\<close>

primrec heard_messages :: "nat \<Rightarrow> tracker \<Rightarrow> message list" where
  "heard_messages 0 t = []"
| "heard_messages (Suc k) t =
     (case UdpWrapper_try_read (t_wrapper t) (t_socket t) of
        Ret (w, u) \<Rightarrow> incoming_queue w @
          (case serve_event t of Ret t' \<Rightarrow> heard_messages k t' | _ \<Rightarrow> [])
      | _ \<Rightarrow> [])"

definition beats :: "instant \<Rightarrow> message list \<Rightarrow> socket_addr life list" where
  "beats s ms = concat (map (\<lambda>(p, a). case p of NetAlive _ \<Rightarrow> [Beat a s] | _ \<Rightarrow> []) ms)"

fun life_of :: "tracker_tick list \<Rightarrow> tracker \<Rightarrow> socket_addr life list" where
  "life_of [] t = []"
| "life_of (k # ks) t =
     (case t_unwrap (t\<lparr>t_now := t_now t + tt_elapsed k\<rparr>) of
        Ret t1 \<Rightarrow> beats (t_now t1) (heard_messages (tt_events k) t1) @ [Sweep (t_now t1)]
      | _ \<Rightarrow> []) @
     (case tracker_pass k t of Ret t' \<Rightarrow> life_of ks t' | _ \<Rightarrow> [])"

lemma beats_append: "beats s (ms @ ms') = beats s ms @ beats s ms'"
  by (simp add: beats_def)

lemma Beat_beats: "Beat a u \<in> set (beats s ms) \<longleftrightarrow> u = s \<and> (\<exists>p. (NetAlive p, a) \<in> set ms)"
  by (auto simp: beats_def split: PDU.splits)

lemma served_beats: "served s al ms outs al' \<Longrightarrow> al' = nodes.run limit (beats s ms) al"
proof (induction rule: served.induct)
  case (served_Cons al m out ms outs al')
  then show ?case by (cases "(s, m, al)" rule: after.cases) (simp_all add: beats_def)
qed (simp add: beats_def)

lemma serve_events_life:
  "serve_events k t = Ret t' \<Longrightarrow> t_nodes t' = nodes.run limit (beats (t_now t) (heard_messages k t)) (t_nodes t) \<and>
     t_now t' = t_now t \<and> t_timeout t' = t_timeout t"
proof (induction k arbitrary: t)
  case 0
  then show ?case by (simp add: beats_def)
next
  case (Suc k)
  obtain t1 where t1: "serve_event t = Ret t1" "serve_events k t1 = Ret t'"
    using Suc.prems by (auto simp: obind_eq_Ret)
  then obtain w u where w: "UdpWrapper_try_read (t_wrapper t) (t_socket t) = Ret (w, u)"
    "serve_queue (t\<lparr>t_wrapper := w, t_socket := u\<rparr>) = Ret t1"
    by (auto simp: serve_event_def obind_eq_Ret)
  from serve_queue_served [OF w(2)] obtain outs where
    "served (t_now t) (t_nodes t) (incoming_queue w) outs (t_nodes t1)" "t_now t1 = t_now t" "t_timeout t1 = t_timeout t"
    by (auto simp: same_inputs_def)
  then show ?case
    using Suc.IH [OF t1(2)] served_beats [of "t_now t" "t_nodes t" "incoming_queue w" outs "t_nodes t1" limit] w(1) t1(1)
    by (simp add: beats_append nodes.run_append)
qed

lemma run_tracker_life:
  "run_tracker ks t = Ret t' \<Longrightarrow>
     t_nodes t' = nodes.run (uint (t_timeout t)) (life_of ks t) (t_nodes t) \<and> t_timeout t' = t_timeout t"
proof (induction ks arbitrary: t)
  case (Cons k ks)
  obtain t2 where t2: "tracker_pass k t = Ret t2" "run_tracker ks t2 = Ret t'"
    using Cons.prems by (auto simp: obind_eq_Ret)
  then obtain t0 t1 where t0: "t_unwrap (t\<lparr>t_now := t_now t + tt_elapsed k\<rparr>) = Ret t0"
    "serve_events (tt_events k) t0 = Ret t1" "t2 = drop_inactive t1"
    by (auto simp: tracker_pass_def obind_eq_Ret)
  have "t_nodes t0 = t_nodes t" "t_timeout t0 = t_timeout t" using t_unwrap_frame [OF t0(1)] by auto
  then show ?case
    using Cons.IH [OF t2(2)] serve_events_life [OF t0(2), of "uint (t_timeout t)"] t0(1,3) t2(1)
    by (simp add: nodes.run_append drop_inactive_eq)
qed simp

text \<open>A new tracker knows nobody.\<close>

lemma tracker_start_facts:
  assumes "tracker_start timeout bound start oks picks = Ret t"
  shows "t_nodes t = [] \<and> t_timeout t = timeout \<and> t_now t = start \<and> bound = Some (t_socket t) \<and> t_wrapper t = UdpWrapper_new"
proof -
  obtain u where u: "bound = Some u"
    using assms by (cases bound) (auto simp: tracker_start_def unwrap_io_def)
  let ?t = "\<lparr>t_timeout = timeout, t_nodes = [], t_wrapper = UdpWrapper_new, t_socket = u,
     t_now = start, t_syscalls = oks, t_picks = picks\<rparr>"
  obtain t1 where t1: "t_unwrap ?t = Ret t1" "t_unwrap t1 = Ret t"
    using assms u by (auto simp: tracker_start_def unwrap_io_def obind_eq_Ret split: option.splits)
  from t_unwrap_frame [OF t1(1)] t_unwrap_frame [OF t1(2)] u show ?thesis by auto
qed

text \<open>The last event of a run of at least one pass is a sweep.\<close>

lemma life_of_sweeps:
  "run_tracker ks t = Ret t' \<Longrightarrow> ks \<noteq> [] \<Longrightarrow> \<exists>es. life_of ks t = es @ [Sweep (t_now t')]"
proof (induction ks arbitrary: t)
  case (Cons k ks)
  obtain t2 where t2: "tracker_pass k t = Ret t2" "run_tracker ks t2 = Ret t'"
    using Cons.prems by (auto simp: obind_eq_Ret)
  then obtain t0 t1 where t0: "t_unwrap (t\<lparr>t_now := t_now t + tt_elapsed k\<rparr>) = Ret t0"
    "serve_events (tt_events k) t0 = Ret t1" "t2 = drop_inactive t1"
    by (auto simp: tracker_pass_def obind_eq_Ret)
  show ?case
  proof (cases ks)
    case Nil
    then have "t' = drop_inactive t1" using t0(3) t2(2) by simp
    then have "t_now t' = t_now t0" using serve_events_life [OF t0(2)] by (simp add: drop_inactive_eq)
    then show ?thesis using t0(1) t2(1) Nil by simp
  next
    case Cons
    then show ?thesis using Cons.IH [OF t2(2)] t2(1) t0(1) by auto
  qed
qed simp

end
