(* ===== verification/Tracker_Properties.thy ===== *)
theory Tracker_Properties
  imports Tracker_Service Wire_Properties
begin

text \<open>
  The properties of the tracker, each with a concrete instance.
\<close>

section \<open>An example tracker\<close>

definition tracker_node_addr :: socket_addr where
  "tracker_node_addr = V4 (0x0A000001, 7000)"

definition tracker_client_addr :: socket_addr where
  "tracker_client_addr = V4 (0x0A000005, 5005)"

definition demo_requests :: "message list" where
  "demo_requests = [(NetAlive NetAlivePdu_new, tracker_node_addr),
     (NetGetNode NetGetNodePdu_new, tracker_client_addr), (StunLookup StunLookupPdu_new, tracker_client_addr)]"

definition demo_tracker_state :: tracker where
  "demo_tracker_state = \<lparr>t_timeout = 30, t_nodes = [], t_wrapper = UdpWrapper_new,
     t_socket = demo_udp\<lparr>arrivals := datagrams demo_requests\<rparr>, t_now = 0, t_syscalls = [], t_picks = []\<rparr>"

definition demo_pass :: tracker_tick where
  "demo_pass = \<lparr>tt_elapsed = 7, tt_events = 1\<rparr>"

lemma demo_requests_sendable: "list_all (sendable \<circ> fst) demo_requests"
  "list_all (is_V4 \<circ> snd) demo_requests" "received demo_requests = demo_requests"
  by (simp_all add: demo_requests_def sendable_def wf_pdu_def NetAlivePdu_new_def NetAlivePdu_to_vec_def
      NetGetNodePdu_new_def NetGetNodePdu_to_vec_def StunLookupPdu_new_def StunLookupPdu_to_vec_def
      BUFFER_SIZE_def tracker_node_addr_def tracker_client_addr_def)

lemma demo_tracker_facts: "t_idle demo_tracker_state" "t_nodes demo_tracker_state = []"
  "arrivals (t_socket demo_tracker_state) = datagrams demo_requests @ []"
  "sent_datagrams (t_socket demo_tracker_state) = []" "t_now demo_tracker_state = 0"
  "t_timeout demo_tracker_state = 30"
  using UdpWrapper_new_facts
  by (simp_all add: t_idle_def demo_tracker_state_def demo_udp_def udp_ready_def)

section \<open>Answers\<close>

text \<open>C17: A pass of the tracker over a batch of datagrams answers them in order: a \<open>STUN_LOOKUP\<close> with the
  address it came from, a \<open>NET_GET_NODE\<close> with the address of a node that is in the table at that
  moment, or (0, 0) exactly if there is none, everything else not at all; every \<open>NET_ALIVE\<close> enters its
  sender with the time of the pass, and at the end the nodes that are too old are gone.\<close>

theorem tracker_serves:
  assumes "t_idle t" "tt_events k = 1" "list_all (sendable \<circ> fst) ms" "list_all (is_V4 \<circ> snd) ms"
    and "arrivals (t_socket t) = datagrams ms @ ds" "round_ends ds ds'"
  shows "\<exists>t' outs al. tracker_pass k t = Ret t' \<and> t_idle t' \<and> arrivals (t_socket t') = ds' \<and>
    served (t_now t + tt_elapsed k) (t_nodes t) (received ms) outs al \<and>
    sent_datagrams (t_socket t') = sent_datagrams (t_socket t) @ outs \<and>
    t_nodes t' = drop_old (uint (t_timeout t)) (t_now t + tt_elapsed k) al"
  using tracker_pass_serves [OF assms] by auto

theorem tracker_serves_witness:
  "\<exists>t'. tracker_pass demo_pass demo_tracker_state = Ret t' \<and> sent_datagrams (t_socket t') =
     [(tracker_client_addr, to_bytes (NetGetNodeResponse (NetGetNodeResponsePdu_new 0x0A000001 7000))),
      (tracker_client_addr, to_bytes (StunResponse (StunResponsePdu_new 0x0A000005)))] \<and>
     last_sign (t_nodes t') tracker_node_addr = Some 7"
proof -
  have "tt_events demo_pass = 1" "round_ends [] []" by (simp_all add: demo_pass_def round_ends_def)
  from tracker_serves [OF demo_tracker_facts(1) this(1) demo_requests_sendable(1,2) demo_tracker_facts(3) this(2)]
  obtain t' outs al where t': "tracker_pass demo_pass demo_tracker_state = Ret t'"
    "served 7 [] demo_requests outs al" "sent_datagrams (t_socket t') = outs" "t_nodes t' = drop_old 30 7 al"
    by (auto simp: demo_tracker_facts demo_requests_sendable demo_pass_def)
  let ?al = "heard_from tracker_node_addr 7 []"
  have keys: "fst ` set ?al = {tracker_node_addr}" "?al \<noteq> []"
    using keys_heard_from [of tracker_node_addr 7 "[]"] by (simp_all, force)
  have get: "get_node_reply ?al = (\<lambda>r. r = NetGetNodeResponsePdu_new 0x0A000001 7000)"
    using keys by (auto simp: get_node_reply_def tracker_node_addr_def)
  have "al = ?al \<and> outs =
     [(tracker_client_addr, to_bytes (NetGetNodeResponse (NetGetNodeResponsePdu_new 0x0A000001 7000))),
      (tracker_client_addr, to_bytes (StunResponse (StunResponsePdu_new 0x0A000005)))]"
    using t'(2) unfolding demo_requests_def served_Cons_iff served_Nil_iff answered.simps after.simps get
    by (auto simp: tracker_client_addr_def simp del: to_bytes.simps)
  moreover have "last_sign (drop_old 30 7 ?al) tracker_node_addr = Some 7"
    by (simp add: last_sign_drop_old distinct_heard_from last_sign_heard elapsed_secs_def)
  ultimately show ?thesis using t' by (intro exI [of _ t']) (simp del: to_bytes.simps)
qed

section \<open>Who is listed\<close>

lemma listed_on_time:
  assumes "tracker_start timeout bound start oks picks = Ret t0" "run_tracker ks t0 = Ret t"
    and "life_of ks t0 = es @ Beat a s # fs" "nodes.on_time (uint timeout) a s fs"
  shows "last_sign (t_nodes t) a \<noteq> None"
proof -
  let ?t = "nodes.run (uint timeout) es []"
  have "distinct_keys ?t" by (rule nodes.invar_run) simp
  then show ?thesis
    using nodes.seen_on_time [of "heard_from a s ?t" a s "uint timeout" fs] assms(3,4)
      run_tracker_life [OF assms(2)] tracker_start_facts [OF assms(1)]
    by (simp add: nodes.run_append last_sign_heard distinct_heard_from)
qed

text \<open>C12: In every run of the tracker the table is right.  A node is listed only with the time of a
  \<open>NET_ALIVE\<close> the tracker received from it, and at the end of a pass only if that is less than the
  timeout ago; a node is listed whenever since one of its \<open>NET_ALIVE\<close>s no pass ended later than the
  timeout after its last one.\<close>

theorem tracker_lists_live:
  assumes "tracker_start timeout bound start oks picks = Ret t0" "run_tracker ks t0 = Ret t" "ks \<noteq> []"
  shows "(\<forall>a u. last_sign (t_nodes t) a = Some u \<longrightarrow>
      Beat a u \<in> set (life_of ks t0) \<and> elapsed_secs (t_now t) u < uint timeout) \<and>
    (\<forall>a s es fs. life_of ks t0 = es @ Beat a s # fs \<and> nodes.on_time (uint timeout) a s fs \<longrightarrow>
      last_sign (t_nodes t) a \<noteq> None)"
proof -
  note t0 = tracker_start_facts [OF assms(1)]
  have run: "t_nodes t = nodes.run (uint timeout) (life_of ks t0) []"
    using run_tracker_life [OF assms(2)] t0 by simp
  have 1: "Beat a u \<in> set (life_of ks t0)" if "last_sign (t_nodes t) a = Some u" for a u
    using nodes.seen_origin [of "[]" "uint timeout" "life_of ks t0" a u] that run by simp
  obtain es where es: "life_of ks t0 = es @ [Sweep (t_now t)]" using life_of_sweeps [OF assms(2,3)] by blast
  have 2: "elapsed_secs (t_now t) u < uint timeout" if "last_sign (t_nodes t) a = Some u" for a u
    using nodes.seen_fresh [of "[]" "uint timeout" es "t_now t" a u] that run es by simp
  from 1 2 listed_on_time [OF assms(1,2)] show ?thesis by blast
qed

lemma demo_life:
  "tracker_start 30 (Some (demo_udp\<lparr>arrivals := datagrams demo_requests\<rparr>)) 0 [] [] = Ret demo_tracker_state"
  "\<exists>t. run_tracker [demo_pass] demo_tracker_state = Ret t \<and> t_now t = 7"
  "life_of [demo_pass] demo_tracker_state = [Beat tracker_node_addr 7, Sweep 7]"
proof -
  let ?u = "demo_udp\<lparr>arrivals := datagrams demo_requests\<rparr>"
  show "tracker_start 30 (Some ?u) 0 [] [] = Ret demo_tracker_state"
    by (simp add: tracker_start_def unwrap_io_def t_unwrap_def demo_tracker_state_def demo_udp_def)
  have "tt_events demo_pass = 1" "round_ends [] []" by (simp_all add: demo_pass_def round_ends_def)
  from tracker_pass_serves [OF demo_tracker_facts(1) this(1) demo_requests_sendable(1,2) demo_tracker_facts(3) this(2)]
  obtain t where pass: "tracker_pass demo_pass demo_tracker_state = Ret t" "t_now t = 7"
    using demo_tracker_facts(5) by (auto simp: demo_pass_def)
  then show "\<exists>t. run_tracker [demo_pass] demo_tracker_state = Ret t \<and> t_now t = 7" by simp
  obtain w where w: "UdpWrapper_try_read UdpWrapper_new ?u = Ret (w, ?u\<lparr>arrivals := []\<rparr>)"
    "incoming_queue w = demo_requests"
    using UdpWrapper_reads [OF UdpWrapper_new_facts(1,2) demo_requests_sendable(1), of ?u "[]" "[]"]
    by (auto simp: round_ends_def demo_requests_sendable UdpWrapper_new_def)
  let ?t = "demo_tracker_state\<lparr>t_now := 7\<rparr>"
  have un: "t_unwrap (demo_tracker_state\<lparr>t_now := t_now demo_tracker_state + tt_elapsed demo_pass\<rparr>) = Ret ?t"
    by (simp add: t_unwrap_def demo_tracker_state_def demo_pass_def)
  then obtain t2 where "serve_event ?t = Ret t2"
    using pass un by (auto simp: tracker_pass_def demo_pass_def obind_eq_Ret)
  then have "heard_messages (tt_events demo_pass) ?t = demo_requests"
    using w by (simp add: demo_tracker_state_def demo_pass_def)
  then have "life_of [demo_pass] demo_tracker_state = beats 7 demo_requests @ [Sweep 7]"
    using un pass by simp
  then show "life_of [demo_pass] demo_tracker_state = [Beat tracker_node_addr 7, Sweep 7]"
    by (simp add: beats_def demo_requests_def del: life_of.simps)
qed

theorem tracker_lists_live_witness:
  "\<exists>t. run_tracker [demo_pass] demo_tracker_state = Ret t \<and> last_sign (t_nodes t) tracker_node_addr \<noteq> None"
proof -
  obtain t where t: "run_tracker [demo_pass] demo_tracker_state = Ret t" using demo_life(2) by blast
  have "life_of [demo_pass] demo_tracker_state = [] @ Beat tracker_node_addr 7 # [Sweep 7]"
    by (simp add: demo_life(3) del: life_of.simps)
  moreover have "nodes.on_time (uint (30 :: 64 word)) tracker_node_addr 7 [Sweep 7]"
    by (simp add: elapsed_secs_def)
  ultimately show ?thesis using tracker_lists_live [OF demo_life(1) t] t by blast
qed

section \<open>What stops the tracker\<close>

text \<open>C32: The tracker is stopped by a poll that is interrupted, and by one datagram: one with an unknown
  type byte, a request for a node while the one its map puts first registered over IPv6, or a request
  for its address from a peer over IPv6.\<close>

theorem tracker_stops:
  assumes "wf_wrapper (t_wrapper t)" "buffered (t_wrapper t) = []" "incoming_queue (t_wrapper t) = []"
    and "t_syscalls t = []" "tt_events k = Suc e" "arrivals (t_socket t) = Datagram bs a # DWouldBlock # ds"
    and "length bs \<le> BUFFER_SIZE"
  shows "run_tracker (k # ks) (t\<lparr>t_syscalls := False # oks\<rparr>) = Panic UnwrapErr \<and>
    (bs \<noteq> [] \<and> hd bs \<notin> set pdu_ids \<longrightarrow> run_tracker (k # ks) t = Panic (InvalidPdu bs)) \<and>
    (bs = to_bytes (NetGetNode NetGetNodePdu_new) \<and> fst (first_key t) = Some (V6 b p f sc) \<longrightarrow>
      run_tracker (k # ks) t = Panic NotIpv4) \<and>
    (bs = to_bytes (StunLookup StunLookupPdu_new) \<and> a = V6 b p f sc \<longrightarrow> run_tracker (k # ks) t = Panic NotIpv4)"
proof -
  let ?t = "t\<lparr>t_now := t_now t + tt_elapsed k\<rparr>"
  have fs: "length bs \<le> free_space (t_wrapper t)"
    using assms(2,7) length_buffered [OF assms(1)] by (simp add: free_space_def)
  have wire: "sendable (NetGetNode NetGetNodePdu_new)" "sendable (StunLookup StunLookupPdu_new)"
    by (simp_all add: sendable_def wf_pdu_def BUFFER_SIZE_def NetGetNodePdu_new_def NetGetNodePdu_to_vec_def
        StunLookupPdu_new_def StunLookupPdu_to_vec_def)
  note refuses = serve_event_refuses [of ?t, simplified, OF assms(1-3)]
  have "serve_event ?t = Panic (InvalidPdu bs)" if "bs \<noteq> []" "hd bs \<notin> set pdu_ids"
  proof -
    have "parse_pdu bs = Panic (InvalidPdu bs)" using that by (simp add: parse_pdu_Panic_iff)
    then have "parse_loop (Ret a) (filled (t_wrapper t) bs) = Panic (InvalidPdu bs)"
      using filled_facts [OF assms(1) fs] assms(2) by (simp add: parse_loop_eq)
    then show ?thesis
      using assms(6) fs by (simp add: serve_event_def UdpWrapper_try_read_def udp_read_loop_eq [OF assms(1)])
  qed
  moreover have "serve_event ?t = Panic NotIpv4"
    if "bs = to_bytes (NetGetNode NetGetNodePdu_new)" "fst (first_key t) = Some (V6 b p f sc)"
  proof (rule refuses [OF wire(1)])
    show "arrivals (t_socket t) = Datagram (to_bytes (NetGetNode NetGetNodePdu_new)) a # DWouldBlock # ds"
      using assms(6) that(1) by simp
  qed (use that(2) in \<open>auto simp: first_key_def serve_get_node_def split: if_splits\<close>)
  moreover have "serve_event ?t = Panic NotIpv4" if "bs = to_bytes (StunLookup StunLookupPdu_new)" "a = V6 b p f sc"
  proof (rule refuses [OF wire(2)])
    show "arrivals (t_socket t) = Datagram (to_bytes (StunLookup StunLookupPdu_new)) a # DWouldBlock # ds"
      using assms(6) that(1) by simp
  qed (use that(2) in \<open>simp add: serve_stun_def\<close>)
  moreover have "run_tracker (k # ks) t = Panic x" if "serve_event ?t = Panic x" for x
    using tracker_pass_panics [OF assms(4,5) that] by simp
  ultimately show ?thesis by (simp add: tracker_pass_def t_unwrap_def del: to_bytes.simps)
qed

text \<open>A tracker that knows two nodes, the second of which is over IPv6 and comes first.\<close>

definition demo_v6_tracker :: "u8 list \<Rightarrow> tracker" where
  "demo_v6_tracker bs = demo_tracker_state\<lparr>t_nodes := [(tracker_node_addr, \<lparr>tn_last_alive = 0\<rparr>),
     (V6 1 7000 0 0, \<lparr>tn_last_alive = 0\<rparr>)], t_picks := [1],
     t_socket := demo_udp\<lparr>arrivals := [Datagram bs tracker_client_addr, DWouldBlock]\<rparr>\<rparr>"

theorem tracker_stops_witness:
  "run_tracker [demo_pass] (demo_v6_tracker [9]) = Panic (InvalidPdu [9]) \<and>
   run_tracker [demo_pass] (demo_v6_tracker (to_bytes (NetGetNode NetGetNodePdu_new))) = Panic NotIpv4"
proof -
  have t: "wf_wrapper (t_wrapper (demo_v6_tracker bs))" "buffered (t_wrapper (demo_v6_tracker bs)) = []"
    "incoming_queue (t_wrapper (demo_v6_tracker bs)) = []" "t_syscalls (demo_v6_tracker bs) = []"
    "tt_events demo_pass = Suc 0" "arrivals (t_socket (demo_v6_tracker bs)) = Datagram bs tracker_client_addr # DWouldBlock # []"
    "fst (first_key (demo_v6_tracker bs)) = Some (V6 1 7000 0 0)" for bs
    using demo_tracker_facts(1) by (simp_all add: demo_v6_tracker_def t_idle_def demo_pass_def first_key_def)
  have len: "length (to_bytes (NetGetNode NetGetNodePdu_new)) \<le> BUFFER_SIZE" "length [9 :: u8] \<le> BUFFER_SIZE"
    "(9 :: u8) \<notin> set pdu_ids"
    by (simp_all add: NetGetNodePdu_to_vec_def NetGetNodePdu_new_def BUFFER_SIZE_def pdu_ids_def)
  from tracker_stops [OF t(1-6) len(1)] tracker_stops [OF t(1-6) len(2)] show ?thesis
    using t(7) len(3) by (auto simp del: to_bytes.simps run_tracker.simps)
qed

end
