(* ===== verification/Keep_Alive.thy ===== *)
theory Keep_Alive
  imports Node_Properties Tracker_Properties
begin

text \<open>
  Signs of life from the node that sends them to the tracker that forgets nodes it does not
  hear of: how far apart they are, and why that is close enough.
\<close>

section \<open>The times of a node at rest\<close>

text \<open>The instants at which a node that starts passes at the given intervals sends its \<open>NET_ALIVE\<close>s.\<close>

fun alive_at :: "tick list \<Rightarrow> instant \<Rightarrow> instant \<Rightarrow> instant list" where
  "alive_at [] s u = []"
| "alive_at (t # ts) s u =
     (let s = s + tick_elapsed t in
      if secs 11 \<le> s - u then s # alive_at ts s s else alive_at ts s u)"

definition quiet :: "tick \<Rightarrow> bool" where
  "quiet t \<longleftrightarrow> tick_events t = [] \<and> \<not> tick_signal t \<and> 0 \<le> tick_elapsed t \<and> tick_elapsed t \<le> secs 5"

lemma q6_quiet:
  assumes "udp_idle n" "quiet t" "\<not> should_close n"
  shows "\<exists>la u. q6 t n = Ret (n\<lparr>now := now n + tick_elapsed t, last_alive := la, udp_sock := u, should_close := False\<rparr>) \<and>
    udp_idle (n\<lparr>udp_sock := u\<rparr>) \<and> la = (if secs 11 \<le> now n + tick_elapsed t - last_alive n then now n + tick_elapsed t else last_alive n) \<and>
    sent_datagrams u = sent_datagrams (udp_sock n) @
      (if secs 11 \<le> now n + tick_elapsed t - last_alive n then [(tracker_addr n, [NET_ALIVE_ID])] else [])"
proof -
  let ?n = "n\<lparr>now := now n + tick_elapsed t\<rparr>"
  have i: "udp_idle ?n" using assms(1) by (simp add: udp_idle_def)
  have e: "elapsed_secs (now ?n) (last_alive ?n) > 10 \<longleftrightarrow> secs 11 \<le> now n + tick_elapsed t - last_alive n"
    by (simp add: elapsed_secs_def secs_def) linarith
  have b: "to_bytes (NetAlive NetAlivePdu_new) = [NET_ALIVE_ID]"
    by (simp add: NetAlivePdu_to_vec_def NetAlivePdu_new_def)
  let ?la = "if secs 11 \<le> now n + tick_elapsed t - last_alive n then now n + tick_elapsed t else last_alive n"
  from send_alive_idle [OF i, unfolded e b] obtain u where u: "send_alive ?n = Ret (?n\<lparr>last_alive := ?la, udp_sock := u\<rparr>)"
    "udp_idle (?n\<lparr>udp_sock := u\<rparr>)" "sent_datagrams u = sent_datagrams (udp_sock n) @
      (if secs 11 \<le> now n + tick_elapsed t - last_alive n then [(tracker_addr n, [NET_ALIVE_ID])] else [])"
    by (auto cong: if_cong)
  let ?m = "?n\<lparr>last_alive := ?la, udp_sock := u\<rparr>"
  have "q6 t n = Ret (?m\<lparr>should_close := False\<rparr>)"
    using q6_pass [OF u(1), of ?m] assms by (simp add: quiet_def udp_idle_def)
  then show ?thesis using u(2,3) by (intro exI [of _ ?la] exI [of _ u]) (simp add: udp_idle_def)
qed

lemma quiet_run:
  assumes "udp_idle n" "\<not> should_close n" "running n" "state n = Q6" "list_all quiet ts"
  shows "\<exists>n'. run_node bld ts n = Ret n' \<and> state n' = Q6 \<and> now n' = now n + sum_list (map tick_elapsed ts) \<and>
    sent_datagrams (udp_sock n') = sent_datagrams (udp_sock n) @
      map (\<lambda>_. (tracker_addr n, [NET_ALIVE_ID])) (alive_at ts (now n) (last_alive n))"
  using assms
proof (induction ts arbitrary: n)
  case (Cons t ts)
  obtain la u where q6: "q6 t n = Ret (n\<lparr>now := now n + tick_elapsed t, last_alive := la, udp_sock := u, should_close := False\<rparr>)"
    "udp_idle (n\<lparr>udp_sock := u\<rparr>)"
    "la = (if secs 11 \<le> now n + tick_elapsed t - last_alive n then now n + tick_elapsed t else last_alive n)"
    "sent_datagrams u = sent_datagrams (udp_sock n) @
      (if secs 11 \<le> now n + tick_elapsed t - last_alive n then [(tracker_addr n, [NET_ALIVE_ID])] else [])"
    using q6_quiet [of n t] Cons.prems by auto
  let ?m = "n\<lparr>now := now n + tick_elapsed t, last_alive := la, udp_sock := u, should_close := False\<rparr>"
  have "udp_idle ?m" using q6(2) by (simp add: udp_idle_def)
  then obtain n' where "run_node bld ts ?m = Ret n'" "state n' = Q6" "now n' = now ?m + sum_list (map tick_elapsed ts)"
    "sent_datagrams (udp_sock n') = sent_datagrams u @ map (\<lambda>_. (tracker_addr n, [NET_ALIVE_ID])) (alive_at ts (now ?m) la)"
    using Cons.IH [of ?m] Cons.prems by auto
  then show ?case using q6 Cons.prems(3,4) by (intro exI [of _ n']) (simp add: node_step_def Let_def)
qed simp

text \<open>At most sixteen seconds lie between two of them, and between the last one and the end.\<close>

abbreviation close_by :: "int \<Rightarrow> instant list \<Rightarrow> bool" where
  "close_by g \<equiv> successively (\<lambda>x y. y - x \<le> g)"

lemma alive_close_by:
  assumes "list_all quiet ts" "s - u < secs 11" "e = s + sum_list (map tick_elapsed ts)"
  shows "close_by (secs 16) (u # alive_at ts s u @ [e])"
  using assms
proof (induction ts s u rule: alive_at.induct)
  case (1 s u)
  then show ?case by (simp add: secs_def)
next
  case (2 t ts s u)
  let ?s = "s + tick_elapsed t"
  have d: "0 \<le> tick_elapsed t" "tick_elapsed t \<le> secs 5" using 2(3) by (auto simp: quiet_def)
  show ?case
  proof (cases "secs 11 \<le> ?s - u")
    case True
    then have "close_by (secs 16) (?s # alive_at ts ?s ?s @ [e])" using 2 by (simp add: secs_def add.assoc)
    then show ?thesis using True 2(4) d by (simp add: Let_def secs_def)
  next
    case False
    then show ?thesis using 2 by (simp add: Let_def add.assoc)
  qed
qed

lemma alive_all_close_by:
  assumes "list_all quiet ts" "e = s + sum_list (map tick_elapsed ts)"
  shows "close_by (secs 16) (alive_at ts s u @ [e])"
proof (cases ts)
  case (Cons t ts')
  let ?s = "s + tick_elapsed t"
  have "close_by (secs 16) (?s # alive_at ts' ?s ?s @ [e])"
    using assms Cons by (intro alive_close_by) (simp_all add: secs_def add.assoc)
  moreover have "close_by (secs 16) (alive_at ts' ?s u @ [e])" if "?s - u < secs 11"
    using alive_close_by [of ts' ?s u e] assms Cons that by (simp add: successively_Cons add.assoc)
  ultimately show ?thesis using Cons by (simp add: Let_def)
qed (use assms in simp)

text \<open>What arrives late stays close.\<close>

lemma close_by_delayed:
  assumes "list_all2 (\<lambda>s r. s \<le> r \<and> r \<le> s + d) ss rs" "close_by g (ss @ [x])" "e \<le> x + d"
  shows "close_by (g + d) (rs @ [e])"
  using assms
proof (induction ss rs rule: list_all2_induct)
  case (Cons s ss r rs)
  then have "close_by (g + d) (rs @ [e])" by (simp add: successively_Cons)
  moreover have "hd (rs @ [e]) - r \<le> g + d"
    using Cons by (cases ss; cases rs) (auto simp: successively_Cons)
  ultimately show ?case by (simp add: successively_Cons)
qed simp

lemma close_by_take:
  assumes "close_by g (xs @ [e])" "k \<le> length xs"
  shows "close_by g (take k xs @ [(xs @ [e]) ! k])"
proof -
  have "take (Suc k) (xs @ [e]) = take k xs @ [(xs @ [e]) ! k]"
    using take_Suc_conv_app_nth [of k "xs @ [e]"] assms(2) by simp
  then show ?thesis
    using assms(1) append_take_drop_id [of "Suc k" "xs @ [e]"] by (metis successively_append_iff)
qed

section \<open>Close enough for the table\<close>

primrec life_time :: "'k life \<Rightarrow> instant" where
  "life_time (Beat k s) = s"
| "life_time (Sweep s) = s"

fun beat_times :: "'k \<Rightarrow> 'k life list \<Rightarrow> instant list" where
  "beat_times k [] = []"
| "beat_times k (Beat k' s # es) = (if k' = k then s # beat_times k es else beat_times k es)"
| "beat_times k (Sweep s # es) = beat_times k es"

lemma beat_times_append: "beat_times k (es @ fs) = beat_times k es @ beat_times k fs"
  by (induction k es rule: beat_times.induct) auto

lemma beat_times_first:
  "beat_times k es = r # rs \<Longrightarrow> \<exists>es1 es2. es = es1 @ Beat k r # es2 \<and> beat_times k es2 = rs"
proof (induction k es rule: beat_times.induct)
  case (2 k k' s es)
  show ?case
  proof (cases "k' = k")
    case True
    then have "Beat k' s # es = [] @ Beat k r # es \<and> beat_times k es = rs" using 2(3) by simp
    then show ?thesis by blast
  next
    case False
    then obtain es1 es2 where "es = es1 @ Beat k r # es2" "beat_times k es2 = rs" using 2 by auto
    then have "Beat k' s # es = (Beat k' s # es1) @ Beat k r # es2 \<and> beat_times k es2 = rs" by simp
    then show ?thesis by blast
  qed
next
  case (3 k s es)
  then obtain es1 es2 where "es = es1 @ Beat k r # es2" "beat_times k es2 = rs" by auto
  then have "Sweep s # es = (Sweep s # es1) @ Beat k r # es2 \<and> beat_times k es2 = rs" by simp
  then show ?case by blast
qed simp

lemma beat_times_later: "\<forall>x \<in> set es. s \<le> life_time x \<Longrightarrow> \<forall>r \<in> set (beat_times k es). s \<le> r"
  by (induction k es rule: beat_times.induct) auto

lemma close_by_on_time:
  assumes "sorted (map life_time es)" "\<forall>x \<in> set es. life_time x \<le> e"
    and "close_by g (u # beat_times k es @ [e])" "g < secs limit" "0 < limit"
  shows "nodes.on_time limit k u es"
  using assms
proof (induction limit k u es rule: nodes.on_time.induct)
  case (3 limit k u s es)
  have "s \<le> hd (beat_times k es @ [e])"
    using beat_times_later [of es s k] 3(2,3) by (cases "beat_times k es") auto
  moreover have "hd (beat_times k es @ [e]) - u \<le> g" using 3(4) by (simp add: successively_Cons)
  ultimately have "elapsed_secs s u < limit" using 3(5,6) elapsed_secs_ge [of limit s u] by linarith
  then show ?case using 3 by simp
qed (auto simp: successively_Cons split: if_splits)

text \<open>The life of a tracker's table is in the order of time.\<close>

lemma life_of_sorted:
  assumes "run_tracker ks t = Ret t'" "\<forall>k \<in> set ks. 0 \<le> tt_elapsed k"
  shows "sorted (map life_time (life_of ks t)) \<and> (\<forall>x \<in> set (life_of ks t). t_now t \<le> life_time x \<and> life_time x \<le> t_now t') \<and>
    t_now t \<le> t_now t'"
  using assms
proof (induction ks arbitrary: t)
  case (Cons k ks)
  obtain t0 t1 t2 where t: "t_unwrap (t\<lparr>t_now := t_now t + tt_elapsed k\<rparr>) = Ret t0" "serve_events (tt_events k) t0 = Ret t1"
    "t2 = drop_inactive t1" "tracker_pass k t = Ret t2" "run_tracker ks t2 = Ret t'"
    using Cons.prems(1) by (auto simp: tracker_pass_def obind_eq_Ret)
  have "t_now t0 = t_now t + tt_elapsed k" using t(1) by (auto simp: t_unwrap_def split: list.splits if_splits)
  moreover have "t_now t2 = t_now t0" using serve_events_life [OF t(2)] t(3) by (simp add: drop_inactive_eq)
  ultimately have n: "t_now t2 = t_now t0" "t_now t \<le> t_now t0" using Cons.prems(2) by simp_all
  note IH = Cons.IH [OF t(5)]
  have b: "sorted (map life_time (beats s ms)) \<and> (\<forall>x \<in> set (beats s ms). life_time x = s)" for s ms
  proof -
    have "\<forall>x \<in> set (beats s ms). life_time x = s" by (auto simp: beats_def split: PDU.splits)
    then have "map life_time (beats s ms) = map (\<lambda>_. s) (beats s ms)" by simp
    then show ?thesis using \<open>\<forall>x \<in> set (beats s ms). life_time x = s\<close> by (simp add: map_replicate_const)
  qed
  show ?case using IH Cons.prems(2) n b [of "t_now t0"] t(1,4)
    by (fastforce simp: sorted_append)
qed simp

section \<open>A node that runs is listed\<close>

text \<open>C13: A node at rest is never forgotten.  Its passes begin at most five seconds apart, so that it sends
  a \<open>NET_ALIVE\<close> at least every sixteen seconds; if these reach the tracker in order and within \<open>d\<close>,
  all but those still on their way, and the timeout of the tracker is more than sixteen seconds and \<open>d\<close> (the
  default is thirty seconds), the tracker lists the node from the first one it receives on.\<close>

theorem node_stays_listed:
  assumes "udp_idle n" "\<not> should_close n" "running n" "state n = Q6" "list_all quiet ts"
    and "tracker_start timeout bound start oks picks = Ret t0" "run_tracker ks t0 = Ret t" "\<forall>k \<in> set ks. 0 \<le> tt_elapsed k"
    and "sent = alive_at ts (now n) (last_alive n)" "beat_times a (life_of ks t0) \<noteq> []"
    and "list_all2 (\<lambda>s r. s \<le> r \<and> r \<le> s + d) (take k sent) (beat_times a (life_of ks t0))" "\<forall>s \<in> set (drop k sent). t_now t \<le> s + d"
    and "t_now t \<le> now n + sum_list (map tick_elapsed ts)" "secs 16 + d < secs (uint timeout)"
  shows "(\<exists>n'. run_node bld ts n = Ret n' \<and> state n' = Q6 \<and> now n' = now n + sum_list (map tick_elapsed ts) \<and>
      sent_datagrams (udp_sock n') = sent_datagrams (udp_sock n) @ map (\<lambda>_. (tracker_addr n, [NET_ALIVE_ID])) sent) \<and>
    last_sign (t_nodes t) a \<noteq> None"
proof -
  let ?e = "now n + sum_list (map tick_elapsed ts)"
  obtain r rs where r: "beat_times a (life_of ks t0) = r # rs" using assms(10) by (cases "beat_times a (life_of ks t0)") auto
  then have d: "0 \<le> d" using assms(11) by (auto simp: list_all2_Cons2)
  define j where "j = min k (length sent)"
  have j: "j \<le> length sent" "take k sent = take j sent" "drop k sent = drop j sent"
    by (auto simp: j_def min_def)
  have "close_by (secs 16) (take j sent @ [(sent @ [?e]) ! j])"
    using close_by_take [OF alive_all_close_by [OF assms(5) refl, of "now n" "last_alive n"]] j(1) assms(9) by simp
  moreover have "t_now t \<le> (sent @ [?e]) ! j + d"
  proof (cases "j < length sent")
    case True
    then have "sent ! j \<in> set (drop j sent)" by (metis Cons_nth_drop_Suc list.set_intros(1))
    then show ?thesis using True assms(12) j(3) by (simp add: nth_append)
  next
    case False
    then show ?thesis using assms(13) d j(1) by (simp add: nth_append)
  qed
  ultimately have c: "close_by (secs 16 + d) (r # rs @ [t_now t])"
    using close_by_delayed [of d "take j sent" "r # rs"] assms(11) r j(2) by simp
  obtain es fs where l: "life_of ks t0 = es @ Beat a r # fs" "beat_times a fs = rs" using beat_times_first [OF r] by blast
  have "0 < uint timeout" using assms(14) d by (simp add: secs_def)
  moreover have "sorted (map life_time fs)" "\<forall>x \<in> set fs. life_time x \<le> t_now t"
    using life_of_sorted [OF assms(7,8)] l(1) by (auto simp: sorted_append)
  ultimately have "nodes.on_time (uint timeout) a r fs"
    using close_by_on_time [of fs "t_now t" "secs 16 + d" r a "uint timeout"] c l(2) assms(14) by simp
  then have "last_sign (t_nodes t) a \<noteq> None" by (rule listed_on_time [OF assms(6,7) l(1)])
  then show ?thesis using quiet_run [OF assms(1-5), of bld] assms(9) by blast
qed

definition demo_quiet :: tick where
  "demo_quiet = \<lparr>tick_elapsed = 4, tick_events = [], tick_signal = False\<rparr>"

definition demo_rest :: node where
  "demo_rest = demo_node\<lparr>last_alive := - secs 100\<rparr>"

theorem node_stays_listed_witness:
  "\<exists>n' t. run_node Debug [demo_quiet, demo_quiet] demo_rest = Ret n' \<and>
     sent_datagrams (udp_sock n') = [(V4 (0x0A0000FF, 9999), [NET_ALIVE_ID])] \<and>
     run_tracker [demo_pass] demo_tracker_state = Ret t \<and> last_sign (t_nodes t) tracker_node_addr \<noteq> None"
proof -
  let ?ts = "[demo_quiet, demo_quiet]"
  obtain t where t: "run_tracker [demo_pass] demo_tracker_state = Ret t" "t_now t = 7" using demo_life(2) by blast
  have n: "udp_idle demo_rest" "\<not> should_close demo_rest" "running demo_rest" "state demo_rest = Q6" "list_all quiet ?ts"
    by (simp_all add: demo_rest_def demo_node_def udp_idle_def demo_udp_ready quiet_def demo_quiet_def secs_def)
  have a: "[4] = alive_at ?ts (now demo_rest) (last_alive demo_rest)"
    by (simp add: demo_rest_def demo_node_def demo_quiet_def secs_def Let_def)
  have k: "\<forall>k \<in> set [demo_pass]. 0 \<le> tt_elapsed k" by (simp add: demo_pass_def)
  have b: "beat_times tracker_node_addr (life_of [demo_pass] demo_tracker_state) = [7]" by (simp add: demo_life(3) del: life_of.simps)
  from node_stays_listed [OF n demo_life(1) t(1) k a, of tracker_node_addr "secs 1" 1 Debug] t show ?thesis
    by (auto simp: b demo_rest_def demo_node_def demo_udp_def demo_quiet_def secs_def simp del: run_node.simps run_tracker.simps life_of.simps)
qed

end
