(* ===== verification/Client.thy ===== *)
theory Client
  imports Udp_Facts
begin

text \<open>
  The debug client, \<^verbatim>\<open>resources/TestNode/src/bin/client.rs\<close>: it asks the tracker for its own
  address and for a node, sends the rows of a CSV file to that node as inserts, and then
  executes the commands it reads from the standard input.

  The standard input and the rows the CSV library reads are scripts, like the sockets.  Of
  what the client prints the answers to its lookups are kept.
\<close>

section \<open>Strings\<close>

text \<open>\<open>str::trim\<close>, which removes the white space of Unicode.\<close>

definition is_whitespace :: "rchar \<Rightarrow> bool" where
  "is_whitespace c \<longleftrightarrow> 0x09 \<le> c \<and> c \<le> 0x0D \<or> c = 0x20 \<or> c = 0x85 \<or> c = 0xA0 \<or> c = 0x1680 \<or>
     0x2000 \<le> c \<and> c \<le> 0x200A \<or> c = 0x2028 \<or> c = 0x2029 \<or> c = 0x202F \<or> c = 0x205F \<or> c = 0x3000"

definition trim :: "rstring \<Rightarrow> rstring" where
  "trim s = rev (dropWhile is_whitespace (rev (dropWhile is_whitespace s)))"

section \<open>State\<close>

text \<open>What \<open>read_line\<close> gets: a line, or bytes that are no UTF-8; behind the last one, the end.\<close>

datatype line = Line rstring | BadLine

record person =
  p_ssn :: rstring
  p_name :: rstring
  p_email :: rstring

text \<open>
  \<open>o_csv\<close>: the CSV file, if the option is given; \<open>Some None\<close> if it cannot be opened; a row
  that the library cannot read as a \<open>Person\<close> is \<open>None\<close>.
\<close>

record client_opt =
  o_tracker :: socket_addr
  o_node :: "socket_addr option"
  o_csv :: "person option list option option"

record client =
  c_wrapper :: wrapper
  c_socket :: udp_socket
  c_stdin :: "line list"
  c_syscalls :: "bool list"
  c_printed :: "ValLookupResponsePdu list"

text \<open>The result of \<open>main\<close> and of \<open>send_csv\<close>: \<open>Ok(())\<close> or \<open>Err(_)\<close>.\<close>

datatype io_result = IoOk | IoErr

definition c_unwrap :: "client \<Rightarrow> client outcome" where
  "c_unwrap c = (case c_syscalls c of
     [] \<Rightarrow> Ret c
   | ok # oks \<Rightarrow> if ok then Ret (c\<lparr>c_syscalls := oks\<rparr>) else Panic UnwrapErr)"

text \<open>\<open>read_line\<close> into an empty string; at the end of the input the string stays empty.\<close>

definition read_line :: "client \<Rightarrow> rstring option \<times> client" where
  "read_line c = (case c_stdin c of
     [] \<Rightarrow> (Some [], c)
   | Line s # ls \<Rightarrow> (Some s, c\<lparr>c_stdin := ls\<rparr>)
   | BadLine # ls \<Rightarrow> (None, c\<lparr>c_stdin := ls\<rparr>))"

definition c_send :: "PDU \<Rightarrow> socket_addr \<Rightarrow> client \<Rightarrow> client outcome" where
  "c_send pdu rec c =
     obind (UdpWrapper_send (c_wrapper c) (c_socket c) pdu rec) (\<lambda>u. Ret (c\<lparr>c_socket := u\<rparr>))"

section \<open>Asking the tracker\<close>

text \<open>
  The loop of \<open>poll_response\<close> never polls: it reads until a PDU is queued.  When nothing
  more arrives it goes round for ever.
\<close>

function poll_loop :: "client \<Rightarrow> (message \<times> client) outcome" where
  "poll_loop c =
     obind (UdpWrapper_try_read (c_wrapper c) (c_socket c)) (\<lambda>(w, u).
       case UdpWrapper_next_pdu w of
         (Some x, w) \<Rightarrow>
           obind (c_unwrap (c\<lparr>c_wrapper := w, c_socket := u\<rparr>)) (\<lambda>c. Ret (x, c))
       | (None, w) \<Rightarrow>
           if arrivals (c_socket c) = [] then Blocked
           else poll_loop (c\<lparr>c_wrapper := w, c_socket := u\<rparr>))"
  by pat_completeness auto
termination
  by (relation "measure (\<lambda>c. length (arrivals (c_socket c)))")
    (auto simp: UdpWrapper_try_read_def obind_eq_Ret dest: udp_read_loop_consumes)

declare poll_loop.simps [simp del]

definition poll_response :: "client \<Rightarrow> (message \<times> client) outcome" where
  "poll_response c =
     obind (c_unwrap c) (\<lambda>c.
     obind (c_unwrap c) (\<lambda>c. poll_loop c))"

definition get_my_address :: "socket_addr \<Rightarrow> client \<Rightarrow> (ipv4_addr \<times> client) outcome" where
  "get_my_address tracker c =
     (let lookup = StunLookupPdu_new in
      obind (c_send (StunLookup lookup) tracker c) (\<lambda>c.
      obind (poll_response c) (\<lambda>((pdu, sender), c).
        case pdu of
          StunResponse pdu \<Rightarrow> Ret (sr_address pdu, c)
        | _ \<Rightarrow> Panic UnexpectedPdu)))"

definition get_node :: "socket_addr \<Rightarrow> client \<Rightarrow> (socket_addr option \<times> client) outcome" where
  "get_node tracker c =
     (let lookup = NetGetNodePdu_new in
      obind (c_send (NetGetNode lookup) tracker c) (\<lambda>c.
      obind (poll_response c) (\<lambda>((pdu, sender), c).
        case pdu of
          NetGetNodeResponse pdu \<Rightarrow>
            Ret (if ngnr_address pdu = 0 \<and> ngnr_port pdu = 0 then None
              else Some (V4 (ngnr_address pdu, ngnr_port pdu)), c)
        | _ \<Rightarrow> Panic UnexpectedPdu)))"

section \<open>Sending values\<close>

text \<open>The prompt is flushed first; an input that is no UTF-8 is a panic here.\<close>

definition ask_for :: "client \<Rightarrow> (rstring \<times> client) outcome" where
  "ask_for c =
     obind (c_unwrap c) (\<lambda>c.
       case read_line c of
         (None, c) \<Rightarrow> Panic UnwrapErr
       | (Some buf, c) \<Rightarrow> Ret (trim buf, c))"

fun send_rows :: "person option list \<Rightarrow> socket_addr \<Rightarrow> client \<Rightarrow> (io_result \<times> client) outcome" where
  "send_rows [] node c = Ret (IoOk, c)"
| "send_rows (None # rows) node c = Ret (IoErr, c)"
| "send_rows (Some person # rows) node c =
     (let insert_pdu = ValInsertPdu_new (p_ssn person) (p_name person) (p_email person) in
      obind (c_send (ValInsert insert_pdu) node c) (\<lambda>c. send_rows rows node c))"

definition send_csv :: "person option list option \<Rightarrow> socket_addr \<Rightarrow> client \<Rightarrow> (io_result \<times> client) outcome" where
  "send_csv file node c = obind (unwrap_io file) (\<lambda>rows. send_rows rows node c)"

definition do_insert :: "socket_addr \<Rightarrow> client \<Rightarrow> client outcome" where
  "do_insert node c =
     obind (ask_for c) (\<lambda>(ssn, c).
     obind (ask_for c) (\<lambda>(name, c).
     obind (ask_for c) (\<lambda>(email, c).
     let insert_pdu = ValInsertPdu_new ssn name email
     in c_send (ValInsert insert_pdu) node c)))"

definition do_remove :: "socket_addr \<Rightarrow> client \<Rightarrow> client outcome" where
  "do_remove node c =
     obind (ask_for c) (\<lambda>(ssn, c).
     let remove_pdu = ValRemovePdu_new ssn
     in c_send (ValRemove remove_pdu) node c)"

definition do_lookup :: "socket_addr \<Rightarrow> ipv4_addr \<Rightarrow> u16 \<Rightarrow> client \<Rightarrow> client outcome" where
  "do_lookup node my_address my_port c =
     obind (ask_for c) (\<lambda>(ssn, c).
     let lookup_pdu = ValLookupPdu_new ssn my_address my_port in
     obind (c_send (ValLookup lookup_pdu) node c) (\<lambda>c.
     obind (poll_response c) (\<lambda>((pdu, sender), c).
       case pdu of
         ValLookupResponse pdu \<Rightarrow> Ret (c\<lparr>c_printed := c_printed c @ [pdu]\<rparr>)
       | _ \<Rightarrow> Panic UnexpectedPdu)))"

section \<open>What the parts leave alone\<close>

lemma c_unwrap_frame: "c_unwrap c = Ret c' \<Longrightarrow> \<exists>oks. c' = c\<lparr>c_syscalls := oks\<rparr>"
  by (auto simp: c_unwrap_def split: list.splits if_splits intro: exI [of _ "c_syscalls c"])

lemma c_send_frame: "c_send p a c = Ret c' \<Longrightarrow> \<exists>u. c' = c\<lparr>c_socket := u\<rparr> \<and>
    arrivals u = arrivals (c_socket c) \<and> sent_datagrams u = sent_datagrams (c_socket c) @ [(a, to_bytes p)]"
  by (auto simp: c_send_def obind_eq_Ret dest: UdpWrapper_send_sent)

text \<open>No part of the client puts a line back.\<close>

definition reads_on :: "client \<Rightarrow> client \<Rightarrow> bool" where
  "reads_on c c' \<longleftrightarrow> (\<exists>k. c_stdin c' = drop k (c_stdin c))"

lemma reads_on_refl: "c_stdin c' = c_stdin c \<Longrightarrow> reads_on c c'"
  by (auto simp: reads_on_def intro: exI [of _ 0])

lemma reads_on_trans [trans]: "reads_on c c' \<Longrightarrow> reads_on c' c'' \<Longrightarrow> reads_on c c''"
  by (auto simp: reads_on_def)

lemma read_line_reads: "read_line c = (r, c') \<Longrightarrow> reads_on c c'"
  by (auto simp: read_line_def reads_on_def split: list.splits line.splits
      intro: exI [of _ 0] exI [of _ "Suc 0"])

lemma ask_for_reads:
  assumes "ask_for c = Ret (s, c')"
  shows "reads_on c c'"
proof -
  obtain c1 where c1: "c_unwrap c = Ret c1"
    "(case read_line c1 of (None, c) \<Rightarrow> Panic UnwrapErr | (Some buf, c) \<Rightarrow> Ret (trim buf, c)) = Ret (s, c')"
    using assms by (auto simp: ask_for_def obind_eq_Ret)
  obtain r c2 where r: "read_line c1 = (r, c2)" by fastforce
  have "c2 = c'" using c1(2) r by (auto split: option.splits)
  moreover have "reads_on c c1" using c_unwrap_frame [OF c1(1)] by (auto intro: reads_on_refl)
  ultimately show ?thesis using read_line_reads [OF r] reads_on_trans by blast
qed

lemma c_send_reads: "c_send p a c = Ret c' \<Longrightarrow> reads_on c c'"
  by (drule c_send_frame) (auto intro: reads_on_refl)

lemma poll_loop_reads: "poll_loop c = Ret (x, c') \<Longrightarrow> c_stdin c' = c_stdin c"
proof (induction c rule: poll_loop.induct)
  case (1 c)
  from "1.prems" obtain w u where w: "UdpWrapper_try_read (c_wrapper c) (c_socket c) = Ret (w, u)"
    by (auto simp: poll_loop.simps [of c] obind_eq_Ret)
  obtain m w' where m: "UdpWrapper_next_pdu w = (m, w')" by fastforce
  show ?case
  proof (cases m)
    case None
    then have "poll_loop (c\<lparr>c_wrapper := w', c_socket := u\<rparr>) = Ret (x, c')" "arrivals (c_socket c) \<noteq> []"
      using "1.prems" w m by (auto simp: poll_loop.simps [of c] split: if_splits)
    then show ?thesis using "1.IH" [OF w refl m [symmetric] None] by simp
  next
    case (Some y)
    then show ?thesis using "1.prems" w m
      by (auto simp: poll_loop.simps [of c] obind_eq_Ret dest!: c_unwrap_frame)
  qed
qed

lemma poll_response_reads: "poll_response c = Ret (x, c') \<Longrightarrow> reads_on c c'"
  by (rule reads_on_refl)
    (auto simp: poll_response_def obind_eq_Ret dest!: c_unwrap_frame poll_loop_reads)

lemma do_insert_reads: "do_insert node c = Ret c' \<Longrightarrow> reads_on c c'"
  by (auto simp: do_insert_def obind_eq_Ret Let_def dest!: ask_for_reads c_send_reads
      intro: reads_on_trans)

lemma do_remove_reads: "do_remove node c = Ret c' \<Longrightarrow> reads_on c c'"
  by (auto simp: do_remove_def obind_eq_Ret Let_def dest!: ask_for_reads c_send_reads
      intro: reads_on_trans)

lemma do_lookup_reads: "do_lookup node a p c = Ret c' \<Longrightarrow> reads_on c c'"
proof -
  assume "do_lookup node a p c = Ret c'"
  then obtain s c1 c2 pdu sender c3 where c: "ask_for c = Ret (s, c1)"
    "c_send (ValLookup (ValLookupPdu_new s a p)) node c1 = Ret c2" "poll_response c2 = Ret ((pdu, sender), c3)"
    and r: "(case pdu of ValLookupResponse pdu \<Rightarrow> Ret (c3\<lparr>c_printed := c_printed c3 @ [pdu]\<rparr>)
      | _ \<Rightarrow> Panic UnexpectedPdu) = Ret c'"
    by (auto simp: do_lookup_def obind_eq_Ret Let_def)
  have "c_stdin c' = c_stdin c3" using r by (cases pdu) auto
  note ask_for_reads [OF c(1)]
  also note c_send_reads [OF c(2)]
  also note poll_response_reads [OF c(3)]
  also have "reads_on c3 c'" by (rule reads_on_refl) fact
  finally show ?thesis .
qed

section \<open>The command loop\<close>

lemma trim_Nil [simp]: "trim [] = []"
  by (simp add: trim_def)

lemma reads_on_shorter:
  assumes "read_line c = (Some buf, c1)" "trim buf \<noteq> []" "reads_on c1 c'"
  shows "length (c_stdin c') < length (c_stdin c)"
  using assms by (auto simp: read_line_def reads_on_def split: list.splits line.splits)

text \<open>
  \<open>loop { .. }\<close> of \<open>main\<close>.  At the end of the input every further line is empty, which is no
  command: the loop goes on for ever.
\<close>

function command_loop :: "socket_addr \<Rightarrow> ipv4_addr \<Rightarrow> u16 \<Rightarrow> client \<Rightarrow> (io_result \<times> client) outcome" where
  "command_loop node my_address my_port c =
     (case read_line c of
        (None, c1) \<Rightarrow> Ret (IoErr, c1)
      | (Some buf, c1) \<Rightarrow>
          if trim buf = str ''insert'' then
            obind (do_insert node c1) (\<lambda>c2. command_loop node my_address my_port c2)
          else if trim buf = str ''remove'' then
            obind (do_remove node c1) (\<lambda>c2. command_loop node my_address my_port c2)
          else if trim buf = str ''lookup'' then
            obind (do_lookup node my_address my_port c1) (\<lambda>c2. command_loop node my_address my_port c2)
          else if trim buf = str ''exit'' then Ret (IoOk, c1)
          else if c_stdin c = [] then Blocked
          else command_loop node my_address my_port c1)"
  by pat_completeness auto
termination
proof (relation "measure (\<lambda>(node, a, p, c). length (c_stdin c))", goal_cases)
  case (2 node a p c m c1 buf c2)
  then show ?case using reads_on_shorter [of c buf c1 c2] do_insert_reads [of node c1 c2] by (simp add: str_def)
next
  case (3 node a p c m c1 buf c2)
  then show ?case using reads_on_shorter [of c buf c1 c2] do_remove_reads [of node c1 c2] by (simp add: str_def)
next
  case (4 node a p c m c1 buf c2)
  then show ?case using reads_on_shorter [of c buf c1 c2] do_lookup_reads [of node a p c1 c2] by (simp add: str_def)
next
  case (5 node a p c m c1 buf)
  then show ?case by (auto simp: read_line_def split: list.splits line.splits)
qed simp

declare command_loop.simps [simp del]

text \<open>
  \<open>main\<close>: \<open>bound\<close> is the socket \<open>bind\<close> returned, if it did not fail.
\<close>

definition client_main :: "client_opt \<Rightarrow> udp_socket option \<Rightarrow> line list \<Rightarrow> bool list \<Rightarrow> (io_result \<times> client) outcome" where
  "client_main opt bound stdin oks =
     obind (unwrap_io bound) (\<lambda>socket.
     let c = \<lparr>c_wrapper = UdpWrapper_new, c_socket = socket, c_stdin = stdin, c_syscalls = oks,
           c_printed = []\<rparr> in
     obind (get_my_address (o_tracker opt) c) (\<lambda>(my_address, c).
     obind (unwrap_io (udp_local (c_socket c))) (\<lambda>local.
     let my_port = (case local of V4 a \<Rightarrow> snd a | V6 _ p _ _ \<Rightarrow> p) in
     obind (case o_node opt of
         Some n \<Rightarrow> Ret (Some n, c)
       | None \<Rightarrow> get_node (o_tracker opt) c) (\<lambda>(node, c).
     case node of
       None \<Rightarrow> Ret (IoOk, c)
     | Some node \<Rightarrow>
         obind (case o_csv opt of
             None \<Rightarrow> Ret (IoOk, c)
           | Some csv \<Rightarrow> send_csv csv node c) (\<lambda>(r, c).
         if r = IoErr then Ret (IoErr, c)
         else command_loop node my_address my_port c)))))"

end
