(* ===== verification/Client_Session.thy ===== *)
theory Client_Session
  imports Client Wire_Properties
begin

text \<open>
  A session with the client: what each command sends and waits for, whole sessions, and the
  properties of the client.
\<close>

section \<open>One step\<close>

definition c_idle :: "client \<Rightarrow> bool" where
  "c_idle c \<longleftrightarrow> wf_wrapper (c_wrapper c) \<and> buffered (c_wrapper c) = [] \<and>
     incoming_queue (c_wrapper c) = [] \<and> udp_ready (c_socket c) \<and> c_syscalls c = []"

lemma c_unwrap_idle: "c_syscalls c = [] \<Longrightarrow> c_unwrap c = Ret c"
  by (simp add: c_unwrap_def)

lemma c_send_idle:
  assumes "c_idle c"
  shows "\<exists>u. c_send p a c = Ret (c\<lparr>c_socket := u\<rparr>) \<and> c_idle (c\<lparr>c_socket := u\<rparr>) \<and>
    arrivals u = arrivals (c_socket c) \<and> sent_datagrams u = sent_datagrams (c_socket c) @ [(a, to_bytes p)]"
  using UdpWrapper_sends [of "c_socket c" "c_wrapper c" p a] assms by (auto simp: c_send_def c_idle_def)

lemma c_send_rest:
  assumes "c_idle c"
  shows "\<exists>u. c_send p a (c\<lparr>c_stdin := rest\<rparr>) = Ret (c\<lparr>c_stdin := rest, c_socket := u\<rparr>) \<and>
    c_idle (c\<lparr>c_stdin := rest, c_socket := u\<rparr>) \<and> arrivals u = arrivals (c_socket c) \<and>
    sent_datagrams u = sent_datagrams (c_socket c) @ [(a, to_bytes p)]"
  using c_send_idle [of "c\<lparr>c_stdin := rest\<rparr>" p a] assms by (simp add: c_idle_def)

lemma ask_for_idle:
  "c_idle c \<Longrightarrow> c_stdin c = Line s # ls \<Longrightarrow>
     ask_for c = Ret (trim s, c\<lparr>c_stdin := ls\<rparr>) \<and> c_idle (c\<lparr>c_stdin := ls\<rparr>)"
  by (simp add: ask_for_def c_unwrap_def read_line_def c_idle_def)

lemma poll_response_idle:
  assumes "c_idle c" "sendable p" "arrivals (c_socket c) = Datagram (to_bytes p) a # DWouldBlock # ds"
  shows "\<exists>w. poll_response c = Ret ((norm_pdu p, a), c\<lparr>c_wrapper := w, c_socket := (c_socket c)\<lparr>arrivals := ds\<rparr>\<rparr>) \<and>
    c_idle (c\<lparr>c_wrapper := w, c_socket := (c_socket c)\<lparr>arrivals := ds\<rparr>\<rparr>)"
proof -
  let ?u = "(c_socket c)\<lparr>arrivals := ds\<rparr>"
  note i = assms(1) [unfolded c_idle_def]
  obtain w where w: "UdpWrapper_try_read (c_wrapper c) (c_socket c) = Ret (w, ?u)" "wf_wrapper w"
    "buffered w = []" "incoming_queue w = [(norm_pdu p, a)]"
    using udp_read_one [of "c_wrapper c" p "c_socket c" a ds] i assms(2,3) by (auto simp: sendable_def)
  let ?w = "w\<lparr>incoming_queue := []\<rparr>"
  have "poll_response c = Ret ((norm_pdu p, a), c\<lparr>c_wrapper := ?w, c_socket := ?u\<rparr>)"
    using i w(1,4) by (simp add: poll_response_def c_unwrap_def poll_loop.simps [of c] UdpWrapper_next_pdu_def)
  moreover have "c_idle (c\<lparr>c_wrapper := ?w, c_socket := ?u\<rparr>)"
    using i w(2,3) by (simp add: c_idle_def udp_ready_def wf_wrapper_def buffered_def)
  ultimately show ?thesis by blast
qed

section \<open>Sessions\<close>

text \<open>
  A command as it is typed, over one line or several, with any white space around the words;
  what it sends; what it waits for.  \<open>CLookup\<close> carries the answer and its sender.
\<close>

datatype command =
    CInsert rstring rstring rstring
  | CRemove rstring
  | CLookup rstring ValLookupResponsePdu socket_addr
  | CUnknown

definition commands :: "rstring set" where
  "commands = {str ''insert'', str ''remove'', str ''lookup'', str ''exit''}"

fun typed :: "command \<Rightarrow> rstring list \<Rightarrow> bool" where
  "typed (CInsert ssn name email) ls \<longleftrightarrow> map trim ls = [str ''insert'', ssn, name, email]"
| "typed (CRemove ssn) ls \<longleftrightarrow> map trim ls = [str ''remove'', ssn]"
| "typed (CLookup ssn r a) ls \<longleftrightarrow> map trim ls = [str ''lookup'', ssn]"
| "typed CUnknown ls \<longleftrightarrow> (\<exists>l. ls = [l] \<and> trim l \<notin> commands)"

fun sent_by :: "socket_addr \<Rightarrow> ipv4_addr \<Rightarrow> u16 \<Rightarrow> command \<Rightarrow> (socket_addr \<times> u8 list) list" where
  "sent_by node ip port (CInsert ssn name email) = [(node, to_bytes (ValInsert (ValInsertPdu_new ssn name email)))]"
| "sent_by node ip port (CRemove ssn) = [(node, to_bytes (ValRemove (ValRemovePdu_new ssn)))]"
| "sent_by node ip port (CLookup ssn r a) = [(node, to_bytes (ValLookup (ValLookupPdu_new ssn ip port)))]"
| "sent_by node ip port CUnknown = []"

fun replies :: "command \<Rightarrow> dgram list" where
  "replies (CLookup ssn r a) = [Datagram (to_bytes (ValLookupResponse r)) a, DWouldBlock]"
| "replies _ = []"

fun printed_by :: "command \<Rightarrow> ValLookupResponsePdu list" where
  "printed_by (CLookup ssn r a) = [ValLookupResponsePdu_norm r]"
| "printed_by _ = []"

fun answerable :: "command \<Rightarrow> bool" where
  "answerable (CLookup ssn r a) \<longleftrightarrow> sendable (ValLookupResponse r)"
| "answerable _ \<longleftrightarrow> True"

lemma str_commands: "str ''insert'' \<noteq> str ''remove''" "str ''insert'' \<noteq> str ''lookup''"
  "str ''insert'' \<noteq> str ''exit''" "str ''remove'' \<noteq> str ''lookup''" "str ''remove'' \<noteq> str ''exit''"
  "str ''lookup'' \<noteq> str ''exit''" "str ''exit'' \<noteq> []"
  by (simp_all add: str_def)

lemmas str_distinct [simp] = str_commands str_commands(1-6) [symmetric]

lemma read_line_Line: "c_stdin c = Line l # ls \<Longrightarrow> read_line c = (Some l, c\<lparr>c_stdin := ls\<rparr>)"
  by (simp add: read_line_def)

lemma command_step:
  assumes "c_idle c" "typed cmd ls" "answerable cmd" "c_stdin c = map Line ls @ rest"
    and "arrivals (c_socket c) = replies cmd @ ds"
  shows "\<exists>c'. command_loop node ip port c = command_loop node ip port c' \<and> c_idle c' \<and> c_stdin c' = rest \<and>
    arrivals (c_socket c') = ds \<and>
    sent_datagrams (c_socket c') = sent_datagrams (c_socket c) @ sent_by node ip port cmd \<and>
    c_printed c' = c_printed c @ printed_by cmd"
proof (cases cmd)
  case (CInsert ssn name email)
  then obtain l1 l2 l3 l4 where ls: "ls = [l1, l2, l3, l4]" "trim l1 = str ''insert''" "trim l2 = ssn"
    "trim l3 = name" "trim l4 = email" using assms(2) by (auto simp: map_eq_Cons_conv)
  let ?c = "c\<lparr>c_stdin := Line l2 # Line l3 # Line l4 # rest\<rparr>"
  have "c_idle ?c" using assms(1) by (simp add: c_idle_def)
  note a2 = ask_for_idle [OF this, of l2 "Line l3 # Line l4 # rest"]
  note a3 = ask_for_idle [of "?c\<lparr>c_stdin := Line l3 # Line l4 # rest\<rparr>" l3 "Line l4 # rest"]
  note a4 = ask_for_idle [of "?c\<lparr>c_stdin := Line l4 # rest\<rparr>" l4 rest]
  obtain u where u: "c_send (ValInsert (ValInsertPdu_new ssn name email)) node (c\<lparr>c_stdin := rest\<rparr>) =
      Ret (c\<lparr>c_stdin := rest, c_socket := u\<rparr>)" "c_idle (c\<lparr>c_stdin := rest, c_socket := u\<rparr>)"
    "arrivals u = arrivals (c_socket c)"
    "sent_datagrams u = sent_datagrams (c_socket c) @ [(node, to_bytes (ValInsert (ValInsertPdu_new ssn name email)))]"
    using c_send_rest [OF assms(1)] by blast
  have "do_insert node ?c = Ret (c\<lparr>c_stdin := rest, c_socket := u\<rparr>)"
    using a2 a3 a4 u(1) ls by (simp add: do_insert_def)
  then have "command_loop node ip port c = command_loop node ip port (c\<lparr>c_stdin := rest, c_socket := u\<rparr>)"
    using assms(4) ls by (simp add: command_loop.simps [of node ip port c] read_line_Line)
  then show ?thesis using u assms(5) CInsert by (intro exI [of _ "c\<lparr>c_stdin := rest, c_socket := u\<rparr>"]) simp
next
  case (CRemove ssn)
  then obtain l1 l2 where ls: "ls = [l1, l2]" "trim l1 = str ''remove''" "trim l2 = ssn"
    using assms(2) by (auto simp: map_eq_Cons_conv)
  let ?c = "c\<lparr>c_stdin := Line l2 # rest\<rparr>"
  have "c_idle ?c" using assms(1) by (simp add: c_idle_def)
  note a2 = ask_for_idle [OF this, of l2 rest]
  obtain u where u: "c_send (ValRemove (ValRemovePdu_new ssn)) node (c\<lparr>c_stdin := rest\<rparr>) =
      Ret (c\<lparr>c_stdin := rest, c_socket := u\<rparr>)" "c_idle (c\<lparr>c_stdin := rest, c_socket := u\<rparr>)"
    "arrivals u = arrivals (c_socket c)"
    "sent_datagrams u = sent_datagrams (c_socket c) @ [(node, to_bytes (ValRemove (ValRemovePdu_new ssn)))]"
    using c_send_rest [OF assms(1)] by blast
  have "do_remove node ?c = Ret (c\<lparr>c_stdin := rest, c_socket := u\<rparr>)"
    using a2 u(1) ls by (simp add: do_remove_def)
  then have "command_loop node ip port c = command_loop node ip port (c\<lparr>c_stdin := rest, c_socket := u\<rparr>)"
    using assms(4) ls by (simp add: command_loop.simps [of node ip port c] read_line_Line)
  then show ?thesis using u assms(5) CRemove by (intro exI [of _ "c\<lparr>c_stdin := rest, c_socket := u\<rparr>"]) simp
next
  case (CLookup ssn r a)
  then obtain l1 l2 where ls: "ls = [l1, l2]" "trim l1 = str ''lookup''" "trim l2 = ssn"
    using assms(2) by (auto simp: map_eq_Cons_conv)
  let ?c = "c\<lparr>c_stdin := Line l2 # rest\<rparr>"
  have "c_idle ?c" using assms(1) by (simp add: c_idle_def)
  note a2 = ask_for_idle [OF this, of l2 rest]
  obtain u where u: "c_send (ValLookup (ValLookupPdu_new ssn ip port)) node (c\<lparr>c_stdin := rest\<rparr>) =
      Ret (c\<lparr>c_stdin := rest, c_socket := u\<rparr>)" "c_idle (c\<lparr>c_stdin := rest, c_socket := u\<rparr>)"
    "arrivals u = arrivals (c_socket c)"
    "sent_datagrams u = sent_datagrams (c_socket c) @ [(node, to_bytes (ValLookup (ValLookupPdu_new ssn ip port)))]"
    using c_send_rest [OF assms(1)] by blast
  let ?c1 = "c\<lparr>c_stdin := rest, c_socket := u\<rparr>"
  obtain w where w: "poll_response ?c1 = Ret ((ValLookupResponse (ValLookupResponsePdu_norm r), a),
      ?c1\<lparr>c_wrapper := w, c_socket := u\<lparr>arrivals := ds\<rparr>\<rparr>)" "c_idle (?c1\<lparr>c_wrapper := w, c_socket := u\<lparr>arrivals := ds\<rparr>\<rparr>)"
    using poll_response_idle [OF u(2), of "ValLookupResponse r" a ds] assms(3,5) u(3) CLookup by auto
  let ?c2 = "?c1\<lparr>c_wrapper := w, c_socket := u\<lparr>arrivals := ds\<rparr>, c_printed := c_printed c @ [ValLookupResponsePdu_norm r]\<rparr>"
  have "do_lookup node ip port ?c = Ret ?c2"
    using a2 u(1) ls w(1) by (simp add: do_lookup_def)
  then have "command_loop node ip port c = command_loop node ip port ?c2"
    using assms(4) ls by (simp add: command_loop.simps [of node ip port c] read_line_Line)
  then show ?thesis using u w(2) assms(5) CLookup by (intro exI [of _ ?c2]) (simp add: c_idle_def)
next
  case CUnknown
  then obtain l where l: "ls = [l]" "trim l \<notin> commands" using assms(2) by auto
  then have "command_loop node ip port c = command_loop node ip port (c\<lparr>c_stdin := rest\<rparr>)"
    using assms(4) by (simp add: command_loop.simps [of node ip port c] read_line_Line commands_def)
  then show ?thesis using assms(1,5) CUnknown by (intro exI [of _ "c\<lparr>c_stdin := rest\<rparr>"]) (simp add: c_idle_def)
qed

lemma session_runs:
  assumes "list_all2 typed cmds lss" "list_all answerable cmds" "c_idle c"
    and "c_stdin c = concat (map (map Line) lss) @ rest" "arrivals (c_socket c) = concat (map replies cmds) @ ds"
  shows "\<exists>c'. command_loop node ip port c = command_loop node ip port c' \<and> c_idle c' \<and> c_stdin c' = rest \<and>
    arrivals (c_socket c') = ds \<and>
    sent_datagrams (c_socket c') = sent_datagrams (c_socket c) @ concat (map (sent_by node ip port) cmds) \<and>
    c_printed c' = c_printed c @ concat (map printed_by cmds)"
  using assms
proof (induction arbitrary: c rule: list_all2_induct)
  case Nil
  then show ?case by auto
next
  case (Cons cmd cmds ls lss)
  obtain c1 where c1: "command_loop node ip port c = command_loop node ip port c1" "c_idle c1"
    "c_stdin c1 = concat (map (map Line) lss) @ rest" "arrivals (c_socket c1) = concat (map replies cmds) @ ds"
    "sent_datagrams (c_socket c1) = sent_datagrams (c_socket c) @ sent_by node ip port cmd"
    "c_printed c1 = c_printed c @ printed_by cmd"
    using command_step [OF Cons.prems(2) Cons.hyps(1), of "concat (map (map Line) lss) @ rest"
        "concat (map replies cmds) @ ds" node ip port] Cons.prems by auto
  then show ?case using Cons.IH [OF _ c1(2-4)] Cons.prems(1) by auto
qed

end
