(* ===== verification/Client_Properties.thy ===== *)
theory Client_Properties
  imports Client_Session Node_Properties
begin

text \<open>
  The properties of the client, each with a concrete instance.
\<close>

section \<open>Sessions\<close>

text \<open>C23: A session with the client that ends with \<open>exit\<close> returns \<open>Ok\<close>: for each command typed it
  sends exactly that PDU to its node, with the words as typed but for the white space around them,
  lines that are no command send nothing, and it prints the answer to each lookup.\<close>

theorem client_session:
  assumes "c_idle c" "list_all2 typed cmds lss" "list_all answerable cmds" "trim e = str ''exit''"
    and "c_stdin c = concat (map (map Line) lss) @ Line e # rest"
    and "arrivals (c_socket c) = concat (map replies cmds) @ ds"
  shows "\<exists>c'. command_loop node ip port c = Ret (IoOk, c') \<and> c_stdin c' = rest \<and>
    sent_datagrams (c_socket c') = sent_datagrams (c_socket c) @ concat (map (sent_by node ip port) cmds) \<and>
    c_printed c' = c_printed c @ concat (map printed_by cmds)"
proof -
  obtain c1 where c1: "command_loop node ip port c = command_loop node ip port c1" "c_stdin c1 = Line e # rest"
    "sent_datagrams (c_socket c1) = sent_datagrams (c_socket c) @ concat (map (sent_by node ip port) cmds)"
    "c_printed c1 = c_printed c @ concat (map printed_by cmds)"
    using session_runs [OF assms(2,3,1,5,6)] by blast
  have "command_loop node ip port c1 = Ret (IoOk, c1\<lparr>c_stdin := rest\<rparr>)"
    using c1(2) assms(4) by (simp add: command_loop.simps [of node ip port c1] read_line_Line)
  then show ?thesis using c1 by (intro exI [of _ "c1\<lparr>c_stdin := rest\<rparr>"]) simp
qed

definition demo_client :: client where
  "demo_client = \<lparr>c_wrapper = UdpWrapper_new, c_socket = demo_udp,
     c_stdin = [Line (str '' remove ''), Line demo_ssn, Line (str ''help''), Line (str ''exit'')],
     c_syscalls = [], c_printed = []\<rparr>"

lemma demo_client_idle: "c_idle (demo_client\<lparr>c_stdin := ls\<rparr>)" "c_idle demo_client"
  using UdpWrapper_new_facts by (simp_all add: c_idle_def demo_client_def demo_udp_def udp_ready_def)

lemma demo_words: "trim (str '' remove '') = str ''remove''" "trim demo_ssn = demo_ssn"
  "trim (str ''help'') = str ''help''" "trim (str ''exit'') = str ''exit''" "str ''help'' \<notin> commands"
  by (simp_all add: trim_def str_def is_whitespace_def demo_ssn_def commands_def)

theorem client_session_witness:
  "\<exists>c'. command_loop (V4 (0x0A000001, 7000)) 5 6 demo_client = Ret (IoOk, c') \<and>
     sent_datagrams (c_socket c') = [(V4 (0x0A000001, 7000), to_bytes (ValRemove (ValRemovePdu_new demo_ssn)))]"
  using client_session [of demo_client "[CRemove demo_ssn, CUnknown]"
      "[[str '' remove '', demo_ssn], [str ''help'']]" "str ''exit''" "[]" "[]" "V4 (0x0A000001, 7000)" 5 6]
    demo_client_idle(2)
  by (simp add: demo_words) (auto simp: demo_client_def demo_udp_def)

section \<open>The end of the input\<close>

definition no_exit :: "line list \<Rightarrow> bool" where
  "no_exit ls \<longleftrightarrow> list_all (\<lambda>l. case l of Line s \<Rightarrow> trim s \<noteq> str ''exit'' | BadLine \<Rightarrow> False) ls"

lemma no_exit_reads: "reads_on c c' \<Longrightarrow> no_exit (c_stdin c) \<Longrightarrow> no_exit (c_stdin c')"
  unfolding reads_on_def no_exit_def list_all_iff by (metis in_set_dropD)

text \<open>C27: The client returns from its commands only when it reads \<open>exit\<close> or a line that is no UTF-8.  If
  the input ends before, the command loop goes on for ever with empty lines (unless it has panicked):
  the end of the input does not end the client.\<close>

theorem client_needs_exit:
  assumes "no_exit (c_stdin c)"
  shows "command_loop node ip port c \<noteq> Ret r \<and>
    (c_stdin c = [] \<longrightarrow> command_loop node ip port c = Blocked)"
proof -
  have "command_loop node ip port c \<noteq> Ret r" using assms
  proof (induction node ip port c rule: command_loop.induct)
    case (1 node ip port c)
    obtain m c1 where m: "read_line c = (m, c1)" by fastforce
    then obtain buf where buf: "m = Some buf" "trim buf \<noteq> str ''exit''"
      using "1.prems" by (auto simp: read_line_def no_exit_def str_commands(7) [symmetric]
          split: list.splits line.splits)
    note rd = read_line_reads [OF m]
    note IH = "1.IH" [OF m [symmetric] buf(1)]
    have no: "no_exit (c_stdin c2)" if "reads_on c1 c2" for c2
      using no_exit_reads [OF reads_on_trans [OF rd that] "1.prems"] .
    show ?case
      using m buf no [OF do_insert_reads] no [OF do_remove_reads] no [OF do_lookup_reads] no [OF reads_on_refl]
        IH by (auto simp: command_loop.simps [of node ip port c] obind_eq_Ret split: if_splits)
  qed
  moreover have "command_loop node ip port c = Blocked" if "c_stdin c = []"
    using that by (simp add: command_loop.simps [of node ip port c] read_line_def str_def)
  ultimately show ?thesis by blast
qed

theorem client_needs_exit_witness:
  "command_loop (V4 (1, 1)) 5 6 (demo_client\<lparr>c_stdin := []\<rparr>) = Blocked"
  using client_needs_exit [of "demo_client\<lparr>c_stdin := []\<rparr>" "V4 (1, 1)" 5 6] by (simp add: no_exit_def)

section \<open>Numbers of another length\<close>

lemma short_number:
  assumes "latin1 s" "length s \<le> SSN_LENGTH" "SSN_LENGTH - length s \<le> length rest"
  shows "parse_pdu (to_bytes (ValRemove (ValRemovePdu_new s)) @ rest) =
    Ret (Some (ValRemove (ValRemovePdu_new (s @ map u8_to_char (take (SSN_LENGTH - length s) rest))), 1 + SSN_LENGTH))"
proof -
  let ?k = "SSN_LENGTH - length s"
  let ?p = "ValRemovePdu_new (s @ map u8_to_char (take ?k rest))"
  have "to_bytes (ValRemove (ValRemovePdu_new s)) @ rest = to_bytes (ValRemove ?p) @ drop ?k rest"
    by (simp add: ValRemovePdu_to_vec_def ValRemovePdu_new_def)
  moreover have "wf_pdu (ValRemove ?p)" "length (to_bytes (ValRemove ?p)) = 1 + SSN_LENGTH"
    using assms by (simp_all add: wf_pdu_def ValRemovePdu_ok_def ValRemovePdu_new_def ValRemovePdu_to_vec_def)
  ultimately show ?thesis using wire.dec_enc_append [of "ValRemove ?p" "drop ?k rest"] by simp
qed

text \<open>A request of a proper client: a value PDU whose number consists of digits.\<close>

definition numeric :: "PDU \<Rightarrow> bool" where
  "numeric q \<longleftrightarrow> is_value q \<and> wf_pdu q \<and> set (value_ssn q) \<subseteq> set (str ''0123456789'') \<and>
     length (to_bytes q) + SSN_LENGTH \<le> BUFFER_SIZE"

lemma digit_no_id: "c \<in> set (str ''0123456789'') \<Longrightarrow> char_to_u8 c \<notin> set pdu_ids"
  by (auto simp: str_def char_to_u8_def pdu_ids_def)

lemma value_bytes:
  assumes "is_value q" "wf_pdu q"
  shows "\<exists>x tail. to_bytes q = x # map char_to_u8 (value_ssn q) @ tail \<and> length (value_ssn q) = SSN_LENGTH"
  using assms by (cases q) (simp_all add: is_value_def wf_pdu_def ValInsertPdu_ok_def ValInsertPdu_to_vec_def
      ValRemovePdu_ok_def ValRemovePdu_to_vec_def ValLookupPdu_ok_def ValLookupPdu_to_vec_def)

lemma numeric_bytes: "numeric q \<Longrightarrow>
    \<exists>x tail. to_bytes q = x # map char_to_u8 (value_ssn q) @ tail \<and> length (value_ssn q) = SSN_LENGTH"
  using value_bytes [of q] by (simp add: numeric_def)

lemma numeric_rest:
  assumes "numeric q" "0 < k" "k \<le> SSN_LENGTH"
  shows "parse_pdu (drop k (to_bytes q)) = Panic (InvalidPdu (drop k (to_bytes q)))"
proof -
  obtain x tail where q: "to_bytes q = x # map char_to_u8 (value_ssn q) @ tail" "length (value_ssn q) = SSN_LENGTH"
    using numeric_bytes [OF assms(1)] by blast
  then have d: "drop k (to_bytes q) = drop (k - 1) (map char_to_u8 (value_ssn q)) @ tail" "k - 1 < length (value_ssn q)"
    using assms(2,3) by (auto simp: drop_Cons' simp del: to_bytes.simps)
  then have "hd (drop k (to_bytes q)) = char_to_u8 (value_ssn q ! (k - 1))" "drop k (to_bytes q) \<noteq> []"
    by (simp_all add: hd_append hd_drop_conv_nth)
  moreover have "value_ssn q ! (k - 1) \<in> set (str ''0123456789'')"
    using assms(1) d(2) nth_mem unfolding numeric_def by blast
  ultimately show ?thesis using digit_no_id by (simp add: parse_pdu_Panic_iff)
qed

text \<open>A node whose buffer holds too short a \<open>VAL_REMOVE\<close> meets such a request.\<close>

lemma short_number_panics:
  assumes "udp_open n" "buffered (udp_wrapper n) = to_bytes (ValRemove (ValRemovePdu_new s))" "latin1 s"
    and "length s < SSN_LENGTH" "numeric q" "tick_events t = [UDP]" "arrivals (udp_sock n) = Datagram (to_bytes q) b # ds"
  shows "q6 t n = Panic (InvalidPdu (drop (SSN_LENGTH - length s) (to_bytes q)))"
proof -
  let ?k = "SSN_LENGTH - length s" and ?short = "to_bytes (ValRemove (ValRemovePdu_new s))"
  let ?w = "filled (udp_wrapper n) (to_bytes q)"
  have wf: "wf_wrapper (udp_wrapper n)" using assms(1) by (simp add: udp_open_def)
  have len: "length ?short = 1 + length s" using assms(4) by (simp add: ValRemovePdu_to_vec_def ValRemovePdu_new_def)
  have "buffer_fill (udp_wrapper n) = 1 + length s" using assms(2) len length_buffered [OF wf] by simp
  moreover have "length (to_bytes q) + SSN_LENGTH \<le> BUFFER_SIZE" using assms(5) by (simp add: numeric_def)
  ultimately have fs: "length (to_bytes q) \<le> free_space (udp_wrapper n)"
    using assms(4) unfolding free_space_def by linarith
  note f = filled_facts [OF wf fs]
  obtain x tail where "to_bytes q = x # map char_to_u8 (value_ssn q) @ tail" "length (value_ssn q) = SSN_LENGTH"
    using numeric_bytes [OF assms(5)] by blast
  then have "?k \<le> length (to_bytes q)" by simp
  from short_number [OF assms(3) _ this] assms(4) obtain p where
    p: "parse_pdu (?short @ to_bytes q) = Ret (Some (p, 1 + SSN_LENGTH))" by fastforce
  have n: "1 + SSN_LENGTH \<le> buffer_fill ?w"
    using wire.dec_used [OF p] length_buffered [OF f(1)] f(2) assms(2) by simp
  note t = taken_facts [OF f(1) n, of p b]
  have "drop (1 + SSN_LENGTH) (?short @ to_bytes q) = drop ?k (to_bytes q)"
    using len assms(4) by (simp del: to_bytes.simps)
  then have "parse_loop (Ret b) (taken ?w p b (1 + SSN_LENGTH)) = Panic (InvalidPdu (drop ?k (to_bytes q)))"
    unfolding parse_loop_eq [OF t(1)] using numeric_rest [OF assms(5), of ?k] assms(2,4) t(2) f(2)
    by (simp del: to_bytes.simps)
  then have "parse_loop (Ret b) ?w = Panic (InvalidPdu (drop ?k (to_bytes q)))"
    using p f(2) assms(2) by (subst parse_loop_eq [OF f(1)]) simp
  then show ?thesis by (rule q6_panics [OF assms(1,6) fs assms(7)])
qed

text \<open>The datagram with the short number alone changes nothing but the buffer.\<close>

lemma short_number_waits:
  assumes "udp_idle n" "\<not> should_close n" "state n = Q6" "tick_events t = [UDP]" "\<not> tick_signal t"
    and "parse_pdu bs = Ret None" "length bs \<le> BUFFER_SIZE" "arrivals (udp_sock n) = Datagram bs a # DWouldBlock # ds"
  shows "\<exists>n'. q6 t n = Ret n' \<and> state n' = Q6 \<and> stored n' = stored n \<and> running n' = running n \<and> udp_open n' \<and>
    buffered (udp_wrapper n') = bs \<and> arrivals (udp_sock n') = ds"
proof -
  have f: "frames parse_pdu bs [] bs" using assms(6) by (rule frames.frames_done)
  obtain la u w where r: "udp_ready u" "arrivals u = ds" "wf_wrapper w" "buffered w = bs" "incoming_queue w = []" and
    pass: "\<forall>m. drain UDP (n\<lparr>now := now n + tick_elapsed t, last_alive := la, udp_wrapper := w, udp_sock := u\<rparr>) = Ret m \<and>
      syscalls m = [] \<longrightarrow> q6 t n = Ret (if should_close m \<or> tick_signal t
        then m\<lparr>should_close := True, state := Q10\<rparr> else m\<lparr>should_close := False\<rparr>)"
    using q6_reads [OF _ assms(4) _ _ assms(8), of "[]" bs] assms(1,7) f by (auto simp: udp_idle_open)
  let ?n = "n\<lparr>now := now n + tick_elapsed t, last_alive := la, udp_wrapper := w, udp_sock := u\<rparr>"
  have "drain UDP ?n = Ret ?n" by (rule drain_empty) (simp add: queue_of_def wrapper_of_def r(5))
  then have "q6 t n = Ret (?n\<lparr>should_close := False\<rparr>)" using pass assms(1,2,5) by (simp add: udp_idle_def)
  then show ?thesis using r assms(1,3) by (simp add: udp_open_def udp_idle_def)
qed

text \<open>C36: The client does not check the length of a number.  The datagram of a \<open>VAL_REMOVE\<close> whose number is
  too short is no PDU: an idle node keeps it in its buffer, and when the next request comes, whoever
  sends it, the parser takes the missing characters from that request, and then the digit that follows
  in it for the type of a PDU: the node panics, before it has handled either.\<close>

theorem short_number_swallows:
  assumes "c_idle c" "c_stdin c = Line l # ls" "latin1 (trim l)" "length (trim l) < SSN_LENGTH"
    and "udp_idle n" "running n" "state n = Q6" "\<not> should_close n" "numeric q"
    and "tick_events t1 = [UDP]" "\<not> tick_signal t1" "tick_events t2 = [UDP]"
    and "bs = to_bytes (ValRemove (ValRemovePdu_new (trim l)))"
  shows "\<exists>c'. do_remove node c = Ret c' \<and> sent_datagrams (c_socket c') = sent_datagrams (c_socket c) @ [(node, bs)] \<and>
    parse_pdu (bs @ to_bytes q) = Ret (Some (ValRemove (ValRemovePdu_new
      (trim l @ map u8_to_char (take (SSN_LENGTH - length (trim l)) (to_bytes q)))), 1 + SSN_LENGTH)) \<and>
    (\<forall>a b ds. arrivals (udp_sock n) = Datagram bs a # DWouldBlock # Datagram (to_bytes q) b # ds \<longrightarrow>
      (\<exists>n'. run_node bld [t1] n = Ret n' \<and> state n' = Q6 \<and> stored n' = stored n \<and> buffered (udp_wrapper n') = bs) \<and>
      run_node bld (t1 # t2 # ts) n = Panic (InvalidPdu (drop (SSN_LENGTH - length (trim l)) (to_bytes q))))"
proof -
  let ?p = "ValRemove (ValRemovePdu_new (trim l))"
  obtain u where u: "c_send ?p node (c\<lparr>c_stdin := ls\<rparr>) = Ret (c\<lparr>c_stdin := ls, c_socket := u\<rparr>)"
    "sent_datagrams u = sent_datagrams (c_socket c) @ [(node, to_bytes ?p)]"
    using c_send_rest [OF assms(1)] by blast
  have send: "do_remove node c = Ret (c\<lparr>c_stdin := ls, c_socket := u\<rparr>)"
    using ask_for_idle [OF assms(1,2)] u(1) by (simp add: do_remove_def)
  have none: "parse_pdu (to_bytes ?p) = Ret None" "length (to_bytes ?p) \<le> BUFFER_SIZE"
    using assms(4) by (simp_all add: parse_pdu_def parse_val_pdu_def first_byte_def into_pdu_def ValRemovePdu_to_vec_def
        ValRemovePdu_new_def ValRemovePdu_try_parse_def pdu_consts BUFFER_SIZE_def)
  obtain x tail where "to_bytes q = x # map char_to_u8 (value_ssn q) @ tail" "length (value_ssn q) = SSN_LENGTH"
    using numeric_bytes [OF assms(9)] by blast
  then have "SSN_LENGTH - length (trim l) \<le> length (to_bytes q)" by simp
  note removed = short_number [OF assms(3) _ this]
  have node: "(\<exists>n'. run_node bld [t1] n = Ret n' \<and> state n' = Q6 \<and> stored n' = stored n \<and> buffered (udp_wrapper n') = to_bytes ?p) \<and>
      run_node bld (t1 # t2 # ts) n = Panic (InvalidPdu (drop (SSN_LENGTH - length (trim l)) (to_bytes q)))"
    if arr: "arrivals (udp_sock n) = Datagram (to_bytes ?p) a # DWouldBlock # Datagram (to_bytes q) b # ds" for a b ds
  proof -
    obtain n' where n': "q6 t1 n = Ret n'" "state n' = Q6" "stored n' = stored n" "running n' = running n" "udp_open n'"
      "buffered (udp_wrapper n') = to_bytes ?p" "arrivals (udp_sock n') = Datagram (to_bytes q) b # ds"
      using short_number_waits [OF assms(5,8,7,10,11) none arr] by blast
    have "q6 t2 n' = Panic (InvalidPdu (drop (SSN_LENGTH - length (trim l)) (to_bytes q)))"
      by (rule short_number_panics [OF n'(5,6) assms(3,4,9,12) n'(7)])
    then show ?thesis using n' assms(6,7) by (simp add: node_step_def del: to_bytes.simps)
  qed
  show ?thesis using send u(2) removed assms(4,13) node
    by (intro exI [of _ "c\<lparr>c_stdin := ls, c_socket := u\<rparr>"]) (simp del: to_bytes.simps run_node.simps)
qed

text \<open>The demo node receives the number \<open>11111111\<close> and then the insert of another client.\<close>

theorem short_number_swallows_witness:
  "(\<exists>c'. do_remove (V4 (1, 7000)) (demo_client\<lparr>c_stdin := [Line (str ''11111111'')]\<rparr>) = Ret c' \<and>
      sent_datagrams (c_socket c') = [(V4 (1, 7000), [101, 49, 49, 49, 49, 49, 49, 49, 49])]) \<and>
    run_node Debug [demo_tick, demo_tick] (demo_node\<lparr>udp_sock := demo_udp\<lparr>arrivals :=
      [Datagram [101, 49, 49, 49, 49, 49, 49, 49, 49] (V4 (5, 5)), DWouldBlock,
      Datagram (to_bytes demo_insert) (V4 (6, 6)), DWouldBlock]\<rparr>\<rparr>) =
      Panic (InvalidPdu [49, 49, 49, 49, 49, 49, 49, 49, 49, 3, 65, 100, 97, 3, 97, 64, 98])"
proof -
  let ?c = "demo_client\<lparr>c_stdin := [Line (str ''11111111'')]\<rparr>"
  let ?bs = "to_bytes (ValRemove (ValRemovePdu_new (trim (str ''11111111''))))"
  let ?n = "demo_node\<lparr>udp_sock := demo_udp\<lparr>arrivals := [Datagram [101, 49, 49, 49, 49, 49, 49, 49, 49] (V4 (5, 5)), DWouldBlock,
      Datagram (to_bytes demo_insert) (V4 (6, 6)), DWouldBlock]\<rparr>\<rparr>"
  have w: "trim (str ''11111111'') = str ''11111111''" "latin1 (str ''11111111'')" "length (str ''11111111'') = 8"
    by (simp_all add: trim_def str_def is_whitespace_def)
  have q: "numeric demo_insert"
    using demo_wf(1) by (simp add: numeric_def demo_bytes BUFFER_SIZE_def)
      (simp add: is_value_def demo_insert_def ValInsertPdu_new_def demo_ssn_def str_def pdu_consts)
  have n: "udp_idle ?n" "running ?n" "state ?n = Q6" "\<not> should_close ?n"
    "arrivals (udp_sock ?n) = Datagram [101, 49, 49, 49, 49, 49, 49, 49, 49] (V4 (5, 5)) # DWouldBlock # Datagram (to_bytes demo_insert) (V4 (6, 6)) # [DWouldBlock]"
    by (simp_all add: demo_node_def udp_idle_def udp_ready_def demo_udp_def)
  have t: "tick_events demo_tick = [UDP]" "\<not> tick_signal demo_tick" by (simp_all add: demo_tick_def)
  have c: "c_stdin ?c = [Line (str ''11111111'')]" "sent_datagrams (c_socket ?c) = []"
    by (simp_all add: demo_client_def demo_udp_def)
  have d: "drop (SSN_LENGTH - 8) (to_bytes demo_insert) = [49, 49, 49, 49, 49, 49, 49, 49, 49, 3, 65, 100, 97, 3, 97, 64, 98]"
    by (simp add: demo_bytes pdu_consts)
  have bs: "?bs = [101, 49, 49, 49, 49, 49, 49, 49, 49]"
    unfolding w(1) by (simp add: ValRemovePdu_to_vec_def ValRemovePdu_new_def str_def pdu_consts char_to_u8_def)
  show ?thesis
    using short_number_swallows [OF demo_client_idle(1) c(1) _ _ n(1-4) q t(1,2,1) refl, of "V4 (1, 7000)" Debug "[]"]
      w n(5) c(2) d unfolding bs
    by (auto simp: pdu_consts simp del: to_bytes.simps run_node.simps)
qed

end
