(* ===== verification/Unit_Tests.thy ===== *)
theory Unit_Tests
  imports Parse_Pdu Entry_Store
begin

text \<open>
  The unit tests of the program: the serialisation tests of \<^verbatim>\<open>resources/TestNode/src/pdu.rs\<close>
  and the hash test of \<^verbatim>\<open>resources/TestNode/src/bin/node.rs\<close>, as calls of the model.
\<close>

section \<open>Serialisation\<close>

definition test_net_alive :: "unit outcome" where
  "test_net_alive =
     (let a = NetAlivePdu_new; b = NetAlivePdu_to_vec a in
      obind (assert_eq (length b) NET_ALIVE_SIZE) (\<lambda>_.
      obind (NetAlivePdu_try_parse b) (\<lambda>r.
      obind (unwrap r) (\<lambda>(a, b).
      assert_eq b NET_ALIVE_SIZE))))"

definition test_net_get_node :: "unit outcome" where
  "test_net_get_node =
     (let a = NetGetNodePdu_new; b = NetGetNodePdu_to_vec a in
      obind (assert_eq (length b) NET_GET_NODE_SIZE) (\<lambda>_.
      obind (NetGetNodePdu_try_parse b) (\<lambda>r.
      obind (unwrap r) (\<lambda>(a, b).
      assert_eq b NET_GET_NODE_SIZE))))"

definition test_net_get_node_response :: "unit outcome" where
  "test_net_get_node_response =
     (let a = NetGetNodeResponsePdu_new 123456 1234; b = NetGetNodeResponsePdu_to_vec a in
      obind (assert_eq (length b) NET_GET_NODE_RESPONSE_SIZE) (\<lambda>_.
      obind (NetGetNodeResponsePdu_try_parse b) (\<lambda>r.
      obind (unwrap r) (\<lambda>(a, b).
      obind (assert_eq b NET_GET_NODE_RESPONSE_SIZE) (\<lambda>_.
      obind (assert_eq 123456 (ngnr_address a)) (\<lambda>_.
      assert_eq 1234 (ngnr_port a)))))))"

definition test_net_join :: "unit outcome" where
  "test_net_join =
     (let a = NetJoinPdu_new 1010 1011 10 1122 1123; b = NetJoinPdu_to_vec a in
      obind (assert_eq (length b) NET_JOIN_SIZE) (\<lambda>_.
      obind (NetJoinPdu_try_parse b) (\<lambda>r.
      obind (unwrap r) (\<lambda>(a, b).
      obind (assert_eq b NET_JOIN_SIZE) (\<lambda>_.
      obind (assert_eq 1010 (nj_src_address a)) (\<lambda>_.
      obind (assert_eq 1011 (nj_src_port a)) (\<lambda>_.
      obind (assert_eq 10 (nj_max_span a)) (\<lambda>_.
      obind (assert_eq 1122 (nj_max_address a)) (\<lambda>_.
      assert_eq 1123 (nj_max_port a))))))))))"

definition test_net_join_response :: "unit outcome" where
  "test_net_join_response =
     (let a = NetJoinResponsePdu_new 123456 1234 10 20; b = NetJoinResponsePdu_to_vec a in
      obind (assert_eq (length b) NET_JOIN_RESPONSE_SIZE) (\<lambda>_.
      obind (NetJoinResponsePdu_try_parse b) (\<lambda>r.
      obind (unwrap r) (\<lambda>(a, b).
      obind (assert_eq b NET_JOIN_RESPONSE_SIZE) (\<lambda>_.
      obind (assert_eq 123456 (njr_next_address a)) (\<lambda>_.
      obind (assert_eq 1234 (njr_next_port a)) (\<lambda>_.
      obind (assert_eq 10 (njr_range_start a)) (\<lambda>_.
      assert_eq 20 (njr_range_end a)))))))))"

definition test_net_close_connection :: "unit outcome" where
  "test_net_close_connection =
     (let a = NetCloseConnectionPdu_new; b = NetCloseConnectionPdu_to_vec a in
      obind (assert_eq (length b) NET_CLOSE_CONNECTION_SIZE) (\<lambda>_.
      obind (NetCloseConnectionPdu_try_parse b) (\<lambda>r.
      obind (unwrap r) (\<lambda>(a, b).
      assert_eq b NET_CLOSE_CONNECTION_SIZE))))"

definition test_net_new_range :: "unit outcome" where
  "test_net_new_range =
     (let a = NetNewRangePdu_new 1 255; b = NetNewRangePdu_to_vec a in
      obind (assert_eq (length b) NET_NEW_RANGE_SIZE) (\<lambda>_.
      obind (NetNewRangePdu_try_parse b) (\<lambda>r.
      obind (unwrap r) (\<lambda>(a, b).
      obind (assert_eq b NET_NEW_RANGE_SIZE) (\<lambda>_.
      obind (assert_eq (nnr_range_start a) 1) (\<lambda>_.
      assert_eq (nnr_range_end a) 255))))))"

definition test_net_new_range_response :: "unit outcome" where
  "test_net_new_range_response =
     (let a = NetNewRangeResponsePdu_new; b = NetNewRangeResponsePdu_to_vec a in
      obind (assert_eq (length b) NET_NEW_RANGE_RESPONSE_SIZE) (\<lambda>_.
      obind (NetNewRangeResponsePdu_try_parse b) (\<lambda>r.
      obind (unwrap r) (\<lambda>(a, b).
      obind (assert_eq b NET_NEW_RANGE_RESPONSE_SIZE) (\<lambda>_.
      assert_eq (nnrr_pdu_type a) NET_NEW_RANGE_RESPONSE_ID)))))"

definition test_net_leaving :: "unit outcome" where
  "test_net_leaving =
     (let a = NetLeavingPdu_new 12345 255; b = NetLeavingPdu_to_vec a in
      obind (assert_eq (length b) NET_LEAVING_SIZE) (\<lambda>_.
      obind (NetLeavingPdu_try_parse b) (\<lambda>r.
      obind (unwrap r) (\<lambda>(a, b).
      obind (assert_eq b NET_LEAVING_SIZE) (\<lambda>_.
      obind (assert_eq (nl_new_address a) 12345) (\<lambda>_.
      assert_eq (nl_new_port a) 255))))))"

definition test_stun_lookup :: "unit outcome" where
  "test_stun_lookup =
     (let a = StunLookupPdu_new; b = StunLookupPdu_to_vec a in
      obind (assert_eq (length b) STUN_LOOKUP_SIZE) (\<lambda>_.
      obind (StunLookupPdu_try_parse b) (\<lambda>r.
      obind (unwrap r) (\<lambda>(a, b).
      assert_eq b STUN_LOOKUP_SIZE))))"

definition test_stun_response :: "unit outcome" where
  "test_stun_response =
     (let a = StunResponsePdu_new 12345; b = StunResponsePdu_to_vec a in
      obind (assert_eq (length b) STUN_RESPONSE_SIZE) (\<lambda>_.
      obind (StunResponsePdu_try_parse b) (\<lambda>r.
      obind (unwrap r) (\<lambda>(a, b).
      obind (assert_eq b STUN_RESPONSE_SIZE) (\<lambda>_.
      assert_eq (sr_address a) 12345)))))"

definition test_val_insert :: "unit outcome" where
  "test_val_insert =
     (let ssn = str ''111111111111''; name = str ''Test''; email = str ''Emai'';
          a = ValInsertPdu_new ssn name email; b = ValInsertPdu_to_vec a;
          len = 1 + SSN_LENGTH + 1 + string_len name + 1 + string_len email in
      obind (assert_eq (length b) len) (\<lambda>_.
      obind (ValInsertPdu_try_parse b) (\<lambda>r.
      obind (unwrap r) (\<lambda>(a, b).
      obind (assert_eq b len) (\<lambda>_.
      obind (assert_eq (vi_ssn a) ssn) (\<lambda>_.
      obind (assert_eq (vi_name_length a) (of_nat (string_len name))) (\<lambda>_.
      obind (assert_eq (vi_name a) name) (\<lambda>_.
      obind (assert_eq (vi_email_length a) (of_nat (string_len email))) (\<lambda>_.
      assert_eq (vi_email a) email)))))))))"

definition test_val_lookup_response :: "unit outcome" where
  "test_val_lookup_response =
     (let ssn = str ''111111111111''; name = str ''Test''; email = str ''Emai'';
          a = ValLookupResponsePdu_new ssn name email; b = ValLookupResponsePdu_to_vec a;
          len = 1 + SSN_LENGTH + 1 + string_len name + 1 + string_len email in
      obind (assert_eq (length b) len) (\<lambda>_.
      obind (ValLookupResponsePdu_try_parse b) (\<lambda>r.
      obind (unwrap r) (\<lambda>(a, b).
      obind (assert_eq b len) (\<lambda>_.
      obind (assert_eq (vlr_ssn a) ssn) (\<lambda>_.
      obind (assert_eq (vlr_name_length a) (of_nat (string_len name))) (\<lambda>_.
      obind (assert_eq (vlr_name a) name) (\<lambda>_.
      obind (assert_eq (vlr_email_length a) (of_nat (string_len email))) (\<lambda>_.
      assert_eq (vlr_email a) email)))))))))"

definition test_val_remove :: "unit outcome" where
  "test_val_remove =
     (let ssn = str ''111111111111''; a = ValRemovePdu_new ssn; b = ValRemovePdu_to_vec a in
      obind (assert_eq (length b) VAL_REMOVE_SIZE) (\<lambda>_.
      obind (ValRemovePdu_try_parse b) (\<lambda>r.
      obind (unwrap r) (\<lambda>(a, b).
      obind (assert_eq b VAL_REMOVE_SIZE) (\<lambda>_.
      assert_eq (vr_ssn a) ssn)))))"

definition test_val_lookup :: "unit outcome" where
  "test_val_lookup =
     (let ssn = str ''111111111111''; a = ValLookupPdu_new ssn 12345 1234; b = ValLookupPdu_to_vec a in
      obind (assert_eq (length b) VAL_LOOKUP_SIZE) (\<lambda>_.
      obind (ValLookupPdu_try_parse b) (\<lambda>r.
      obind (unwrap r) (\<lambda>(a, b).
      obind (assert_eq b VAL_LOOKUP_SIZE) (\<lambda>_.
      obind (assert_eq (vl_ssn a) ssn) (\<lambda>_.
      obind (assert_eq (vl_sender_address a) 12345) (\<lambda>_.
      assert_eq (vl_sender_port a) 1234)))))))"

section \<open>The hash\<close>

definition test_hash :: "unit outcome" where
  "test_hash = (let ssn = str ''aaaaabbbbbcc'' in assert_eq (hash_ssn ssn) 26)"

section \<open>Results\<close>

lemma assert_eq_refl [simp]: "assert_eq a a = Ret ()"
  by (simp add: assert_eq_def)

lemmas fixed_sizes = na.dec_enc ngn.dec_enc ngnr.dec_enc nj.dec_enc njr.dec_enc ncc.dec_enc nnr.dec_enc nnrr.dec_enc nl.dec_enc sl.dec_enc sr.dec_enc
  na.enc_length ngn.enc_length ngnr.enc_length nj.enc_length njr.enc_length ncc.enc_length nnr.enc_length nnrr.enc_length nl.enc_length sl.enc_length sr.enc_length

lemma fixed_tests:
  "test_net_alive = Ret ()"
  "test_net_get_node = Ret ()"
  "test_net_get_node_response = Ret ()"
  "test_net_join = Ret ()"
  "test_net_join_response = Ret ()"
  "test_net_close_connection = Ret ()"
  "test_net_new_range = Ret ()"
  "test_net_new_range_response = Ret ()"
  "test_net_leaving = Ret ()"
  "test_stun_lookup = Ret ()"
  "test_stun_response = Ret ()"
  by (simp_all add: test_net_alive_def test_net_get_node_def test_net_get_node_response_def test_net_join_def test_net_join_response_def test_net_close_connection_def test_net_new_range_def test_net_new_range_response_def test_net_leaving_def test_stun_lookup_def test_stun_response_def
      Let_def fixed_sizes
      NetAlivePdu_new_def NetGetNodePdu_new_def NetGetNodeResponsePdu_new_def NetJoinPdu_new_def NetJoinResponsePdu_new_def NetCloseConnectionPdu_new_def NetNewRangePdu_new_def NetNewRangeResponsePdu_new_def NetLeavingPdu_new_def StunLookupPdu_new_def StunResponsePdu_new_def)

lemma test_strings: "length (str s) = length s"
  "string_len (str ''Test'') = 4" "string_len (str ''Emai'') = 4"
  "latin1 (str ''111111111111'')" "latin1 (str ''Test'')" "latin1 (str ''Emai'')"
  by (simp_all add: str_def string_len_def len_utf8_def)

lemma test_values_ok:
  "ValInsertPdu_ok (ValInsertPdu_new (str ''111111111111'') (str ''Test'') (str ''Emai''))"
  "ValLookupResponsePdu_ok (ValLookupResponsePdu_new (str ''111111111111'') (str ''Test'') (str ''Emai''))"
  "ValRemovePdu_ok (ValRemovePdu_new (str ''111111111111''))"
  "ValLookupPdu_ok (ValLookupPdu_new (str ''111111111111'') a p)"
  by (simp_all add: ValInsertPdu_ok_def ValLookupResponsePdu_ok_def ValLookupResponsePdu_as_insert_def
      ValRemovePdu_ok_def ValLookupPdu_ok_def ValInsertPdu_new_def ValLookupResponsePdu_new_def
      ValRemovePdu_new_def ValLookupPdu_new_def test_strings SSN_LENGTH_def)

lemmas value_parses = vi.dec_enc [OF test_values_ok(1)] vlr.dec_enc [OF test_values_ok(2)]
  vr.dec_enc [OF test_values_ok(3)] vl.dec_enc [OF test_values_ok(4)]

lemma value_sizes:
  "length (ValInsertPdu_to_vec (ValInsertPdu_new (str ''111111111111'') (str ''Test'') (str ''Emai''))) = 23"
  "length (ValLookupResponsePdu_to_vec (ValLookupResponsePdu_new (str ''111111111111'') (str ''Test'') (str ''Emai''))) = 23"
  "length (ValRemovePdu_to_vec (ValRemovePdu_new (str ''111111111111''))) = 13"
  "length (ValLookupPdu_to_vec (ValLookupPdu_new (str ''111111111111'') a p)) = 19"
  by (simp_all add: ValInsertPdu_to_vec_def ValLookupResponsePdu_to_vec_def ValRemovePdu_to_vec_def
      ValLookupPdu_to_vec_def ValInsertPdu_new_def ValLookupResponsePdu_new_def ValRemovePdu_new_def
      ValLookupPdu_new_def test_strings SSN_LENGTH_def)

lemma value_tests:
  "test_val_insert = Ret ()" "test_val_lookup_response = Ret ()" "test_val_remove = Ret ()" "test_val_lookup = Ret ()"
  by (simp_all add: test_val_insert_def test_val_lookup_response_def test_val_remove_def test_val_lookup_def
      Let_def value_parses value_sizes test_strings pdu_consts)
    (simp_all add: ValInsertPdu_new_def ValLookupResponsePdu_new_def ValLookupResponsePdu_norm_def
      ValRemovePdu_new_def ValLookupPdu_new_def test_strings)

text \<open>The unit tests of the program pass in the model: no assertion fails and no call panics.\<close>

theorem unit_tests_pass:
  "test_net_alive = Ret () \<and>
   test_net_get_node = Ret () \<and>
   test_net_get_node_response = Ret () \<and>
   test_net_join = Ret () \<and>
   test_net_join_response = Ret () \<and>
   test_net_close_connection = Ret () \<and>
   test_net_new_range = Ret () \<and>
   test_net_new_range_response = Ret () \<and>
   test_net_leaving = Ret () \<and>
   test_stun_lookup = Ret () \<and>
   test_stun_response = Ret () \<and>
   test_val_insert = Ret () \<and>
   test_val_lookup_response = Ret () \<and>
   test_val_remove = Ret () \<and>
   test_val_lookup = Ret () \<and>
   test_hash = Ret ()"
  by (simp add: fixed_tests value_tests) (simp add: test_hash_def str_def hash_ssn_def)

end
