(* ===== verification/System.thy ===== *)
theory System
  imports Ring_Properties Keep_Alive Client_Properties Unit_Tests
begin

text \<open>
  The programs together: the datagrams one of them sends are the arrivals of another.  The
  lemmas here prepare the properties of the root theory.
\<close>

section \<open>A node and its tracker\<close>

text \<open>What a node asks its tracker, as it arrives there from the address \<open>me\<close>.\<close>

definition stun_request :: "socket_addr_v4 \<Rightarrow> message" where
  "stun_request me = (StunLookup StunLookupPdu_new, V4 me)"

definition node_request :: "socket_addr_v4 \<Rightarrow> message" where
  "node_request me = (NetGetNode NetGetNodePdu_new, V4 me)"

lemma requests_sendable: "list_all (sendable \<circ> fst) [stun_request me]" "list_all (sendable \<circ> fst) [node_request me]"
  "received [stun_request me] = [stun_request me]" "received [node_request me] = [node_request me]"
  "list_all (is_V4 \<circ> snd) [stun_request me]" "list_all (is_V4 \<circ> snd) [node_request me]"
  by (simp_all add: stun_request_def node_request_def sendable_def wf_pdu_def StunLookupPdu_new_def
      StunLookupPdu_to_vec_def NetGetNodePdu_new_def NetGetNodePdu_to_vec_def BUFFER_SIZE_def)

text \<open>Two passes of the tracker, one for each request.\<close>

lemma tracker_answers_node:
  assumes "t_idle t" "tt_events k1 = 1" "tt_events k2 = 1"
    and "arrivals (t_socket t) = datagrams [stun_request me] @ DWouldBlock # datagrams [node_request me] @ DWouldBlock # ds"
  shows "\<exists>t' r. run_tracker [k1, k2] t = Ret t' \<and>
    get_node_reply (drop_old (uint (t_timeout t)) (t_now t + tt_elapsed k1) (t_nodes t)) r \<and>
    sent_datagrams (t_socket t') = sent_datagrams (t_socket t) @
      [(V4 me, to_bytes (StunResponse (StunResponsePdu_new (fst me)))), (V4 me, to_bytes (NetGetNodeResponse r))]"
proof -
  let ?rest = "datagrams [node_request me] @ DWouldBlock # ds"
  have "round_ends (DWouldBlock # ?rest) ?rest" by (simp add: round_ends_def)
  from tracker_pass_serves [OF assms(1,2) requests_sendable(1,5) assms(4) this, unfolded requests_sendable(3)] obtain t1 outs1 al1 where
    t1: "tracker_pass k1 t = Ret t1" "t_idle t1" "t_timeout t1 = t_timeout t" "arrivals (t_socket t1) = ?rest"
    "served (t_now t1) (t_nodes t) [stun_request me] outs1 al1" "t_now t1 = t_now t + tt_elapsed k1"
    "t_nodes t1 = drop_old (uint (t_timeout t)) (t_now t1) al1"
    "sent_datagrams (t_socket t1) = sent_datagrams (t_socket t) @ outs1"
    by (metis (no_types, lifting))
  have "round_ends (DWouldBlock # ds) ds" by (simp add: round_ends_def)
  from tracker_pass_serves [OF t1(2) assms(3) requests_sendable(2,6) t1(4) this, unfolded requests_sendable(4)] obtain t2 outs2 al2 where
    t2: "tracker_pass k2 t1 = Ret t2" "served (t_now t2) (t_nodes t1) [node_request me] outs2 al2"
    "sent_datagrams (t_socket t2) = sent_datagrams (t_socket t1) @ outs2"
    by (metis (no_types, lifting))
  have "outs1 = [(V4 me, to_bytes (StunResponse (StunResponsePdu_new (fst me))))] \<and> al1 = t_nodes t"
    using t1(5) unfolding stun_request_def served_Cons_iff served_Nil_iff answered.simps after.simps by auto
  moreover obtain r where "get_node_reply (t_nodes t1) r" "outs2 = [(V4 me, to_bytes (NetGetNodeResponse r))]"
    using t2(2) unfolding node_request_def served_Cons_iff served_Nil_iff answered.simps after.simps by auto
  ultimately show ?thesis using t1 t2 by (intro exI [of _ t2] exI [of _ r]) (simp del: to_bytes.simps)
qed

lemma get_node_reply_new: "get_node_reply al r \<Longrightarrow> r = NetGetNodeResponsePdu_new (ngnr_address r) (ngnr_port r)"
  by (auto simp: get_node_reply_def NetGetNodeResponsePdu_new_def split: if_splits)

section \<open>A client and its node\<close>

text \<open>A node that owns every hash serves the insert and the lookup of a client in two passes.\<close>

lemma lone_node_serves:
  assumes "udp_idle n" "owned n = UNIV" "running n" "\<not> should_close n" "state n = Q6"
    and "tick_events t1 = [UDP]" "tick_events t2 = [UDP]" "\<not> tick_signal t1" "\<not> tick_signal t2"
    and "is_value p" "sendable p" "is_value q" "sendable q"
    and "arrivals (udp_sock n) = Datagram (to_bytes p) a # DWouldBlock # Datagram (to_bytes q) b # DWouldBlock # ds"
  shows "\<exists>n' al1 al2. run_node bld [t1, t2] n = Ret n' \<and> state n' = Q6 \<and> owned n' = UNIV \<and>
    abs_node n' = serve_value q ((\<lambda>v. v\<lparr>v_replies := v_replies v @ al2\<rparr>)
      (serve_value p ((abs_node n)\<lparr>v_replies := v_replies (abs_node n) @ al1\<rparr>))) \<and>
    set (al1 @ al2) \<subseteq> {(tracker_addr n, to_bytes (NetAlive NetAlivePdu_new))}"
proof -
  have cs: "can_send n" using assms(1,2) by (simp add: can_send_def udp_idle_def)
  have wf: "wf_pdu p" "length (to_bytes p) \<le> BUFFER_SIZE" "wf_pdu q" "length (to_bytes q) \<le> BUFFER_SIZE"
    using assms(11,13) by (simp_all add: sendable_def)
  obtain n1 where n1: "q6 t1 n = Ret n1" "state n1 = Q6" "hash_range n1 = hash_range n" "udp_idle n1" "can_send n1"
    "abs_node n1 = val_spec (owned n) p ((abs_node n)\<lparr>v_replies := v_replies (abs_node n) @ alive_due t1 n\<rparr>)"
    "arrivals (udp_sock n1) = Datagram (to_bytes q) b # DWouldBlock # ds" "running n1 = running n"
    "tracker_addr n1 = tracker_addr n" "\<not> should_close n1"
    using q6_serves_datagram [OF assms(1) cs assms(6,8,4,10) wf(1,2) assms(14)] by blast
  obtain n2 where n2: "q6 t2 n1 = Ret n2" "state n2 = Q6" "hash_range n2 = hash_range n1"
    "abs_node n2 = val_spec (owned n1) q ((abs_node n1)\<lparr>v_replies := v_replies (abs_node n1) @ alive_due t2 n1\<rparr>)"
    using q6_serves_datagram [OF n1(4,5) assms(7,9) n1(10) assms(12) wf(3,4) n1(7)] by blast
  have own: "owned n1 = UNIV" "owned n2 = UNIV" using n1(3) n2(3) assms(2) by (simp_all add: owned_def)
  have "run_node bld [t1, t2] n = Ret n2"
    using assms(3,5) n1(1,2,8) n2(1) by (simp add: node_step_def)
  moreover have "set (alive_due t1 n @ alive_due t2 n1) \<subseteq> {(tracker_addr n, to_bytes (NetAlive NetAlivePdu_new))}"
    using n1(9) by (auto simp: alive_due_def)
  ultimately show ?thesis using n1(6) n2(2,4) own assms(2) by (auto simp: val_spec_def)
qed

text \<open>What client and node send each other about a plain entry arrives as it was sent.\<close>

lemma plain_sendable:
  assumes "plain e"
  shows "sendable (ValInsert (ValInsertPdu_new (e_ssn e) (e_name e) (e_email e)))"
    and "sendable (ValLookup (ValLookupPdu_new (e_ssn e) ip port))"
    and "sendable (ValLookupResponse (ValLookupResponsePdu_new (e_ssn e) (e_name e) (e_email e)))"
proof -
  note p = assms [unfolded plain_def]
  show "sendable (ValInsert (ValInsertPdu_new (e_ssn e) (e_name e) (e_email e)))"
    using p plain_wf [OF assms]
    by (simp add: sendable_def insert_of_def) (simp add: ValInsertPdu_to_vec_def ValInsertPdu_new_def BUFFER_SIZE_def pdu_consts)
  show "sendable (ValLookup (ValLookupPdu_new (e_ssn e) ip port))"
    using p by (simp add: sendable_def wf_pdu_def ValLookupPdu_new_def ValLookupPdu_ok_def ascii_latin1
        ValLookupPdu_to_vec_def BUFFER_SIZE_def pdu_consts)
  show "sendable (ValLookupResponse (ValLookupResponsePdu_new (e_ssn e) (e_name e) (e_email e)))"
    using p by (simp add: sendable_def wf_pdu_def ValLookupResponsePdu_new_def ValLookupResponsePdu_ok_def
        ValLookupResponsePdu_as_insert_def ValInsertPdu_ok_def ascii_latin1 string_len_ascii unat_of_nat_u8
        ValLookupResponsePdu_to_vec_def BUFFER_SIZE_def pdu_consts)
qed

text \<open>A client that inserts an entry, looks it up and exits.\<close>

lemma client_inserts_and_asks:
  assumes "c_idle c" "plain e" "map trim ls = [str ''insert'', e_ssn e, e_name e, e_email e]"
    and "map trim ls' = [str ''lookup'', e_ssn e]" "trim x = str ''exit''" "c_stdin c = map Line (ls @ ls' @ [x])"
    and "arrivals (c_socket c) = [Datagram (to_bytes (ValLookupResponse (ValLookupResponsePdu_new (e_ssn e) (e_name e) (e_email e)))) a, DWouldBlock]"
  shows "\<exists>c'. command_loop node ip port c = Ret (IoOk, c') \<and>
    sent_datagrams (c_socket c') = sent_datagrams (c_socket c) @
      [(node, to_bytes (ValInsert (ValInsertPdu_new (e_ssn e) (e_name e) (e_email e)))),
       (node, to_bytes (ValLookup (ValLookupPdu_new (e_ssn e) ip port)))] \<and>
    c_printed c' = c_printed c @
      [ValLookupResponsePdu_norm (ValLookupResponsePdu_new (e_ssn e) (e_name e) (e_email e))]"
proof -
  let ?r = "ValLookupResponsePdu_new (e_ssn e) (e_name e) (e_email e)"
  let ?cmds = "[CInsert (e_ssn e) (e_name e) (e_email e), CLookup (e_ssn e) ?r a]"
  have "list_all2 typed ?cmds [ls, ls']" "list_all answerable ?cmds"
    using assms(3,4) plain_sendable(3) [OF assms(2)] by simp_all
  moreover have "c_stdin c = concat (map (map Line) [ls, ls']) @ [Line x]"
    "arrivals (c_socket c) = concat (map replies ?cmds) @ []" using assms(6,7) by simp_all
  ultimately obtain c1 where c1: "command_loop node ip port c = command_loop node ip port c1" "c_stdin c1 = [Line x]"
    "sent_datagrams (c_socket c1) = sent_datagrams (c_socket c) @ concat (map (sent_by node ip port) ?cmds)"
    "c_printed c1 = c_printed c @ concat (map printed_by ?cmds)"
    using session_runs [OF _ _ assms(1)] by blast
  have "command_loop node ip port c1 = Ret (IoOk, c1\<lparr>c_stdin := []\<rparr>)"
    using c1(2) assms(5) by (simp add: command_loop.simps [of node ip port c1] read_line_Line)
  then show ?thesis using c1 by (intro exI [of _ "c1\<lparr>c_stdin := []\<rparr>"]) (simp del: to_bytes.simps)
qed

end
