(* ===== verification/Spec2Isabelle.thy ===== *)
theory Spec2Isabelle
  imports System
begin

text \<open>
  A development about the distributed hash table in \<^verbatim>\<open>src/resources/TestNode\<close>: nodes form a
  ring of TCP connections and share the 256 hashes of a social security number among them; a
  tracker tells a new node of one that is alive; clients insert, look up and remove entries by
  datagrams to any node.

  The parts of the program and the theories that model them.
  \<^item> \<open>Dht_Prelude\<close>: machine types, the outcome of a Rust call (a value, a panic with its
    reason, or a call that never returns), arithmetic on bytes in debug and release builds,
    slices, byte order, chars and strings; the calculus \<open>safe\<close> for calls that do not panic.
  \<^item> \<open>Pdu\<close> (\<^verbatim>\<open>src/pdu.rs\<close>): each struct with its constructor, serialiser and parser, and the enum
    \<open>PDU\<close>.  \<open>Frame_Interface\<close> states as locales what the wrappers need of a parser;
    \<open>Pdu_Codec\<close> interprets them for every struct, \<open>Parse_Pdu\<close> models the dispatch
    \<open>parse_pdu\<close> of \<^verbatim>\<open>src/socket_wrapper.rs\<close> and interprets them for it (\<open>wire\<close>).
  \<^item> \<open>Os_Sockets\<close>: the non-blocking sockets and the clock of the operating system.  What the
    environment does is a script in the state of a socket (the results of its future reads and
    writes), so a theorem about every script is one about every peer, network and scheduler.
  \<^item> \<open>Socket_Wrapper\<close> (\<^verbatim>\<open>src/socket_wrapper.rs\<close>): \<open>TcpWrapper\<close> and \<open>UdpWrapper\<close>;
    \<open>Wrapper_Facts\<close> and \<open>Udp_Facts\<close>: what they guarantee.
  \<^item> \<open>Entry_Store\<close> (\<open>Entry\<close> of \<^verbatim>\<open>src/bin/node.rs\<close>): the hash and the vector of entries, with the
    locale \<open>entry_store\<close>.
  \<^item> \<open>Node_Base\<close>, \<open>Node_Values\<close>, \<open>Node_States\<close>, \<open>Node_Run\<close> (\<^verbatim>\<open>src/bin/node.rs\<close>): the struct \<open>Node\<close>
    as a record, its util functions, the value handlers and \<open>q9\<close>, the states \<open>q1\<close> to \<open>q18\<close>
    and \<open>handle_pdu\<close>, and the loop with the idle state \<open>q6\<close>, \<open>Node::new\<close> and \<open>main\<close>.
  \<^item> \<open>Expiring_Table\<close>, \<open>Tracker\<close>, \<open>Tracker_Service\<close> (\<^verbatim>\<open>src/bin/tracker.rs\<close>): the contract of a table
    whose keys expire, the tracker, and what it promises.
  \<^item> \<open>Client\<close>, \<open>Client_Session\<close> (\<^verbatim>\<open>src/bin/client.rs\<close>): the client and sessions with it.
  \<^item> \<open>Ring\<close>: a ring of nodes, in which the bytes one node puts on the stream to its successor
    arrive on the successor's stream from its predecessor.
  \<^item> \<open>Unit_Tests\<close>: the unit tests of the program as calls of the model, where they pass.

  How they interact.  A node reads and writes through the two wrappers; a wrapper only needs of
  the parser that it takes a frame off the front of its bytes and that further bytes do not
  change it (\<open>frame_decoder\<close>), and that serialised PDUs are such frames (\<open>frame_source\<close>).
  \<open>System\<close>, \<open>Keep_Alive\<close> and this theory connect the programs: the datagrams one sends are the
  arrivals of the other.  \<open>Ring\<close> connects nodes: \<open>enter\<close> is what the node does that gets a message as a
  datagram, \<open>hop\<close> what one does that gets it from its predecessor (its own \<open>q6\<close> event, and for a join
  request the passes \<open>q12\<close> and \<open>q13\<close> or \<open>q14\<close>), \<open>tour\<close> and \<open>relay\<close> a round over the nodes, one message at a time.

  What the lemmas show.
  \<^item> \<open>Node_Store\<close>: the value handlers refine an abstract service (\<open>val_spec\<close>), for one PDU and for
    the queue of a whole batch.
  \<^item> \<open>Node_Safety\<close>: an invariant of the reachable states; no state meets a pending PDU it does not
    expect, no slice is out of bounds, whatever the environment does.
  \<^item> \<open>Node_Ranges\<close>: splitting and merging of ranges, transfer of entries, and that a node stores
    only entries of its range.
  \<^item> \<open>Node_Protocol\<close>, \<open>Handover\<close>, \<open>Node_Start\<close>: the graph of the states, joining, leaving, the first
    passes of a node; both ends of a handover, through the bytes on the stream.
  \<^item> \<open>Ring_Ranges\<close>: the specification \<open>shares\<close> of how ranges are halved and merged, the relation \<open>ring\<close> of
    the rings that passes of the program make, and that these have the ranges of the specification.
  \<^item> \<open>Ring\<close>, \<open>Ring_Properties\<close>: who is responsible for a number, where a value PDU ends up, and that a join request finds the node with
    the widest range in one round and is answered by it in the second, or never if all ranges are
    single hashes.  \<open>Keep_Alive\<close>: how far apart the signs of life of a node are, and that
    a tracker that gets them in time does not forget it.
  \<^item> \<open>Wire_Properties\<close>, \<open>Node_Properties\<close>, \<open>Tracker_Properties\<close>, \<open>Client_Properties\<close>
    and this theory state the properties, numbered by importance, each with a concrete instance.
  Several properties state what the program gets wrong: requests that are lost, datagrams that
  stop a node or the tracker or set the range of a node, entries that are not found meanwhile, bytes that are attributed to the wrong sender.

  Bounds and termination.  The buffers hold \<open>BUFFER_SIZE\<close> = 25600 bytes, as in the source; the
  handover theorems assume that what is handed over at once fits.  Every loop terminates
  because it takes something off a script or a queue; a loop that would wait for ever (an
  \<open>accept\<close> with nobody connecting, a poll without events, the command loop of the client at the end of
  its input) has the outcome \<open>Blocked\<close>.  There is no fuel: \<open>run_node\<close> and \<open>run_tracker\<close>
  make one pass per tick they are given, and hold for every list of ticks.

  Assumptions about the environment, all in the statements that need them.  \<open>known_tokens\<close>: a poll
  reports tokens that were registered.  \<open>udp_ready\<close>, \<open>link_ready\<close>, \<open>can_send\<close>: sends may be
  delayed but do not fail.  \<open>orderly\<close>: the \<open>NET_NEW_RANGE\<close> PDUs a node handles extend its range.
  Time passes in the polls; within a pass the clock stands still.

  Distributed runs are modelled one message at a time: joins or leaves that overlap, and messages
  that overtake each other on different streams, are not.

  Not modelled.  Log output (of the client's output the answers to lookups are kept), the parsing
  of command lines, the sleeping between two tries to send or two rows of a CSV file, the parsing
  of CSV (the rows are a script), and the signal handler's thread (a tick says whether a signal came
  before the end of the pass).  \<^verbatim>\<open>src/lib.rs\<close> only declares modules.  The node in C under \<^verbatim>\<open>src/src\<close>,
  its hash table and the C test programs are another program.
\<close>

section \<open>A node and its tracker\<close>

text \<open>C18: A node that starts and its tracker, over the datagrams they exchange.  The tracker answers the
  two requests of the node; with these answers the node knows the address the tracker saw it at, and
  becomes the first node exactly if it is told (0, 0), which the tracker only says when it lists
  no node (or one at that address), and otherwise asks to join at a node the tracker lists as alive.\<close>

theorem node_starts_with_tracker:
  assumes "Node_new e tracker = Ret n" "env_udp e = Some u" "udp_ready u" "env_syscalls e = []"
    and "list_all known_tokens [t1, t2, t3]"
    and "t_idle t" "tt_events k1 = 1" "tt_events k2 = 1"
    and "arrivals (t_socket t) = datagrams [stun_request me] @ DWouldBlock # datagrams [node_request me] @ DWouldBlock # ds"
  shows "\<exists>t' r. run_tracker [k1, k2] t = Ret t' \<and>
    get_node_reply (drop_old (uint (t_timeout t)) (t_now t + tt_elapsed k1) (t_nodes t)) r \<and>
    sent_datagrams (t_socket t') = sent_datagrams (t_socket t) @
      [(V4 me, to_bytes (StunResponse (StunResponsePdu_new (fst me)))), (V4 me, to_bytes (NetGetNodeResponse r))] \<and>
    (arrivals u = [Datagram (to_bytes (StunResponse (StunResponsePdu_new (fst me)))) tracker, DWouldBlock,
        Datagram (to_bytes (NetGetNodeResponse r)) tracker, DWouldBlock] \<longrightarrow>
      (\<exists>n'. run_node bld [t1, t2, t3] n = Ret n' \<and> own_address n' = Some (fst me) \<and>
        sent_datagrams (udp_sock n') = sent_datagrams u @
          [(tracker, to_bytes (fst (stun_request me))), (tracker, to_bytes (fst (node_request me)))] \<and>
        (if get_addr r = V4 (0, 0) then state n' = Q4
         else state n' = Q7 \<and> last_pdu n' = Some (NetGetNodeResponse r))))"
proof -
  obtain t' r where t': "run_tracker [k1, k2] t = Ret t'"
    "get_node_reply (drop_old (uint (t_timeout t)) (t_now t + tt_elapsed k1) (t_nodes t)) r"
    "sent_datagrams (t_socket t') = sent_datagrams (t_socket t) @
      [(V4 me, to_bytes (StunResponse (StunResponsePdu_new (fst me)))), (V4 me, to_bytes (NetGetNodeResponse r))]"
    using tracker_answers_node [OF assms(6-9)] by blast
  let ?b1 = "to_bytes (StunResponse (StunResponsePdu_new (fst me)))" and ?b2 = "to_bytes (NetGetNodeResponse r)"
  note r = get_node_reply_new [OF t'(2)]
  have "\<exists>n'. run_node bld [t1, t2, t3] n = Ret n' \<and> own_address n' = Some (fst me) \<and>
      sent_datagrams (udp_sock n') = sent_datagrams u @
        [(tracker, to_bytes (fst (stun_request me))), (tracker, to_bytes (fst (node_request me)))] \<and>
      (if get_addr r = V4 (0, 0) then state n' = Q4
       else state n' = Q7 \<and> last_pdu n' = Some (NetGetNodeResponse r))"
    if "arrivals u = [Datagram ?b1 tracker, DWouldBlock, Datagram ?b2 tracker, DWouldBlock]"
  proof -
    have "arrivals u = Datagram ?b1 tracker # DWouldBlock #
        Datagram (to_bytes (NetGetNodeResponse (NetGetNodeResponsePdu_new (ngnr_address r) (ngnr_port r)))) tracker #
        DWouldBlock # []"
      using that r by metis
    from node_asks [OF assms(1-4) this assms(5), of bld] r show ?thesis
      by (auto simp: get_addr_def stun_request_def node_request_def simp del: to_bytes.simps run_node.simps)
  qed
  then show ?thesis using t' by blast
qed

text \<open>The example: a tracker that lists nobody, and the node at 10.0.0.1:7000.\<close>

definition demo_me :: socket_addr_v4 where
  "demo_me = (0x0A000001, 7000)"

definition demo_first_udp :: udp_socket where
  "demo_first_udp = demo_udp\<lparr>arrivals :=
     [Datagram (to_bytes (StunResponse (StunResponsePdu_new (fst demo_me)))) demo_tracker, DWouldBlock,
      Datagram (to_bytes (NetGetNodeResponse (NetGetNodeResponsePdu_new 0 0))) demo_tracker, DWouldBlock]\<rparr>"

definition demo_asked_tracker :: tracker where
  "demo_asked_tracker = demo_tracker_state\<lparr>t_socket := demo_udp\<lparr>arrivals :=
     datagrams [stun_request demo_me] @ DWouldBlock # datagrams [node_request demo_me] @ DWouldBlock # []\<rparr>\<rparr>"

theorem node_starts_with_tracker_witness:
  "\<exists>n'. run_node Debug [demo_tick, demo_tick, demo_tick] (demo_start\<lparr>udp_sock := demo_first_udp\<rparr>) = Ret n' \<and>
     own_address n' = Some 0x0A000001 \<and> state n' = Q4"
proof -
  have new: "Node_new (demo_env\<lparr>env_udp := Some demo_first_udp\<rparr>) demo_tracker = Ret (demo_start\<lparr>udp_sock := demo_first_udp\<rparr>)"
    by (simp add: Node_new_def demo_env_def demo_start_def unwrap_io_def get_listen_addr_def
        demo_first_udp_def demo_udp_def secs_def Let_def)
  have env: "env_udp (demo_env\<lparr>env_udp := Some demo_first_udp\<rparr>) = Some demo_first_udp" "udp_ready demo_first_udp"
    "env_syscalls (demo_env\<lparr>env_udp := Some demo_first_udp\<rparr>) = []" "list_all known_tokens [demo_tick, demo_tick, demo_tick]"
    by (simp_all add: demo_env_def demo_first_udp_def demo_udp_def udp_ready_def demo_tick_known)
  have t: "t_idle demo_asked_tracker" "tt_events demo_pass = 1" "t_nodes demo_asked_tracker = []"
    "arrivals (t_socket demo_asked_tracker) =
      datagrams [stun_request demo_me] @ DWouldBlock # datagrams [node_request demo_me] @ DWouldBlock # []"
    using demo_tracker_facts(1,2)
    by (simp_all add: demo_asked_tracker_def t_idle_def udp_ready_def demo_udp_def demo_pass_def)
  have "drop_old l s [] = []" for l s by (simp add: drop_old_def retain_pairs_def)
  then have r: "get_node_reply (drop_old l s (t_nodes demo_asked_tracker)) r \<longleftrightarrow> r = NetGetNodeResponsePdu_new 0 0" for l s r
    by (simp add: t(3) get_node_reply_def)
  have a: "arrivals demo_first_udp = [Datagram (to_bytes (StunResponse (StunResponsePdu_new (fst demo_me)))) demo_tracker, DWouldBlock,
      Datagram (to_bytes (NetGetNodeResponse (NetGetNodeResponsePdu_new 0 0))) demo_tracker, DWouldBlock]"
    by (simp add: demo_first_udp_def)
  have g: "get_addr (NetGetNodeResponsePdu_new 0 0) = V4 (0, 0)"
    by (simp add: get_addr_def NetGetNodeResponsePdu_new_def)
  from node_starts_with_tracker [OF new env t(1,2,2,4), of Debug] show ?thesis
    unfolding r using a g by (auto simp: demo_me_def simp del: to_bytes.simps run_node.simps)
qed

section \<open>A client and its node\<close>

text \<open>C7: What is inserted is looked up, from the terminal of a client to the store of a node and back.
  A client is told to insert an entry, to look it up and to exit; a node that owns every hash and does
  not know the number serves the two datagrams the client sends, in two passes, and its reply makes the
  client print the entry and return.\<close>

theorem client_finds_what_it_inserts:
  assumes "udp_idle n" "owned n = UNIV" "running n" "\<not> should_close n" "state n = Q6" "store_of n (e_ssn e) = None"
    and "tick_events t1 = [UDP]" "tick_events t2 = [UDP]" "\<not> tick_signal t1" "\<not> tick_signal t2"
    and "c_idle c" "plain e" "map trim ls = [str ''insert'', e_ssn e, e_name e, e_email e]"
    and "map trim ls' = [str ''lookup'', e_ssn e]" "trim x = str ''exit''" "c_stdin c = map Line (ls @ ls' @ [x])"
    and "b1 = to_bytes (ValInsert (ValInsertPdu_new (e_ssn e) (e_name e) (e_email e)))"
    and "b2 = to_bytes (ValLookup (ValLookupPdu_new (e_ssn e) ip port))"
    and "b3 = to_bytes (ValLookupResponse (ValLookupResponsePdu_new (e_ssn e) (e_name e) (e_email e)))"
    and "arrivals (udp_sock n) = Datagram b1 me # DWouldBlock # Datagram b2 me # DWouldBlock # ds"
    and "arrivals (c_socket c) = [Datagram b3 node, DWouldBlock]"
  shows "\<exists>c' n' p others. command_loop node ip port c = Ret (IoOk, c') \<and>
    sent_datagrams (c_socket c') = sent_datagrams (c_socket c) @ [(node, b1), (node, b2)] \<and>
    run_node bld [t1, t2] n = Ret n' \<and> store_of n' (e_ssn e) = Some e \<and>
    sent_datagrams (udp_sock n') = sent_datagrams (udp_sock n) @ others @ [(V4 (ip, port), b3)] \<and>
    set others \<subseteq> {(tracker_addr n, to_bytes (NetAlive NetAlivePdu_new))} \<and>
    c_printed c' = c_printed c @ [p] \<and> vlr_ssn p = e_ssn e \<and> vlr_name p = e_name e \<and> vlr_email p = e_email e"
proof -
  let ?ins = "ValInsert (ValInsertPdu_new (e_ssn e) (e_name e) (e_email e))"
  let ?ask = "ValLookup (ValLookupPdu_new (e_ssn e) ip port)"
  let ?r = "ValLookupResponsePdu_new (e_ssn e) (e_name e) (e_email e)"
  have e: "Entry_new (e_ssn e) (e_name e) (e_email e) = e" by (simp add: Entry_new_def)
  have val: "is_value ?ins" "is_value ?ask" by (simp_all add: is_value_def)
  have "vlr_ssn (ValLookupResponsePdu_norm ?r) = e_ssn e" "vlr_name (ValLookupResponsePdu_norm ?r) = e_name e"
    "vlr_email (ValLookupResponsePdu_norm ?r) = e_email e"
    by (simp_all add: ValLookupResponsePdu_norm_def ValLookupResponsePdu_new_def)
  then have client: "\<exists>c' p. command_loop node ip port c = Ret (IoOk, c') \<and>
      sent_datagrams (c_socket c') = sent_datagrams (c_socket c) @ [(node, b1), (node, b2)] \<and>
      c_printed c' = c_printed c @ [p] \<and> vlr_ssn p = e_ssn e \<and> vlr_name p = e_name e \<and> vlr_email p = e_email e"
    using client_inserts_and_asks [OF assms(11-16) assms(21) [unfolded assms(19)], of node ip port]
    unfolding assms(17,18) by blast
  obtain n' al1 al2 where
    n': "run_node bld [t1, t2] n = Ret n'" "abs_node n' = serve_value ?ask ((\<lambda>v. v\<lparr>v_replies := v_replies v @ al2\<rparr>)
      (serve_value ?ins ((abs_node n)\<lparr>v_replies := v_replies (abs_node n) @ al1\<rparr>)))"
    "set (al1 @ al2) \<subseteq> {(tracker_addr n, to_bytes (NetAlive NetAlivePdu_new))}"
    using lone_node_serves [OF assms(1-5,7-10) val(1) plain_sendable(1) [OF assms(12)] val(2)
        plain_sendable(2) [OF assms(12)] assms(20) [unfolded assms(17,18)], of bld] by blast
  have sel: "vi_ssn (ValInsertPdu_new (e_ssn e) (e_name e) (e_email e)) = e_ssn e"
    "vi_name (ValInsertPdu_new (e_ssn e) (e_name e) (e_email e)) = e_name e"
    "vi_email (ValInsertPdu_new (e_ssn e) (e_name e) (e_email e)) = e_email e"
    "vl_ssn (ValLookupPdu_new (e_ssn e) ip port) = e_ssn e" "vl_sender_address (ValLookupPdu_new (e_ssn e) ip port) = ip"
    "vl_sender_port (ValLookupPdu_new (e_ssn e) ip port) = port"
    by (simp_all add: ValInsertPdu_new_def ValLookupPdu_new_def)
  have "v_store (abs_node n') (e_ssn e) = Some e" "v_replies (abs_node n') =
      sent_datagrams (udp_sock n) @ (al1 @ al2) @ [(V4 (ip, port), to_bytes (ValLookupResponse ?r))]"
    unfolding n'(2) using assms(6) by (simp_all add: sel e abs_node_def store_of_eq lookup_reply_def del: to_bytes.simps)
  then have "store_of n' (e_ssn e) = Some e" "sent_datagrams (udp_sock n') =
      sent_datagrams (udp_sock n) @ (al1 @ al2) @ [(V4 (ip, port), to_bytes (ValLookupResponse ?r))]"
    by (simp_all add: abs_node_def store_of_eq del: to_bytes.simps)
  then show ?thesis using client n'(1,3) unfolding assms(19) by blast
qed

text \<open>The example: Ada's entry, at the node that owns every hash.\<close>

definition demo_answer :: PDU where
  "demo_answer = ValLookupResponse (ValLookupResponsePdu_new demo_ssn [65, 100, 97] [97, 64, 98])"

definition demo_server :: node where
  "demo_server = demo_node\<lparr>stored := [], udp_sock := demo_udp\<lparr>arrivals :=
     [Datagram (to_bytes demo_insert) (V4 (0x7F000001, 4711)), DWouldBlock,
      Datagram (to_bytes demo_lookup) (V4 (0x7F000001, 4711)), DWouldBlock]\<rparr>\<rparr>"

definition demo_user :: client where
  "demo_user = demo_client\<lparr>c_stdin := map Line ([str '' insert'', demo_ssn, [65, 100, 97], [97, 64, 98]] @
     [str ''lookup '', demo_ssn] @ [str ''exit'']),
     c_socket := demo_udp\<lparr>arrivals := [Datagram (to_bytes demo_answer) (V4 demo_me), DWouldBlock]\<rparr>\<rparr>"

theorem client_finds_what_it_inserts_witness:
  "\<exists>c' n' p. command_loop (V4 demo_me) 0x7F000001 4711 demo_user = Ret (IoOk, c') \<and>
     run_node Release [demo_tick, demo_tick] demo_server = Ret n' \<and> store_of n' demo_ssn = Some demo_entry \<and>
     c_printed c' = [p] \<and> vlr_name p = [65, 100, 97]"
proof -
  have n: "udp_idle demo_server" "owned demo_server = UNIV" "running demo_server" "\<not> should_close demo_server"
    "state demo_server = Q6" "store_of demo_server (e_ssn demo_entry) = None"
    "tick_events demo_tick = [UDP]" "\<not> tick_signal demo_tick"
  proof -
    have "h \<le> 255" for h :: u8 using unat_u8_less [of h] by (simp add: word_le_nat_alt)
    then show "owned demo_server = UNIV" by (auto simp: owned_def range_set_def demo_server_def demo_node_def)
    show "udp_idle demo_server"
      using UdpWrapper_new_facts by (simp add: udp_idle_def demo_server_def demo_node_def udp_ready_def demo_udp_def)
  qed (simp_all add: demo_server_def demo_node_def store_of_def demo_tick_def)
  have e: "e_ssn demo_entry = demo_ssn" "e_name demo_entry = [65, 100, 97]" "e_email demo_entry = [97, 64, 98]"
    by (simp_all add: demo_entry_def Entry_new_def)
  have c: "c_idle demo_user" "c_stdin demo_user = map Line ([str '' insert'', demo_ssn, [65, 100, 97], [97, 64, 98]] @
     [str ''lookup '', demo_ssn] @ [str ''exit''])" "c_printed demo_user = []"
    "arrivals (c_socket demo_user) = [Datagram (to_bytes demo_answer) (V4 demo_me), DWouldBlock]"
    using demo_client_idle(2) by (simp_all add: demo_user_def c_idle_def udp_ready_def demo_udp_def demo_client_def)
  have words: "map trim [str '' insert'', demo_ssn, [65, 100, 97], [97, 64, 98]] = [str ''insert'', e_ssn demo_entry, e_name demo_entry, e_email demo_entry]"
    "map trim [str ''lookup '', demo_ssn] = [str ''lookup'', e_ssn demo_entry]" "trim (str ''exit'') = str ''exit''"
    by (simp_all add: e trim_def str_def is_whitespace_def demo_ssn_def)
  have b: "to_bytes demo_insert = to_bytes (ValInsert (ValInsertPdu_new (e_ssn demo_entry) (e_name demo_entry) (e_email demo_entry)))"
    "to_bytes demo_lookup = to_bytes (ValLookup (ValLookupPdu_new (e_ssn demo_entry) 0x7F000001 4711))"
    "to_bytes demo_answer = to_bytes (ValLookupResponse (ValLookupResponsePdu_new (e_ssn demo_entry) (e_name demo_entry) (e_email demo_entry)))"
    unfolding e demo_insert_def demo_lookup_def demo_answer_def by (rule refl)+
  have a: "arrivals (udp_sock demo_server) = Datagram (to_bytes demo_insert) (V4 (0x7F000001, 4711)) # DWouldBlock #
      Datagram (to_bytes demo_lookup) (V4 (0x7F000001, 4711)) # DWouldBlock # []"
    by (simp add: demo_server_def)
  from client_finds_what_it_inserts [OF n(1-7,7,8,8) c(1) demo_plain words c(2) b a c(4), of Release]
  show ?thesis unfolding c(3) e by auto
qed

end
